(* ===== verification/Prelude.thy ===== *)
theory Prelude
  imports Main "HOL-Library.Signed_Division"
begin

text \<open>
  Shared vocabulary of the development.

  \<^item> Bytes are HOL's \<open>char\<close> (256 values), so a C string literal is an Isabelle string;
    \<open>ub c\<close> is C's \<open>(int)(unsigned char)c\<close>.
  \<^item> Memory that a routine reads or writes through pointers is a store \<open>mem\<close> from addresses
    to bytes; \<open>cstr m p s\<close> says that the NUL-terminated string at \<open>p\<close> is \<open>s\<close>.
  \<^item> \<open>while (P(i)) i++\<close> is \<open>scan_while P i\<close>. Such a loop need not stop, so its result is an
    option, and every use proves that it returns.
  \<^item> C's signed integers are \<open>int\<close> with the two's complement conversions \<open>to_i32\<close>,
    \<open>to_i64\<close>, unsigned ones with \<open>to_u32\<close>, \<open>to_u64\<close>; C division and remainder truncate
    (\<open>sdiv\<close>, \<open>smod\<close> of the library).
  \<^item> \<open>digits_rev b v\<close> is the digit loop \<open>do { buf[n++] = v % b; v /= b; } while (v)\<close> that
    strerror, strsignal, printf, strftime, asctime and the shell repeat.
\<close>

named_theorems mem_simps \<open>reading a store after a write\<close>
named_theorems cstr_intros \<open>how to establish that a C string is at an address\<close>

section \<open>Machine integers\<close>

definition to_u32 :: "int \<Rightarrow> int" where
  "to_u32 x = x mod 4294967296"

definition to_u64 :: "int \<Rightarrow> int" where
  "to_u64 x = x mod 18446744073709551616"

definition to_i32 :: "int \<Rightarrow> int" where
  "to_i32 x = (x + 2147483648) mod 4294967296 - 2147483648"

definition to_i64 :: "int \<Rightarrow> int" where
  "to_i64 x = (x + 9223372036854775808) mod 18446744073709551616 - 9223372036854775808"

definition in_i32 :: "int \<Rightarrow> bool" where
  "in_i32 x \<longleftrightarrow> -2147483648 \<le> x \<and> x \<le> 2147483647"

definition in_i64 :: "int \<Rightarrow> bool" where
  "in_i64 x \<longleftrightarrow> -9223372036854775808 \<le> x \<and> x \<le> 9223372036854775807"

lemma to_i32_id [simp]: "in_i32 x \<Longrightarrow> to_i32 x = x"
  by (simp add: in_i32_def to_i32_def)

lemma to_i64_id [simp]: "in_i64 x \<Longrightarrow> to_i64 x = x"
  by (simp add: in_i64_def to_i64_def)

lemma in_i32_to_i32 [simp]: "in_i32 (to_i32 x)"
proof -
  have "0 \<le> (x + 2147483648) mod 4294967296" "(x + 2147483648) mod 4294967296 < 4294967296"
    by simp_all
  then show ?thesis unfolding in_i32_def to_i32_def by linarith
qed

lemma to_i64_to_u64 [simp]: "to_i64 (to_u64 x) = to_i64 x"
  unfolding to_i64_def to_u64_def by (simp only: mod_add_left_eq)

lemma to_i32_to_u32 [simp]: "to_i32 (to_u32 x) = to_i32 x"
  unfolding to_i32_def to_u32_def by (simp only: mod_add_left_eq)

lemma to_u64_range [simp]: "0 \<le> to_u64 x" "to_u64 x < 18446744073709551616"
  by (simp_all add: to_u64_def)

lemma to_u64_id: "0 \<le> x \<Longrightarrow> x < 18446744073709551616 \<Longrightarrow> to_u64 x = x"
  by (simp add: to_u64_def)

text \<open>\<open>SIZE_MOD\<close> is one more than the largest \<open>size_t\<close>.\<close>

abbreviation SIZE_MOD :: nat where
  "SIZE_MOD \<equiv> 18446744073709551616"

section \<open>Bytes and stores\<close>

abbreviation NUL :: char where
  "NUL \<equiv> CHR 0x00"

definition ub :: "char \<Rightarrow> int" where
  "ub c = of_char c"

lemma ub_range [simp]: "0 \<le> ub c" "ub c < 256"
  by (simp_all add: ub_def of_char_def horner_sum_bound[where 'a=int, of "[digit0 c, digit1 c, digit2 c, digit3 c, digit4 c, digit5 c, digit6 c, digit7 c]", simplified])

lemma ub_inj [simp]: "ub a = ub b \<longleftrightarrow> a = b"
  by (simp add: ub_def)

lemma ub_char_of [simp]: "n < 256 \<Longrightarrow> ub (char_of (n::nat)) = int n"
  unfolding ub_def by (subst of_nat_of_char [symmetric]) simp

lemma ub_char_of_int [simp]: "0 \<le> n \<Longrightarrow> n < 256 \<Longrightarrow> ub (char_of (n::int)) = n"
  unfolding ub_def by simp

lemma char_of_ub [simp]: "char_of (ub c) = c"
  unfolding ub_def by simp

type_synonym mem = "nat \<Rightarrow> char"

primrec store :: "mem \<Rightarrow> nat \<Rightarrow> string \<Rightarrow> mem" where
  "store m p [] = m"
| "store m p (c # cs) = store (m(p := c)) (Suc p) cs"

lemma store_at [mem_simps]:
  "store m p s a = (if p \<le> a \<and> a < p + length s then s ! (a - p) else m a)"
  by (induction s arbitrary: m p) (auto simp: nth_Cons' Suc_diff_Suc)

definition bytes :: "mem \<Rightarrow> nat \<Rightarrow> nat \<Rightarrow> string" where
  "bytes m p n = map (\<lambda>i. m (p + i)) [0..<n]"

lemma length_bytes [simp]: "length (bytes m p n) = n"
  by (simp add: bytes_def)

lemma nth_bytes [simp]: "i < n \<Longrightarrow> bytes m p n ! i = m (p + i)"
  by (simp add: bytes_def)

definition cstr :: "mem \<Rightarrow> nat \<Rightarrow> string \<Rightarrow> bool" where
  "cstr m p s \<longleftrightarrow> bytes m p (length s) = s \<and> m (p + length s) = NUL \<and> NUL \<notin> set s"

lemma cstr_nth: "cstr m p s \<Longrightarrow> i < length s \<Longrightarrow> m (p + i) = s ! i"
  unfolding cstr_def by (metis nth_bytes)

lemma cstr_end: "cstr m p s \<Longrightarrow> m (p + length s) = NUL"
  by (simp add: cstr_def)

lemma cstr_not_nul: "cstr m p s \<Longrightarrow> i < length s \<Longrightarrow> m (p + i) \<noteq> NUL"
  by (metis cstr_def cstr_nth nth_mem)

lemma cstrI [cstr_intros]:
  "(\<And>i. i < length s \<Longrightarrow> m (p + i) = s ! i) \<Longrightarrow> m (p + length s) = NUL \<Longrightarrow> NUL \<notin> set s \<Longrightarrow> cstr m p s"
  unfolding cstr_def by (auto intro: nth_equalityI)

lemma cstr_store [cstr_intros]:
  "NUL \<notin> set s \<Longrightarrow> cstr (store m p (s @ [NUL])) p s"
  by (rule cstrI) (auto simp: store_at nth_append)

lemma cstr_store_other [cstr_intros]:
  "cstr m q s \<Longrightarrow> p + length t \<le> q \<or> q + length s < p \<Longrightarrow> cstr (store m p t) q s"
  by (rule cstrI) (auto simp: store_at cstr_nth cstr_end, auto simp: cstr_def)

lemma cstr_unique: "cstr m p s \<Longrightarrow> cstr m p t \<Longrightarrow> s = t"
proof -
  assume s: "cstr m p s" and t: "cstr m p t"
  have "\<not> length s < length t"
    using cstr_end [OF s] cstr_not_nul [OF t, of "length s"] by blast
  moreover have "\<not> length t < length s"
    using cstr_end [OF t] cstr_not_nul [OF s, of "length t"] by blast
  ultimately have "length s = length t" by simp
  then show "s = t" using s t by (simp add: cstr_def)
qed

lemma cstr_drop: "cstr m p s \<Longrightarrow> k \<le> length s \<Longrightarrow> cstr m (p + k) (drop k s)"
  by (rule cstrI) (auto simp: cstr_nth cstr_end add.assoc, auto simp: cstr_def dest: in_set_dropD)

section \<open>The counting loop\<close>

partial_function (option) scan_while :: "(nat \<Rightarrow> bool) \<Rightarrow> nat \<Rightarrow> nat option" where
  "scan_while Q i = (if Q i then scan_while Q (Suc i) else Some i)"

declare scan_while.simps [code]

lemma scan_while_stops:
  assumes "\<And>j. i \<le> j \<Longrightarrow> j < k \<Longrightarrow> P j" and "\<not> P k" and "i \<le> k"
  shows "scan_while P i = Some k"
  using assms
proof (induction "k - i" arbitrary: i)
  case 0
  then show ?case by (subst scan_while.simps) simp
next
  case (Suc n)
  then have "i < k" and "P i" by auto
  moreover have "scan_while P (Suc i) = Some k"
    using Suc by (intro Suc.hyps(1)) auto
  ultimately show ?case by (subst scan_while.simps) simp
qed

lemma scan_while_Least:
  assumes "\<not> P k"
  shows "\<exists>n \<le> k. scan_while P 0 = Some n \<and> \<not> P n \<and> (\<forall>j < n. P j)"
proof -
  define n where "n = (LEAST n. \<not> P n)"
  have "\<not> P n" unfolding n_def by (rule LeastI [of "\<lambda>n. \<not> P n", OF assms])
  moreover have "n \<le> k" unfolding n_def by (rule Least_le [of "\<lambda>n. \<not> P n", OF assms])
  moreover have "P j" if "j < n" for j
    using not_less_Least [of j "\<lambda>n. \<not> P n"] that unfolding n_def by blast
  moreover from calculation have "scan_while P 0 = Some n" by (intro scan_while_stops) auto
  ultimately show ?thesis by blast
qed

lemma scan_while_SomeD:
  assumes "scan_while P i = Some k"
  shows "i \<le> k \<and> \<not> P k \<and> (\<forall>j. i \<le> j \<and> j < k \<longrightarrow> P j)"
proof (rule scan_while.raw_induct
    [where P = "\<lambda>Q i k. i \<le> k \<and> \<not> Q k \<and> (\<forall>j. i \<le> j \<and> j < k \<longrightarrow> Q j)", OF _ assms])
  fix f :: "(nat \<Rightarrow> bool) \<Rightarrow> nat \<Rightarrow> nat option" and Q i k
  assume IH: "\<And>Q i k. f Q i = Some k \<Longrightarrow> i \<le> k \<and> \<not> Q k \<and> (\<forall>j. i \<le> j \<and> j < k \<longrightarrow> Q j)"
    and eq: "(if Q i then f Q (Suc i) else Some i) = Some k"
  show "i \<le> k \<and> \<not> Q k \<and> (\<forall>j. i \<le> j \<and> j < k \<longrightarrow> Q j)"
  proof (cases "Q i")
    case True
    with eq IH [of Q "Suc i" k] show ?thesis by (auto simp: Suc_le_eq) (metis le_less)
  qed (use eq in auto)
qed

text \<open>\<open>while (k < n && P(k)) k++;\<close> from 0: this one always stops.\<close>

definition count_upto :: "(nat \<Rightarrow> bool) \<Rightarrow> nat \<Rightarrow> nat" where
  "count_upto P n = length (takeWhile P [0..<n])"

lemma count_upto_le: "count_upto P n \<le> n"
  unfolding count_upto_def by (metis length_takeWhile_le diff_zero length_upt)

lemma count_upto_less: "k < count_upto P n \<Longrightarrow> P k"
proof -
  assume k: "k < count_upto P n"
  then have "takeWhile P [0..<n] ! k \<in> set (takeWhile P [0..<n])"
    unfolding count_upto_def by (rule nth_mem)
  then have "P (takeWhile P [0..<n] ! k)" by (auto dest: set_takeWhileD)
  moreover have "takeWhile P [0..<n] ! k = k"
    using k count_upto_le [of P n] takeWhile_nth [of k P "[0..<n]"] by (simp add: count_upto_def)
  ultimately show "P k" by simp
qed

lemma count_upto_stop: "count_upto P n < n \<Longrightarrow> \<not> P (count_upto P n)"
  unfolding count_upto_def using nth_length_takeWhile [of P "[0..<n]"] by simp

lemma count_upto_eqI:
  assumes "\<And>j. j < k \<Longrightarrow> P j" and "k < n \<Longrightarrow> \<not> P k" and "k \<le> n"
  shows "count_upto P n = k"
  using assms count_upto_less [of k P n] count_upto_stop [of P n] count_upto_le [of P n]
  by (metis linorder_neqE_nat order_less_le_trans)

lemma count_upto_full_iff: "count_upto P n = n \<longleftrightarrow> (\<forall>k<n. P k)"
  by (metis count_upto_eqI count_upto_less less_irrefl le_refl)

section \<open>Strings as values\<close>

text \<open>The byte a C program reads at index \<open>i\<close> of a string value: NUL at its end.\<close>

definition char_at :: "string \<Rightarrow> nat \<Rightarrow> char" where
  "char_at s i = (if i < length s then s ! i else NUL)"

lemma char_at_simps [simp]:
  "char_at [] i = NUL" "char_at (c # s) 0 = c" "char_at (c # s) (Suc i) = char_at s i"
  by (auto simp: char_at_def)

lemma cstr_at: "cstr m p s \<Longrightarrow> i \<le> length s \<Longrightarrow> m (p + i) = char_at s i"
  by (auto simp: char_at_def cstr_nth cstr_end)

lemma cstr_nul_iff: "cstr m p s \<Longrightarrow> i \<le> length s \<Longrightarrow> m (p + i) = NUL \<longleftrightarrow> i = length s"
  using cstr_not_nul [of m p s i] cstr_end [of m p s] by (cases "i = length s") auto

lemma char_at_nul_iff: "NUL \<notin> set s \<Longrightarrow> char_at s i = NUL \<longleftrightarrow> length s \<le> i"
  by (auto simp: char_at_def dest: nth_mem)

lemma cstr_Cons: "cstr m p (c # s) \<longleftrightarrow> m p = c \<and> c \<noteq> NUL \<and> cstr m (Suc p) s"
proof
  assume c: "cstr m p (c # s)"
  then show "m p = c \<and> c \<noteq> NUL \<and> cstr m (Suc p) s"
    using cstr_nth [OF c, of 0] cstr_drop [OF c, of 1] by (auto simp: cstr_def)
next
  assume a: "m p = c \<and> c \<noteq> NUL \<and> cstr m (Suc p) s"
  then have "m (Suc p + i) = s ! i" if "i < length s" for i
    using that a cstr_nth [of m "Suc p" s i] by simp
  with a cstr_end [of m "Suc p" s] show "cstr m p (c # s)"
    by (intro cstrI) (auto simp: nth_Cons cstr_def split: nat.splits)
qed

lemma cstr_Nil [simp]: "cstr m p [] \<longleftrightarrow> m p = NUL"
  by (simp add: cstr_def bytes_def)

section \<open>Digits\<close>

function digits_rev :: "nat \<Rightarrow> nat \<Rightarrow> nat list" where
  "digits_rev b v = v mod b # (if b < 2 \<or> v div b = 0 then [] else digits_rev b (v div b))"
  by pat_completeness auto
termination
proof (relation "measure snd")
  fix b v :: nat
  assume "\<not> (b < 2 \<or> v div b = 0)"
  then have "1 < b" "0 < v" by (auto intro: gr0I)
  then show "((b, v div b), b, v) \<in> measure snd" by simp
qed simp

declare digits_rev.simps [simp del]

primrec digits_val :: "nat \<Rightarrow> nat list \<Rightarrow> nat" where
  "digits_val b [] = 0"
| "digits_val b (d # ds) = d + b * digits_val b ds"

lemma digits_val_rev: "2 \<le> b \<Longrightarrow> digits_val b (digits_rev b v) = v"
proof (induction b v rule: digits_rev.induct)
  case (1 b v)
  then have "v mod b + b * (v div b) = v" by (simp add: mult.commute)
  with 1 show ?case by (cases "v div b = 0") (simp_all add: digits_rev.simps [of b v])
qed

lemma digits_rev_nonempty [simp]: "digits_rev b v \<noteq> []"
  by (subst digits_rev.simps) simp

lemma digits_rev_less: "0 < b \<Longrightarrow> d \<in> set (digits_rev b v) \<Longrightarrow> d < b"
proof (induction b v rule: digits_rev.induct)
  case (1 b v)
  then show ?case by (auto simp: digits_rev.simps [of b v] split: if_splits)
qed

lemma length_digits_rev: "2 \<le> b \<Longrightarrow> v < b ^ n \<Longrightarrow> 0 < n \<Longrightarrow> length (digits_rev b v) \<le> n"
proof (induction b v arbitrary: n rule: digits_rev.induct)
  case (1 b v)
  show ?case
  proof (cases "v div b = 0")
    case True
    with 1 show ?thesis by (simp add: digits_rev.simps [of b v])
  next
    case False
    then have "n \<noteq> 1" using 1 by auto
    then have "1 < n" using 1 by simp
    then obtain k where k: "n = Suc k" "0 < k" by (cases n) auto
    have "v div b < b ^ k" using 1 k by (simp add: less_mult_imp_div_less mult.commute)
    with 1 False k show ?thesis by (simp add: digits_rev.simps [of b v])
  qed
qed

definition dec_char :: "nat \<Rightarrow> char" where
  "dec_char d = char_of (48 + d)"

definition dec_text :: "nat \<Rightarrow> string" where
  "dec_text v = rev (map dec_char (digits_rev 10 v))"

lemma length_dec_text: "v < 10 ^ n \<Longrightarrow> 0 < n \<Longrightarrow> length (dec_text v) \<le> n"
  by (simp add: dec_text_def length_digits_rev)

end
