(* ===== verification/CString.thy ===== *)
theory CString
  imports Prelude "HOL-Library.Sublist"
begin

text \<open>
  The string and memory routines of \<open>lib/moqi_libc/src/string.c\<close> and
  \<open>lib/moqi_libc/src/strfunc.c\<close>, over a byte store. A routine takes the store and its pointer
  arguments (addresses) and returns what it returns in C, with the new store when it writes. A
  \<open>for (i = 0; i < n; i++)\<close> loop is a fold or a search over the indices \<open>[0..<n]\<close>; a loop that
  runs until a NUL byte is found returns an option (\<open>None\<close>: it never returns). A pointer result is
  an option too, \<open>None\<close> for NULL. The routines that allocate (strdup, strndup) are in the theory of
  their provider's clients.

  The second half relates them to plain string functions: the reference order \<open>str_cmp\<close>, first
  occurrence, prefix counts and tokens.
\<close>

section \<open>string.c\<close>

definition copy_up :: "nat \<Rightarrow> nat \<Rightarrow> nat \<Rightarrow> mem \<Rightarrow> mem" where
  "copy_up d s n m = fold (\<lambda>i m. m(d + i := m (s + i))) [0..<n] m"

definition copy_down :: "nat \<Rightarrow> nat \<Rightarrow> nat \<Rightarrow> mem \<Rightarrow> mem" where
  "copy_down d s n m = fold (\<lambda>i m. m(d + i := m (s + i))) (rev [0..<n]) m"

definition memcpy :: "mem \<Rightarrow> nat \<Rightarrow> nat \<Rightarrow> nat \<Rightarrow> nat \<times> mem" where
  "memcpy m dst src n = (dst, copy_up dst src n m)"

definition memmove :: "mem \<Rightarrow> nat \<Rightarrow> nat \<Rightarrow> nat \<Rightarrow> nat \<times> mem" where
  "memmove m dst src n =
     (if dst = src then (dst, m)
      else if dst < src then (dst, copy_up dst src n m)
      else (dst, copy_down dst src n m))"

definition memset :: "mem \<Rightarrow> nat \<Rightarrow> int \<Rightarrow> nat \<Rightarrow> nat \<times> mem" where
  "memset m dst c n = (dst, fold (\<lambda>i m. m(dst + i := char_of c)) [0..<n] m)"

definition memcmp :: "mem \<Rightarrow> nat \<Rightarrow> nat \<Rightarrow> nat \<Rightarrow> int" where
  "memcmp m a b n =
     (case List.find (\<lambda>i. m (a + i) \<noteq> m (b + i)) [0..<n] of
        Some i \<Rightarrow> ub (m (a + i)) - ub (m (b + i))
      | None \<Rightarrow> 0)"

definition strlen :: "mem \<Rightarrow> nat \<Rightarrow> nat option" where
  "strlen m s = scan_while (\<lambda>n. m (s + n) \<noteq> NUL) 0"

definition strcmp :: "mem \<Rightarrow> nat \<Rightarrow> nat \<Rightarrow> int option" where
  "strcmp m a b =
     map_option (\<lambda>i. ub (m (a + i)) - ub (m (b + i)))
       (scan_while (\<lambda>i. m (a + i) \<noteq> NUL \<and> m (a + i) = m (b + i)) 0)"

definition strncmp :: "mem \<Rightarrow> nat \<Rightarrow> nat \<Rightarrow> nat \<Rightarrow> int" where
  "strncmp m a b n =
     (case List.find (\<lambda>i. m (a + i) \<noteq> m (b + i) \<or> m (a + i) = NUL) [0..<n] of
        Some i \<Rightarrow> (if m (a + i) \<noteq> m (b + i) then ub (m (a + i)) - ub (m (b + i)) else 0)
      | None \<Rightarrow> 0)"

text \<open>\<open>while ((*d = *s) != 0) { d++; s++; }\<close>: the address of the final NUL and the store.\<close>

partial_function (option) copy_str :: "mem \<Rightarrow> nat \<Rightarrow> nat \<Rightarrow> (nat \<times> mem) option" where
  "copy_str m d s =
     (if m s = NUL then Some (d, m(d := m s)) else copy_str (m(d := m s)) (Suc d) (Suc s))"

declare copy_str.simps [code]

definition strcpy :: "mem \<Rightarrow> nat \<Rightarrow> nat \<Rightarrow> (nat \<times> mem) option" where
  "strcpy m dst src = map_option (\<lambda>(d, m'). (dst, m')) (copy_str m dst src)"

text \<open>\<open>for (; i < n && src[i]; i++) dst[i] = src[i];\<close>\<close>

function copy_str_n :: "nat \<Rightarrow> nat \<Rightarrow> nat \<Rightarrow> nat \<Rightarrow> mem \<Rightarrow> nat \<times> mem" where
  "copy_str_n d s n i m =
     (if i < n \<and> m (s + i) \<noteq> NUL then copy_str_n d s n (Suc i) (m(d + i := m (s + i))) else (i, m))"
  by pat_completeness auto
termination
  by (relation "measure (\<lambda>(d, s, n, i, m). n - i)") auto

declare copy_str_n.simps [simp del]

definition strncpy :: "mem \<Rightarrow> nat \<Rightarrow> nat \<Rightarrow> nat \<Rightarrow> nat \<times> mem" where
  "strncpy m dst src n =
     (let (i, m') = copy_str_n dst src n 0 m
      in (dst, fold (\<lambda>j m. m(dst + j := NUL)) [i..<n] m'))"

definition strcat :: "mem \<Rightarrow> nat \<Rightarrow> nat \<Rightarrow> (nat \<times> mem) option" where
  "strcat m dst src =
     (case strlen m dst of
        None \<Rightarrow> None
      | Some k \<Rightarrow> map_option (\<lambda>(d, m'). (dst, m')) (copy_str m (dst + k) src))"

definition strchr :: "mem \<Rightarrow> nat \<Rightarrow> int \<Rightarrow> nat option option" where
  "strchr m s c =
     map_option (\<lambda>i. if m (s + i) = char_of c then Some (s + i) else None)
       (scan_while (\<lambda>i. m (s + i) \<noteq> char_of c \<and> m (s + i) \<noteq> NUL) 0)"

partial_function (option) strrchr_loop :: "mem \<Rightarrow> char \<Rightarrow> nat \<Rightarrow> nat option \<Rightarrow> nat option option" where
  "strrchr_loop m c s lst =
     (let lst' = (if m s = c then Some s else lst)
      in if m s = NUL then Some lst' else strrchr_loop m c (Suc s) lst')"

declare strrchr_loop.simps [code]

definition strrchr :: "mem \<Rightarrow> nat \<Rightarrow> int \<Rightarrow> nat option option" where
  "strrchr m s c = strrchr_loop m (char_of c) s None"

section \<open>strfunc.c\<close>

definition strncat :: "mem \<Rightarrow> nat \<Rightarrow> nat \<Rightarrow> nat \<Rightarrow> (nat \<times> mem) option" where
  "strncat m dst src n =
     (case scan_while (\<lambda>k. m (dst + k) \<noteq> NUL) 0 of
        None \<Rightarrow> None
      | Some k \<Rightarrow> (let (i, m') = copy_str_n (dst + k) src n 0 m in Some (dst, m'(dst + k + i := NUL))))"

definition stpcpy :: "mem \<Rightarrow> nat \<Rightarrow> nat \<Rightarrow> (nat \<times> mem) option" where
  "stpcpy m dst src = copy_str m dst src"

definition strnlen :: "mem \<Rightarrow> nat \<Rightarrow> nat \<Rightarrow> nat" where
  "strnlen m s n = count_upto (\<lambda>i. m (s + i) \<noteq> NUL) n"

text \<open>The search loop of strstr and strcasestr, which differ in how two bytes are compared.\<close>

partial_function (option) search_from ::
    "(char \<Rightarrow> char \<Rightarrow> bool) \<Rightarrow> mem \<Rightarrow> nat \<Rightarrow> nat \<Rightarrow> nat option option" where
  "search_from eq m h needle =
     (if m h = NUL then Some None
      else case scan_while (\<lambda>k. m (needle + k) \<noteq> NUL \<and> eq (m (h + k)) (m (needle + k))) 0 of
          None \<Rightarrow> None
        | Some k \<Rightarrow> if m (needle + k) = NUL then Some (Some h) else search_from eq m (Suc h) needle)"

declare search_from.simps [code]

definition strstr :: "mem \<Rightarrow> nat \<Rightarrow> nat \<Rightarrow> nat option option" where
  "strstr m haystack needle =
     (if m needle = NUL then Some (Some haystack) else search_from (=) m haystack needle)"

definition memchr :: "mem \<Rightarrow> nat \<Rightarrow> int \<Rightarrow> nat \<Rightarrow> nat option" where
  "memchr m s c n = map_option (\<lambda>i. s + i) (List.find (\<lambda>i. m (s + i) = char_of c) [0..<n])"

definition memrchr :: "mem \<Rightarrow> nat \<Rightarrow> int \<Rightarrow> nat \<Rightarrow> nat option" where
  "memrchr m s c n = map_option (\<lambda>i. s + i) (List.find (\<lambda>i. m (s + i) = char_of c) (rev [0..<n]))"

definition in_set :: "mem \<Rightarrow> char \<Rightarrow> nat \<Rightarrow> bool option" where
  "in_set m c st =
     map_option (\<lambda>i. m (st + i) \<noteq> NUL) (scan_while (\<lambda>i. m (st + i) \<noteq> NUL \<and> m (st + i) \<noteq> c) 0)"

partial_function (option) span_loop :: "bool \<Rightarrow> mem \<Rightarrow> nat \<Rightarrow> nat \<Rightarrow> nat \<Rightarrow> nat option" where
  "span_loop want m s st n =
     (if m (s + n) = NUL then Some n
      else case in_set m (m (s + n)) st of
          None \<Rightarrow> None
        | Some b \<Rightarrow> if b = want then span_loop want m s st (Suc n) else Some n)"

declare span_loop.simps [code]

definition strspn :: "mem \<Rightarrow> nat \<Rightarrow> nat \<Rightarrow> nat option" where
  "strspn m s accept = span_loop True m s accept 0"

definition strcspn :: "mem \<Rightarrow> nat \<Rightarrow> nat \<Rightarrow> nat option" where
  "strcspn m s reject = span_loop False m s reject 0"

definition strpbrk :: "mem \<Rightarrow> nat \<Rightarrow> nat \<Rightarrow> nat option option" where
  "strpbrk m s accept =
     map_option (\<lambda>n. if m (s + n) \<noteq> NUL then Some (s + n) else None) (strcspn m s accept)"

definition lower :: "int \<Rightarrow> int" where
  "lower c = (if ub CHR ''A'' \<le> c \<and> c \<le> ub CHR ''Z'' then c + (ub CHR ''a'' - ub CHR ''A'') else c)"

definition strcasecmp :: "mem \<Rightarrow> nat \<Rightarrow> nat \<Rightarrow> int option" where
  "strcasecmp m a b =
     map_option (\<lambda>i. lower (ub (m (a + i))) - lower (ub (m (b + i))))
       (scan_while (\<lambda>i. m (a + i) \<noteq> NUL \<and> lower (ub (m (a + i))) = lower (ub (m (b + i)))) 0)"

definition strncasecmp :: "mem \<Rightarrow> nat \<Rightarrow> nat \<Rightarrow> nat \<Rightarrow> int" where
  "strncasecmp m a b n =
     (case List.find (\<lambda>i. lower (ub (m (a + i))) \<noteq> lower (ub (m (b + i))) \<or> lower (ub (m (a + i))) = 0)
             [0..<n] of
        Some i \<Rightarrow> (let x = lower (ub (m (a + i))); y = lower (ub (m (b + i)))
                    in if x \<noteq> y then x - y else 0)
      | None \<Rightarrow> 0)"

text \<open>strtok_r: the token (NULL when there is none), the new save pointer and the store. The first
  argument is NULL (\<open>None\<close>) to continue from the save pointer.\<close>

definition strtok_r :: "mem \<Rightarrow> nat option \<Rightarrow> nat \<Rightarrow> nat \<Rightarrow> (nat option \<times> nat \<times> mem) option" where
  "strtok_r m s delim save =
     (let s0 = (case s of Some p \<Rightarrow> p | None \<Rightarrow> save) in
      case strspn m s0 delim of
        None \<Rightarrow> None
      | Some k \<Rightarrow>
          (let token = s0 + k in
           if m token = NUL then Some (None, token, m)
           else case strcspn m token delim of
               None \<Rightarrow> None
             | Some j \<Rightarrow>
                 (let e = token + j in
                  if m e \<noteq> NUL then Some (Some token, Suc e, m(e := NUL))
                  else Some (Some token, e, m))))"

definition strtok :: "mem \<Rightarrow> nat option \<Rightarrow> nat \<Rightarrow> nat \<Rightarrow> (nat option \<times> nat \<times> mem) option" where
  "strtok m s delim strtok_state = strtok_r m s delim strtok_state"

definition memmem :: "mem \<Rightarrow> nat \<Rightarrow> nat \<Rightarrow> nat \<Rightarrow> nat \<Rightarrow> nat option" where
  "memmem m haystack haystack_len needle needle_len =
     (if needle_len = 0 then Some haystack
      else if needle_len > haystack_len then None
      else map_option (\<lambda>i. haystack + i)
        (List.find
          (\<lambda>i. count_upto (\<lambda>k. m (haystack + i + k) = m (needle + k)) needle_len = needle_len)
          [0..<haystack_len - needle_len + 1]))"

definition strcasestr :: "mem \<Rightarrow> nat \<Rightarrow> nat \<Rightarrow> nat option option" where
  "strcasestr m haystack needle =
     (if m needle = NUL then Some (Some haystack)
      else search_from (\<lambda>a b. lower (ub a) = lower (ub b)) m haystack needle)"

text \<open>strerror and strsignal return a table entry, or format the number into a static buffer. Both
  print the magnitude with the digit loop; the magnitude of a negative number is computed unsigned.\<close>

definition error_text :: "string option list" where
  "error_text = [
    Some ''Success'', Some ''Operation not permitted'', Some ''No such file or directory'',
    Some ''No such process'', Some ''Interrupted system call'', Some ''Input/output error'',
    Some ''No such device or address'', Some ''Argument list too long'',
    Some ''Exec format error'', Some ''Bad file descriptor'', Some ''No child processes'',
    Some ''Resource temporarily unavailable'', Some ''Cannot allocate memory'',
    Some ''Permission denied'', Some ''Bad address'', Some ''Block device required'',
    Some ''Device or resource busy'', Some ''File exists'', Some ''Invalid cross-device link'',
    Some ''No such device'', Some ''Not a directory'', Some ''Is a directory'',
    Some ''Invalid argument'', Some ''Too many open files in system'',
    Some ''Too many open files'', Some ''Inappropriate ioctl for device'', Some ''Text file busy'',
    Some ''File too large'', Some ''No space left on device'', Some ''Illegal seek'',
    Some ''Read-only file system'', Some ''Too many links'', Some ''Broken pipe'',
    Some ''Numerical argument out of domain'', Some ''Numerical result out of range'',
    Some ''Resource deadlock avoided'', Some ''File name too long'', Some ''No locks available'',
    Some ''Function not implemented'', Some ''Directory not empty'',
    Some ''Too many levels of symbolic links'', None, Some ''No message of desired type'',
    Some ''Identifier removed'', Some ''Channel number out of range'',
    Some ''Level 2 not synchronized'', Some ''Level 3 halted'', Some ''Level 3 reset'',
    Some ''Link number out of range'', Some ''Protocol driver not attached'',
    Some ''No CSI structure available'', Some ''Level 2 halted'', Some ''Invalid exchange'',
    Some ''Invalid request descriptor'', Some ''Exchange full'', Some ''No anode'',
    Some ''Invalid request code'', Some ''Invalid slot'', None, Some ''Bad font file format'',
    Some ''Device not a stream'', Some ''No data available'', Some ''Timer expired'',
    Some ''Out of streams resources'', Some ''Machine is not on the network'',
    Some ''Package not installed'', Some ''Object is remote'', Some ''Link has been severed'',
    Some ''Advertise error'', Some ''Srmount error'', Some ''Communication error on send'',
    Some ''Protocol error'', Some ''Multihop attempted'', Some ''RFS specific error'',
    Some ''Bad message'', Some ''Value too large for defined data type'',
    Some ''Name not unique on network'', Some ''File descriptor in bad state'',
    Some ''Remote address changed'', Some ''Can not access a needed shared library'',
    Some ''Accessing a corrupted shared library'', Some ''.lib section in a.out corrupted'',
    Some ''Attempting to link in too many shared libraries'',
    Some ''Cannot exec a shared library directly'',
    Some ''Invalid or incomplete multibyte or wide character'',
    Some ''Interrupted system call should be restarted'', Some ''Streams pipe error'',
    Some ''Too many users'', Some ''Socket operation on non-socket'',
    Some ''Destination address required'', Some ''Message too long'',
    Some ''Protocol wrong type for socket'', Some ''Protocol not available'',
    Some ''Protocol not supported'', Some ''Socket type not supported'',
    Some ''Operation not supported'', Some ''Protocol family not supported'',
    Some ''Address family not supported by protocol'', Some ''Address already in use'',
    Some ''Cannot assign requested address'', Some ''Network is down'',
    Some ''Network is unreachable'', Some ''Network dropped connection on reset'',
    Some ''Software caused connection abort'', Some ''Connection reset by peer'',
    Some ''No buffer space available'', Some ''Transport endpoint is already connected'',
    Some ''Transport endpoint is not connected'',
    Some ''Cannot send after transport endpoint shutdown'',
    Some ''Too many references: cannot splice'', Some ''Connection timed out'',
    Some ''Connection refused'', Some ''Host is down'', Some ''No route to host'',
    Some ''Operation already in progress'', Some ''Operation now in progress'',
    Some ''Stale file handle'', Some ''Structure needs cleaning'',
    Some ''Not a XENIX named type file'', Some ''No XENIX semaphores available'',
    Some ''Is a named type file'', Some ''Remote I/O error'', Some ''Disk quota exceeded'',
    Some ''No medium found'', Some ''Wrong medium type'', Some ''Operation canceled'',
    Some ''Required key not available'', Some ''Key has expired'', Some ''Key has been revoked'',
    Some ''Key was rejected by service'', Some ''Owner died'', Some ''State not recoverable'',
    Some ''Operation not possible due to RF-kill'', Some ''Memory page has hardware error'',
    Some ''Inappropriate file type or format'', None]"

definition strerror :: "int \<Rightarrow> string" where
  "strerror errnum =
     (case (if 0 \<le> errnum \<and> errnum < 136 then error_text ! nat errnum else None) of
        Some text \<Rightarrow> text
      | None \<Rightarrow>
          (let v = (if errnum < 0 then to_u32 (0 - to_u32 errnum) else to_u32 errnum)
           in ''Unknown error '' @ (if errnum < 0 then ''-'' else []) @ dec_text (nat v)))"

definition signal_text :: "string option list" where
  "signal_text = [
    None, Some ''Hangup'', Some ''Interrupt'', Some ''Quit'', Some ''Illegal instruction'',
    Some ''Trace/breakpoint trap'', Some ''Aborted'', Some ''Bus error'',
    Some ''Floating point exception'', Some ''Killed'', Some ''User defined signal 1'',
    Some ''Segmentation fault'', Some ''User defined signal 2'', Some ''Broken pipe'',
    Some ''Alarm clock'', Some ''Terminated'', Some ''Stack fault'', Some ''Child exited'',
    Some ''Continued'', Some ''Stopped (signal)'', Some ''Stopped'', Some ''Stopped (tty input)'',
    Some ''Stopped (tty output)'', Some ''Urgent I/O condition'', Some ''CPU time limit exceeded'',
    Some ''File size limit exceeded'', Some ''Virtual timer expired'',
    Some ''Profiling timer expired'', Some ''Window changed'', Some ''I/O possible'',
    Some ''Power failure'', Some ''Bad system call'']"

definition strsignal :: "int \<Rightarrow> string" where
  "strsignal sig =
     (case (if 0 \<le> sig \<and> sig < 32 then signal_text ! nat sig else None) of
        Some text \<Rightarrow> text
      | None \<Rightarrow>
          (let (pre, val) = (if 34 \<le> sig \<and> sig \<le> 64 then (''Real-time signal '', sig - 34)
                               else (''Unknown signal '', sig));
               v = (if val < 0 then to_u64 (0 - to_u64 val) else to_u64 val)
           in pre @ (if val < 0 then ''-'' else []) @ dec_text (nat v)))"

section \<open>Copying\<close>

lemma copy_up_Suc: "copy_up d s (Suc n) m = (copy_up d s n m)(d + n := copy_up d s n m (s + n))"
  by (simp add: copy_up_def)

lemma copy_down_Suc: "copy_down d s (Suc n) m = copy_down d s n (m(d + n := m (s + n)))"
  by (simp add: copy_down_def)

lemma copy_0 [simp]: "copy_up d s 0 m = m" "copy_down d s 0 m = m"
  by (simp_all add: copy_up_def copy_down_def)

lemma copy_up_at [mem_simps]:
  "d \<le> s \<or> s + n \<le> d \<Longrightarrow>
     copy_up d s n m a = (if d \<le> a \<and> a < d + n then m (s + (a - d)) else m a)"
proof (induction n arbitrary: a)
  case (Suc n)
  then have "copy_up d s n m (s + n) = m (s + n)" by auto
  with Suc show ?case by (auto simp: copy_up_Suc less_Suc_eq)
qed auto

lemma copy_down_at [mem_simps]:
  "s \<le> d \<Longrightarrow> copy_down d s n m a = (if d \<le> a \<and> a < d + n then m (s + (a - d)) else m a)"
  by (induction n arbitrary: m) (auto simp: copy_down_Suc less_Suc_eq)

lemma fill_at [mem_simps]:
  "fold (\<lambda>i m. m(d + i := c)) [j..<n] m a = (if d + j \<le> a \<and> a < d + n then c else m a)"
  by (induction n) (auto simp: less_Suc_eq)

lemma copy_str_cstr:
  assumes "cstr m s t" and "d \<le> s \<or> s + length t < d"
  shows "copy_str m d s = Some (d + length t, store m d (t @ [NUL]))"
  using assms
proof (induction t arbitrary: m d s)
  case Nil
  then show ?case by (subst copy_str.simps) simp
next
  case (Cons c t)
  have c: "m s = c" "c \<noteq> NUL" and t: "cstr m (Suc s) t" using Cons.prems(1) by (auto simp: cstr_Cons)
  from t Cons.prems(2) have "cstr (m(d := c)) (Suc s) t"
    using cstr_store_other [of m "Suc s" t d "[c]"] by auto
  then have "copy_str (m(d := c)) (Suc d) (Suc s)
      = Some (Suc d + length t, store (m(d := c)) (Suc d) (t @ [NUL]))"
    by (rule Cons.IH) (use Cons.prems(2) in auto)
  with c show ?case by (subst copy_str.simps) simp
qed

lemma copy_str_n_cstr:
  assumes "cstr m (s + i) t" and "d \<le> s \<or> s + i + length t < d" and "i \<le> n"
  shows "copy_str_n d s n i m = (i + min (n - i) (length t), store m (d + i) (take (n - i) t))"
  using assms
proof (induction t arbitrary: m i)
  case Nil
  then show ?case by (subst copy_str_n.simps) simp
next
  case (Cons c t)
  have c: "m (s + i) = c" "c \<noteq> NUL" and t: "cstr m (Suc (s + i)) t"
    using Cons.prems(1) by (auto simp: cstr_Cons)
  show ?case
  proof (cases "i < n")
    case True
    from t Cons.prems(2) have "cstr (m(d + i := c)) (s + Suc i) t"
      using cstr_store_other [of m "Suc (s + i)" t "d + i" "[c]"] by auto
    then have "copy_str_n d s n (Suc i) (m(d + i := c))
        = (Suc i + min (n - Suc i) (length t), store (m(d + i := c)) (d + Suc i) (take (n - Suc i) t))"
      by (rule Cons.IH) (use Cons.prems(2) True in auto)
    moreover have "take (n - i) (c # t) = c # take (n - Suc i) t"
      using True by (simp add: take_Cons')
    ultimately show ?thesis using c True by (subst copy_str_n.simps) auto
  next
    case False
    then show ?thesis using Cons.prems by (subst copy_str_n.simps) simp
  qed
qed

section \<open>Comparing\<close>

text \<open>The order strcmp computes, on string values: the difference of the first two bytes that
  differ, the terminator counting as 0.\<close>

fun str_cmp :: "string \<Rightarrow> string \<Rightarrow> int" where
  "str_cmp [] [] = 0"
| "str_cmp [] (y # ys) = - ub y"
| "str_cmp (x # xs) [] = ub x"
| "str_cmp (x # xs) (y # ys) = (if x = y then str_cmp xs ys else ub x - ub y)"

lemma ub_NUL [simp]: "ub NUL = 0"
  by (simp add: ub_def)

lemma ub_eq_0_iff [simp]: "ub c = 0 \<longleftrightarrow> c = NUL"
  using ub_inj [of c NUL] by simp

lemma ub_pos: "c \<noteq> NUL \<Longrightarrow> 0 < ub c"
  using ub_range(1) [of c] ub_eq_0_iff [of c] by linarith

lemma ub_pos_iff [simp]: "0 < ub c \<longleftrightarrow> c \<noteq> NUL"
  using ub_pos by force

lemma ub_le_0_iff [simp]: "ub c \<le> 0 \<longleftrightarrow> c = NUL"
  using ub_pos_iff [of c] by linarith

lemma ub_not_neg [simp]: "\<not> ub c < 0"
  using ub_range(1) [of c] by linarith

lemma lower_eq: "lower c = (if 65 \<le> c \<and> c \<le> 90 then c + 32 else c)"
proof -
  have "ub CHR ''A'' = 65" "ub CHR ''Z'' = 90" "ub CHR ''a'' = 97" by (simp_all add: ub_def)
  then show ?thesis by (simp add: lower_def)
qed

lemma lower_ub_eq_0_iff: "lower (ub c) = 0 \<longleftrightarrow> c = NUL"
  using ub_eq_0_iff [of c] unfolding lower_eq by (auto simp del: ub_eq_0_iff)

lemma str_cmp_at:
  assumes "take k s = take k t" "k \<le> length s" "k \<le> length t"
    and "char_at s k \<noteq> char_at t k \<or> char_at s k = NUL" and "NUL \<notin> set s" "NUL \<notin> set t"
  shows "str_cmp s t = ub (char_at s k) - ub (char_at t k)"
  using assms
proof (induction k arbitrary: s t)
  case 0
  then show ?case by (cases s; cases t) auto
next
  case (Suc k)
  then show ?case by (cases s; cases t) auto
qed

lemma str_cmp_eq_0_iff: "NUL \<notin> set s \<Longrightarrow> NUL \<notin> set t \<Longrightarrow> str_cmp s t = 0 \<longleftrightarrow> s = t"
  by (induction s t rule: str_cmp.induct) (auto simp: ub_inj)

lemma str_cmp_antisym: "str_cmp t s = - str_cmp s t"
  by (induction s t rule: str_cmp.induct) auto

lemma str_cmp_trans:
  assumes "str_cmp s t \<le> 0" "str_cmp t u \<le> 0" "NUL \<notin> set s" "NUL \<notin> set t" "NUL \<notin> set u"
  shows "str_cmp s u \<le> 0"
  using assms
proof (induction s u arbitrary: t rule: str_cmp.induct)
  case (3 x xs)
  then show ?case by (cases t) (auto dest: ub_pos split: if_splits)
next
  case (4 x xs y ys)
  then obtain z zs where t: "t = z # zs"
    using ub_pos [of x] by (cases t) auto
  show ?case
  proof (cases "x = y")
    case True
    with 4 t show ?thesis by (cases "x = z") (auto intro: "4.IH")
  next
    case False
    with 4 t show ?thesis by (cases "x = z"; cases "z = y") auto
  qed
qed auto

lemma strlen_cstr: "cstr m p s \<Longrightarrow> strlen m p = Some (length s)"
  unfolding strlen_def by (rule scan_while_stops) (auto simp: cstr_end dest: cstr_not_nul)

lemma strnlen_cstr: "cstr m p s \<Longrightarrow> strnlen m p n = min n (length s)"
  unfolding strnlen_def
  by (rule count_upto_eqI) (auto simp: min_def cstr_end cstr_nul_iff split: if_splits)

lemma common_prefix_cstr:
  assumes s: "cstr m a s" and t: "cstr m b t"
    and P: "\<And>j. j < n \<Longrightarrow> m (a + j) \<noteq> NUL \<and> m (a + j) = m (b + j)"
  shows "n \<le> length s" "n \<le> length t" "take n s = take n t"
proof -
  show ns: "n \<le> length s" using P [of "length s"] cstr_end [OF s] by (meson not_le)
  show nt: "n \<le> length t" using P [of "length t"] cstr_end [OF t] by (metis not_le)
  show "take n s = take n t"
    using ns nt P s t by (intro nth_take_lemma) (auto simp: cstr_nth)
qed

lemma strcmp_cstr:
  assumes s: "cstr m a s" and t: "cstr m b t"
  shows "strcmp m a b = Some (str_cmp s t)"
proof -
  let ?P = "\<lambda>i. m (a + i) \<noteq> NUL \<and> m (a + i) = m (b + i)"
  obtain n where n: "scan_while ?P 0 = Some n" "\<not> ?P n" "\<And>j. j < n \<Longrightarrow> ?P j"
    using scan_while_Least [of ?P "length s"] cstr_end [OF s] by auto
  note pre = common_prefix_cstr [OF s t n(3)]
  have "str_cmp s t = ub (char_at s n) - ub (char_at t n)"
    using n(2) pre s t by (intro str_cmp_at) (auto simp: cstr_at cstr_def)
  with n(1) pre s t show ?thesis by (simp add: strcmp_def cstr_at)
qed

lemma find_upt_cases:
  obtains (none) "List.find P [0..<n] = None" "\<And>j. j < n \<Longrightarrow> \<not> P j"
  | (found) k where "List.find P [0..<n] = Some k" "k < n" "P k" "\<And>j. j < k \<Longrightarrow> \<not> P j"
proof (cases "List.find P [0..<n]")
  case None
  then show thesis using none by (auto simp: find_None_iff)
next
  case (Some k)
  then obtain i where "i < n" "P i" "k = i" "\<forall>j<i. \<not> P j" by (auto simp: find_Some_iff)
  then show thesis using found Some by blast
qed

lemma strncmp_cstr:
  assumes s: "cstr m a s" and t: "cstr m b t"
  shows "strncmp m a b n = str_cmp (take n s) (take n t)"
proof (rule find_upt_cases [of "\<lambda>i. m (a + i) \<noteq> m (b + i) \<or> m (a + i) = NUL" n])
  assume none: "List.find (\<lambda>i. m (a + i) \<noteq> m (b + i) \<or> m (a + i) = NUL) [0..<n] = None"
    and all: "\<And>j. j < n \<Longrightarrow> \<not> (m (a + j) \<noteq> m (b + j) \<or> m (a + j) = NUL)"
  have "take n s = take n t" using all by (intro common_prefix_cstr [OF s t]) auto
  moreover have "NUL \<notin> set (take n t)" using t by (auto simp: cstr_def dest: in_set_takeD)
  ultimately have "str_cmp (take n s) (take n t) = 0" by (simp add: str_cmp_eq_0_iff)
  with none show ?thesis by (simp add: strncmp_def)
next
  fix k assume k: "List.find (\<lambda>i. m (a + i) \<noteq> m (b + i) \<or> m (a + i) = NUL) [0..<n] = Some k"
    "k < n" "m (a + k) \<noteq> m (b + k) \<or> m (a + k) = NUL"
    and before: "\<And>j. j < k \<Longrightarrow> \<not> (m (a + j) \<noteq> m (b + j) \<or> m (a + j) = NUL)"
  have pre: "k \<le> length s" "k \<le> length t" "take k s = take k t"
    using before by (auto intro: common_prefix_cstr [OF s t])
  have at: "char_at (take n s) k = m (a + k)" "char_at (take n t) k = m (b + k)"
    using k pre s t by (auto simp: cstr_at char_at_def)
  have "str_cmp (take n s) (take n t) = ub (m (a + k)) - ub (m (b + k))"
    unfolding at [symmetric] using k pre s t at
    by (intro str_cmp_at) (auto simp: min_def cstr_def dest: in_set_takeD)
  with k show ?thesis by (auto simp: strncmp_def)
qed

section \<open>Searching\<close>

text \<open>\<open>matches eq t s\<close>: the string \<open>t\<close> matches at the start of \<open>s\<close> byte by byte.\<close>

definition matches :: "(char \<Rightarrow> char \<Rightarrow> bool) \<Rightarrow> string \<Rightarrow> string \<Rightarrow> bool" where
  "matches eq t s \<longleftrightarrow> length t \<le> length s \<and> (\<forall>k < length t. eq (s ! k) (t ! k))"

lemma matches_eq_prefix: "matches (=) t s \<longleftrightarrow> prefix t s"
  by (auto simp: matches_def prefix_def intro: nth_equalityI dest: prefix_length_le
      intro!: exI [of _ "drop (length t) s"] simp: nth_append)

lemma scan_matches:
  assumes s: "cstr m h s" and t: "cstr m nd t" and eq: "\<And>c. eq NUL c \<Longrightarrow> c = NUL"
  obtains k where "scan_while (\<lambda>k. m (nd + k) \<noteq> NUL \<and> eq (m (h + k)) (m (nd + k))) 0 = Some k"
    and "m (nd + k) = NUL \<longleftrightarrow> matches eq t s"
proof -
  let ?P = "\<lambda>k. m (nd + k) \<noteq> NUL \<and> eq (m (h + k)) (m (nd + k))"
  obtain k where k: "k \<le> length t" "scan_while ?P 0 = Some k" "\<not> ?P k" "\<And>j. j < k \<Longrightarrow> ?P j"
    using scan_while_Least [of ?P "length t"] cstr_end [OF t] by auto
  have ks: "k \<le> length s"
    using k(4) [of "length s"] cstr_end [OF s] eq by (metis not_le)
  have "m (nd + k) = NUL \<longleftrightarrow> k = length t" using cstr_nul_iff [OF t k(1)] .
  moreover have "k = length t \<longleftrightarrow> matches eq t s"
  proof
    assume "k = length t"
    then show "matches eq t s" using k(4) ks s t by (auto simp: matches_def cstr_nth)
  next
    assume "matches eq t s"
    then show "k = length t" using k(1,3) s t cstr_not_nul [OF t]
      by (cases "k < length t") (auto simp: matches_def cstr_nth)
  qed
  ultimately show thesis using that k(2) by blast
qed

lemma find_map_comp: "List.find P (map f xs) = map_option f (List.find (P \<circ> f) xs)"
  by (induction xs) auto

lemma find_upt_Suc: "List.find P [0..<Suc n] = (if P 0 then Some 0 else map_option Suc (List.find (P \<circ> Suc) [0..<n]))"
proof -
  have "[0..<Suc n] = 0 # map Suc [0..<n]" by (simp add: map_Suc_upt upt_conv_Cons del: upt_Suc)
  then show ?thesis
    by (simp add: find_map_comp del: upt_Suc)
qed

lemma find_upt_snoc: "\<not> P n \<Longrightarrow> List.find P [0..<Suc n] = List.find P [0..<n]"
proof -
  assume n: "\<not> P n"
  have "List.find P (xs @ [n]) = List.find P xs" for xs using n by (induction xs) auto
  then show ?thesis by simp
qed

lemma search_from_cstr:
  assumes "cstr m h s" and t: "cstr m nd t" "t \<noteq> []" and eq: "\<And>c. eq NUL c \<Longrightarrow> c = NUL"
  shows "search_from eq m h nd
    = Some (map_option ((+) h) (List.find (\<lambda>i. matches eq t (drop i s)) [0..<length s]))"
  using assms(1)
proof (induction s arbitrary: h)
  case Nil
  then show ?case by (subst search_from.simps) simp
next
  case (Cons c s)
  obtain k where k: "scan_while (\<lambda>k. m (nd + k) \<noteq> NUL \<and> eq (m (h + k)) (m (nd + k))) 0 = Some k"
    "m (nd + k) = NUL \<longleftrightarrow> matches eq t (c # s)"
    using scan_matches [OF Cons.prems t(1) eq] .
  have "m h \<noteq> NUL" "cstr m (Suc h) s" using Cons.prems by (auto simp: cstr_Cons)
  with k Cons.IH [of "Suc h"] show ?case
    by (subst search_from.simps)
      (auto simp: find_upt_Suc comp_def option.map_comp simp del: upt_Suc intro!: option.map_cong)
qed

section \<open>Spans and tokens\<close>

lemma in_set_cstr:
  assumes d: "cstr m d ds" and c: "c \<noteq> NUL"
  shows "in_set m c d = Some (c \<in> set ds)"
proof -
  let ?P = "\<lambda>i. m (d + i) \<noteq> NUL \<and> m (d + i) \<noteq> c"
  obtain k where k: "k \<le> length ds" "scan_while ?P 0 = Some k" "\<not> ?P k" "\<And>j. j < k \<Longrightarrow> ?P j"
    using scan_while_Least [of ?P "length ds"] cstr_end [OF d] by auto
  have "m (d + k) \<noteq> NUL \<longleftrightarrow> c \<in> set ds"
  proof
    assume "m (d + k) \<noteq> NUL"
    with k d have "k < length ds" "ds ! k = c" by (auto simp: cstr_nul_iff cstr_nth le_less)
    then show "c \<in> set ds" by auto
  next
    assume "c \<in> set ds"
    then obtain j where "j < length ds" "ds ! j = c" by (auto simp: in_set_conv_nth)
    with k(4) [of j] d have "k \<noteq> length ds" by (auto simp: cstr_nth)
    with k d c show "m (d + k) \<noteq> NUL" by (simp add: cstr_nul_iff)
  qed
  with k show ?thesis by (simp add: in_set_def)
qed

lemma span_loop_cstr:
  assumes "cstr m (s + n) t" and d: "cstr m d ds"
  shows "span_loop want m s d n = Some (n + length (takeWhile (\<lambda>c. (c \<in> set ds) = want) t))"
  using assms(1)
proof (induction t arbitrary: n)
  case Nil
  then show ?case by (subst span_loop.simps) simp
next
  case (Cons c t)
  then have "m (s + n) = c" "c \<noteq> NUL" "cstr m (s + Suc n) t" by (auto simp: cstr_Cons)
  with Cons.IH [of "Suc n"] d show ?case
    by (subst span_loop.simps) (auto simp: in_set_cstr)
qed

lemma strspn_cstr:
  "cstr m s t \<Longrightarrow> cstr m d ds \<Longrightarrow> strspn m s d = Some (length (takeWhile (\<lambda>c. c \<in> set ds) t))"
  using span_loop_cstr [of m s 0 t d ds True] by (simp add: strspn_def)

lemma strcspn_cstr:
  "cstr m s t \<Longrightarrow> cstr m d ds \<Longrightarrow> strcspn m s d = Some (length (takeWhile (\<lambda>c. c \<notin> set ds) t))"
  using span_loop_cstr [of m s 0 t d ds False] by (simp add: strcspn_def)

text \<open>The tokens of a string: its maximal runs of non-delimiters.\<close>

function tokens :: "char set \<Rightarrow> string \<Rightarrow> string list" where
  "tokens D s =
     (let r = dropWhile (\<lambda>c. c \<in> D) s
      in if r = [] then []
         else takeWhile (\<lambda>c. c \<notin> D) r # tokens D (drop 1 (dropWhile (\<lambda>c. c \<notin> D) r)))"
  by pat_completeness auto
termination
proof (relation "measure (length \<circ> snd)")
  fix D :: "char set" and s r
  assume r: "r = dropWhile (\<lambda>c. c \<in> D) s" "r \<noteq> []"
  then have "hd r \<notin> D" using hd_dropWhile by blast
  then have "length (drop 1 (dropWhile (\<lambda>c. c \<notin> D) r)) < length r"
    using r(2) length_dropWhile_le [of "\<lambda>c. c \<notin> D" r] by (cases r) auto
  moreover have "length r \<le> length s" unfolding r by (rule length_dropWhile_le)
  ultimately show "((D, drop 1 (dropWhile (\<lambda>c. c \<notin> D) r)), D, s) \<in> measure (length \<circ> snd)" by simp
qed simp

declare tokens.simps [simp del]

text \<open>Two strings that share no byte, terminators included.\<close>

definition apart :: "nat \<Rightarrow> string \<Rightarrow> nat \<Rightarrow> string \<Rightarrow> bool" where
  "apart p s q t \<longleftrightarrow> p + length s < q \<or> q + length t < p"

lemma cstr_cut:
  assumes "cstr m p s" and "j < length s"
  shows "cstr (m(p + j := NUL)) p (take j s)" and "cstr (m(p + j := NUL)) (p + Suc j) (drop (Suc j) s)"
proof -
  show "cstr (m(p + j := NUL)) p (take j s)"
    using assms by (intro cstrI) (auto simp: cstr_nth cstr_def dest: in_set_takeD)
  have "cstr m (p + Suc j) (drop (Suc j) s)" using assms by (intro cstr_drop) auto
  then show "cstr (m(p + j := NUL)) (p + Suc j) (drop (Suc j) s)"
    using cstr_store_other [of m "p + Suc j" "drop (Suc j) s" "p + j" "[NUL]"] by simp
qed

lemma strtok_r_cstr:
  assumes s: "cstr m p s" and d: "cstr m d ds" and away: "apart p s d ds"
    and arg: "arg = Some p \<or> arg = None \<and> save = p"
  shows "\<exists>tok save' m'. strtok_r m arg d save = Some (tok, save', m') \<and> cstr m' d ds \<and>
    (case tokens (set ds) s of
       [] \<Rightarrow> tok = None \<and> m' = m \<and> cstr m' save' []
     | t # ts \<Rightarrow> \<exists>q s'. tok = Some q \<and> cstr m' q t \<and> cstr m' save' s' \<and> tokens (set ds) s' = ts \<and>
                  apart save' s' d ds \<and> length s' < length s)"
proof -
  define k where "k = length (takeWhile (\<lambda>c. c \<in> set ds) s)"
  define r where "r = dropWhile (\<lambda>c. c \<in> set ds) s"
  define j where "j = length (takeWhile (\<lambda>c. c \<notin> set ds) r)"
  have ks: "k \<le> length s" unfolding k_def by (rule length_takeWhile_le)
  have r_drop: "r = drop k s" unfolding r_def k_def by (rule dropWhile_eq_drop)
  have r: "cstr m (p + k) r" unfolding r_drop using s ks by (rule cstr_drop)
  have j: "j \<le> length r" unfolding j_def by (rule length_takeWhile_le)
  have s0: "(case arg of None \<Rightarrow> save | Some p \<Rightarrow> p) = p" using arg by auto
  have span: "strspn m p d = Some k" unfolding k_def using s d by (rule strspn_cstr)
  have cspan: "strcspn m (p + k) d = Some j" unfolding j_def using r d by (rule strcspn_cstr)
  have toks: "tokens (set ds) s = (if r = [] then []
      else take j r # tokens (set ds) (drop (Suc j) r))"
    unfolding tokens.simps [of "set ds" s] Let_def r_def [symmetric]
    by (simp add: j_def takeWhile_eq_take [symmetric] dropWhile_eq_drop)
  have len: "length r = length s - k" by (simp add: r_drop)
  show ?thesis
  proof (cases "r = []")
    case True
    with r have "m (p + k) = NUL" by simp
    with True d toks r show ?thesis by (simp add: strtok_r_def s0 span)
  next
    case False
    then have tok: "m (p + k) \<noteq> NUL" using cstr_nul_iff [OF r, of 0] by simp
    show ?thesis
    proof (cases "j < length r")
      case True
      let ?e = "p + k + j" and ?m' = "m(p + k + j := NUL)"
      have "m ?e \<noteq> NUL" using cstr_not_nul [OF r True] .
      then have "strtok_r m arg d save = Some (Some (p + k), Suc ?e, ?m')"
        using tok by (simp add: strtok_r_def s0 span cspan Let_def)
      moreover have "Suc ?e \<le> d \<or> d + length ds < ?e"
        using away True ks len unfolding apart_def by linarith
      then have "cstr ?m' d ds" using cstr_store_other [OF d, of ?e "[NUL]"] by simp
      moreover have "apart (Suc ?e) (drop (Suc j) r) d ds"
        using away True ks len unfolding apart_def length_drop by linarith
      moreover have "length (drop (Suc j) r) < length s" using len True by simp
      ultimately show ?thesis using False toks cstr_cut [OF r True] by auto
    next
      case j_end: False
      with j have j: "j = length r" by simp
      then have "m (p + k + j) = NUL" using cstr_end [OF r] by simp
      then have "strtok_r m arg d save = Some (Some (p + k), p + k + j, m)"
        using tok by (simp add: strtok_r_def s0 span cspan Let_def)
      moreover have "apart (p + k + j) [] d ds" using away ks j len unfolding apart_def list.size by linarith
      moreover have "0 < length s" using False len by (cases s) auto
      ultimately show ?thesis using False toks d r j \<open>m (p + k + j) = NUL\<close>
        by (auto simp: tokens.simps [of _ "[]"] intro!: exI [of _ "[]"])
    qed
  qed
qed

section \<open>Properties\<close>

text \<open>C37. memmove copies as if through a temporary buffer, whatever the overlap of the two regions:
  every byte of the destination is the original source byte, and no other byte changes. It returns
  its first argument.\<close>

theorem memmove_overlap:
  "fst (memmove m d s n) = d \<and>
   (\<forall>a. snd (memmove m d s n) a = (if d \<le> a \<and> a < d + n then m (s + (a - d)) else m a))"
  by (auto simp: memmove_def mem_simps)

lemma memcpy_eq_memmove: "d \<le> s \<or> s + n \<le> d \<Longrightarrow> memcpy m d s n = memmove m d s n"
  by (auto simp: memcpy_def memmove_def fun_eq_iff copy_up_at copy_down_at)

text \<open>The byte order of strings, as a library order.\<close>

abbreviation byte_less :: "(char \<times> char) set" where
  "byte_less \<equiv> {(a, b). ub a < ub b}"

lemma str_cmp_less_iff:
  "NUL \<notin> set s \<Longrightarrow> NUL \<notin> set t \<Longrightarrow> str_cmp s t < 0 \<longleftrightarrow> (s, t) \<in> lexord byte_less"
  by (induction s t rule: str_cmp.induct) (auto dest: ub_pos)

lemma strcmp_order:
  assumes "cstr m a s" and "cstr m b t"
  shows "\<exists>r. strcmp m a b = Some r \<and> (r = 0 \<longleftrightarrow> s = t) \<and> (r < 0 \<longleftrightarrow> (s, t) \<in> lexord byte_less)"
    and "strncmp m a b n = 0 \<longleftrightarrow> take n s = take n t"
    and "strncmp m a b n < 0 \<longleftrightarrow> (take n s, take n t) \<in> lexord byte_less"
proof -
  have nul: "NUL \<notin> set s" "NUL \<notin> set t" using assms by (auto simp: cstr_def)
  then have nul': "NUL \<notin> set (take n s)" "NUL \<notin> set (take n t)" by (auto dest: in_set_takeD)
  show "\<exists>r. strcmp m a b = Some r \<and> (r = 0 \<longleftrightarrow> s = t) \<and> (r < 0 \<longleftrightarrow> (s, t) \<in> lexord byte_less)"
    using nul by (simp add: strcmp_cstr [OF assms] str_cmp_eq_0_iff str_cmp_less_iff)
  show "strncmp m a b n = 0 \<longleftrightarrow> take n s = take n t"
    "strncmp m a b n < 0 \<longleftrightarrow> (take n s, take n t) \<in> lexord byte_less"
    using nul' by (simp_all add: strncmp_cstr [OF assms] str_cmp_eq_0_iff str_cmp_less_iff)
qed

text \<open>C38. On two C strings strcmp returns, with 0 exactly for equal strings and a negative value exactly
  when the first precedes the second in the lexicographic order of unsigned bytes; strncmp is strcmp
  on the first \<open>n\<close> bytes.\<close>

theorem strcmp_lexicographic:
  assumes "cstr m a s" and "cstr m b t"
  shows "(\<exists>r. strcmp m a b = Some r \<and> (r = 0 \<longleftrightarrow> s = t) \<and> (r < 0 \<longleftrightarrow> (s, t) \<in> lexord byte_less)) \<and>
    (strncmp m a b n = 0 \<longleftrightarrow> take n s = take n t) \<and>
    (strncmp m a b n < 0 \<longleftrightarrow> (take n s, take n t) \<in> lexord byte_less)"
  using strcmp_order [OF assms] by blast

abbreviation two_strings :: mem where
  "two_strings \<equiv> store (store (\<lambda>_. NUL) 100 (''abc'' @ [NUL])) 200 (''abd'' @ [NUL])"

lemma two_strings_cstr: "cstr two_strings 100 ''abc''" "cstr two_strings 200 ''abd''"
proof -
  show "cstr two_strings 200 ''abd''" by (rule cstr_store) simp
  show "cstr two_strings 100 ''abc''" by (rule cstr_store_other, rule cstr_store) simp_all
qed

theorem strcmp_lexicographic_witness:
  "\<exists>r. strcmp two_strings 100 200 = Some r \<and> r \<noteq> 0 \<and> strncmp two_strings 100 200 2 = 0"
proof -
  note w = strcmp_lexicographic [OF two_strings_cstr]
  obtain r where "strcmp two_strings 100 200 = Some r" "r = 0 \<longleftrightarrow> ''abc'' = ''abd''"
    using w by blast
  moreover have "strncmp two_strings 100 200 2 = 0" using w [of 2] by (simp add: numeral_2_eq_2)
  ultimately show ?thesis by auto
qed

text \<open>strncpy writes exactly the bytes \<open>dst .. dst + n - 1\<close>: the first bytes of the source string,
  then NUL bytes up to \<open>n\<close>; nothing else changes. This holds also when source and destination overlap
  with the destination first.\<close>

theorem strncpy_pads:
  assumes "cstr m s t" and "d \<le> s \<or> s + length t < d"
  shows "snd (strncpy m d s n) a = (if d \<le> a \<and> a < d + n then char_at t (a - d) else m a)"
proof -
  have "copy_str_n d s n 0 m = (min n (length t), store m d (take n t))"
    using copy_str_n_cstr [of m s 0 t d n] assms by simp
  then show ?thesis by (auto simp: strncpy_def mem_simps char_at_def min_def)
qed

theorem strncpy_pads_witness:
  "snd (strncpy two_strings 300 100 5) 302 = CHR ''c'' \<and> snd (strncpy two_strings 300 100 5) 304 = NUL"
proof -
  have far: "(300::nat) \<le> 100 \<or> 100 + length ''abc'' < 300" by simp
  note w = strncpy_pads [OF two_strings_cstr(1) far, of 5]
  show ?thesis using w [of 302] w [of 304] by (simp add: char_at_def)
qed

lemma strstr_find:
  assumes s: "cstr m h s" and t: "cstr m nd t"
  shows "strstr m h nd
      = Some (map_option ((+) h) (List.find (\<lambda>i. prefix t (drop i s)) [0..<Suc (length s)]))"
    and "strcasestr m h nd
      = Some (map_option ((+) h) (List.find
          (\<lambda>i. matches (\<lambda>a b. lower (ub a) = lower (ub b)) t (drop i s)) [0..<Suc (length s)]))"
proof -
  have low: "lower (ub NUL) = lower (ub c) \<Longrightarrow> c = NUL" for c
    by (metis lower_ub_eq_0_iff)
  have first: "(if m nd = NUL then Some (Some h) else search_from eq m h nd)
      = Some (map_option ((+) h) (List.find (\<lambda>i. matches eq t (drop i s)) [0..<Suc (length s)]))"
    if eq: "\<And>c. eq NUL c \<Longrightarrow> c = NUL" for eq
  proof (cases "t = []")
    case True
    then show ?thesis using t by (simp add: find_upt_Suc matches_def del: upt_Suc)
  next
    case False
    have "List.find (\<lambda>i. matches eq t (drop i s)) [0..<Suc (length s)]
        = List.find (\<lambda>i. matches eq t (drop i s)) [0..<length s]"
      using False by (intro find_upt_snoc) (simp add: matches_def)
    moreover have "search_from eq m h nd
        = Some (map_option ((+) h) (List.find (\<lambda>i. matches eq t (drop i s)) [0..<length s]))"
      using s t False eq by (rule search_from_cstr)
    moreover have "m nd \<noteq> NUL" using cstr_nul_iff [OF t, of 0] False by simp
    ultimately show ?thesis by (simp del: upt_Suc)
  qed
  show "strstr m h nd
      = Some (map_option ((+) h) (List.find (\<lambda>i. prefix t (drop i s)) [0..<Suc (length s)]))"
    unfolding strstr_def matches_eq_prefix [symmetric] by (rule first) (rule sym)
  show "strcasestr m h nd
      = Some (map_option ((+) h) (List.find
          (\<lambda>i. matches (\<lambda>a b. lower (ub a) = lower (ub b)) t (drop i s)) [0..<Suc (length s)]))"
    unfolding strcasestr_def by (rule first) (rule low)
qed

text \<open>C39. strstr returns, on any two C strings, a pointer to the first occurrence of the needle, and NULL
  when there is none; strcasestr does the same with letter case ignored.\<close>

theorem strstr_first_occurrence:
  assumes s: "cstr m h s" and t: "cstr m nd t"
  shows "strstr m h nd
      = Some (map_option ((+) h) (List.find (\<lambda>i. prefix t (drop i s)) [0..<Suc (length s)])) \<and>
    strcasestr m h nd
      = Some (map_option ((+) h) (List.find
          (\<lambda>i. matches (\<lambda>a b. lower (ub a) = lower (ub b)) t (drop i s)) [0..<Suc (length s)]))"
  using strstr_find [OF assms] by blast

theorem strstr_first_occurrence_witness:
  "strstr (store two_strings 300 (''bc'' @ [NUL])) 100 300 = Some (Some 101)"
proof -
  have h: "cstr (store two_strings 300 (''bc'' @ [NUL])) 100 ''abc''"
    by (rule cstr_store_other, rule two_strings_cstr) simp
  have n: "cstr (store two_strings 300 (''bc'' @ [NUL])) 300 ''bc''" by (rule cstr_store) simp
  show ?thesis using strstr_first_occurrence [OF h n] by (simp add: upt_rec)
qed

text \<open>C40. A strtok_r scan. With a string and a set of delimiters elsewhere in memory, a call (a first call on
  the string, or a continuation from the save pointer) returns NULL exactly when no token is left;
  otherwise it returns a pointer to the first token, now a string of its own, and leaves the save pointer
  at a strictly shorter string holding exactly the remaining tokens, the delimiters untouched, so that
  the next call continues the scan.\<close>

theorem strtok_r_next_token:
  assumes "cstr m p s" and "cstr m d ds" and "apart p s d ds"
    and "arg = Some p \<or> arg = None \<and> save = p"
  shows "\<exists>tok save' m'. strtok_r m arg d save = Some (tok, save', m') \<and> cstr m' d ds \<and>
    (case tokens (set ds) s of
       [] \<Rightarrow> tok = None \<and> m' = m \<and> cstr m' save' []
     | t # ts \<Rightarrow> \<exists>q s'. tok = Some q \<and> cstr m' q t \<and> cstr m' save' s' \<and> tokens (set ds) s' = ts \<and>
                  apart save' s' d ds \<and> length s' < length s)"
  using assms by (rule strtok_r_cstr)

theorem strtok_r_next_token_witness:
  "\<exists>tok save' m' q. strtok_r (store two_strings 200 (''b'' @ [NUL])) (Some 100) 200 0
     = Some (tok, save', m') \<and> tok = Some q \<and> cstr m' q ''a''"
proof -
  let ?m = "store two_strings 200 (''b'' @ [NUL])"
  have s: "cstr ?m 100 ''abc''" by (rule cstr_store_other, rule two_strings_cstr) simp
  have d: "cstr ?m 200 ''b''" by (rule cstr_store) simp
  have away: "apart 100 ''abc'' 200 ''b''" by (simp add: apart_def)
  have arg: "Some 100 = Some (100 :: nat) \<or> Some 100 = (None :: nat option) \<and> 0 = (100 :: nat)" by simp
  have "tokens (set ''b'') ''abc'' = [''a'', ''c'']" by (simp add: tokens.simps)
  then show ?thesis using strtok_r_next_token [OF s d away arg] by auto
qed

lemma length_number_text:
  "0 \<le> v \<Longrightarrow> v \<le> 2147483648 \<Longrightarrow> length (dec_text (nat v)) \<le> 10"
  by (rule length_dec_text) auto

lemma number_texts_fit:
  assumes "in_i32 e"
  shows "(if 0 \<le> e \<and> e < 136 then error_text ! nat e else None) = None \<longrightarrow> length (strerror e) + 1 \<le> 32"
    and "(if 0 \<le> e \<and> e < 32 then signal_text ! nat e else None) = None \<longrightarrow> length (strsignal e) + 1 \<le> 40"
proof -
  have u32: "(if e < 0 then to_u32 (0 - to_u32 e) else to_u32 e) = \<bar>e\<bar>"
    using assms by (auto simp: to_u32_def in_i32_def mod_minus_eq)
  have u64: "(if v < 0 then to_u64 (0 - to_u64 v) else to_u64 v) = \<bar>v\<bar>" if "\<bar>v\<bar> \<le> 2147483648" for v
    using that by (auto simp: to_u64_def mod_minus_eq)
  have "\<bar>e\<bar> \<le> 2147483648" "\<bar>e - 34\<bar> \<le> 2147483648 \<or> e < 34" using assms by (auto simp: in_i32_def)
  then show "(if 0 \<le> e \<and> e < 136 then error_text ! nat e else None) = None \<longrightarrow> length (strerror e) + 1 \<le> 32"
    and "(if 0 \<le> e \<and> e < 32 then signal_text ! nat e else None) = None \<longrightarrow> length (strsignal e) + 1 \<le> 40"
    using assms [unfolded in_i32_def] length_number_text [of "\<bar>e\<bar>"] length_number_text [of "\<bar>e - 34\<bar>"]
    unfolding strerror_def strsignal_def Let_def u32
    by (auto simp: u64 to_u64_id)
qed

text \<open>For every \<open>int\<close> argument the number text that strerror and strsignal build fits their static
  buffers of 32 and 40 bytes, terminator included.\<close>

theorem strerror_strsignal_fit:
  assumes "in_i32 e"
  shows "((if 0 \<le> e \<and> e < 136 then error_text ! nat e else None) = None \<longrightarrow> length (strerror e) + 1 \<le> 32) \<and>
    ((if 0 \<le> e \<and> e < 32 then signal_text ! nat e else None) = None \<longrightarrow> length (strsignal e) + 1 \<le> 40)"
  using number_texts_fit [OF assms] by blast

theorem strerror_strsignal_fit_witness: "length (strerror (-2147483648)) + 1 \<le> 32"
proof -
  have "in_i32 (-2147483648)" by (simp add: in_i32_def)
  from strerror_strsignal_fit [OF this] show ?thesis by simp
qed

end
