(* ===== verification/Malloc.thy ===== *)
theory Malloc
  imports CString "HOL-Library.Word"
begin

unbundle bit_operations_syntax

text \<open>
  The allocator: \<open>lib/moqi_libc/src/malloc.c\<close>, the growth hook of \<open>src/sbrk.c\<close> and
  \<open>sbrk\<close> of \<open>src/unistd.c\<close>, over the kernel's \<open>brk\<close> (\<open>kernel/mm/brk.zig\<close>).

  The chain of headers that starts at \<open>heap_head\<close> is a list of \<open>block\<close> records in link order, each
  with the address of its header; a header is 32 bytes, so the payload of \<open>b\<close> starts at
  \<open>baddr b + 32\<close>. Payload bytes are a store. Sizes and addresses are natural numbers below
  \<open>2 ^ 64\<close> and the arithmetic that can wrap in C wraps here (\<open>uadd\<close>, \<open>usub\<close>, \<open>align_to\<close>).
  A header that coalescing swallows leaves the list, so clearing its magic needs no field.

  Two arguments stand for what is outside: \<open>ok\<close> is the kernel's answer to whether the pages of a
  growing break can be had, \<open>self\<close> the identity of the calling thread. A call that finds the lock held
  by another thread waits: its result is \<open>None\<close>. \<open>ENOMEM\<close> and \<open>EINVAL\<close> are the errno values.
\<close>

section \<open>Sizes that wrap\<close>

definition uadd :: "nat \<Rightarrow> nat \<Rightarrow> nat" where
  "uadd a b = (a + b) mod SIZE_MOD"

definition usub :: "nat \<Rightarrow> nat \<Rightarrow> nat" where
  "usub a b = (a + SIZE_MOD - b) mod SIZE_MOD"

lemma uadd_id [simp]: "a + b < SIZE_MOD \<Longrightarrow> uadd a b = a + b"
  by (simp add: uadd_def)

lemma usub_id [simp]: "b \<le> a \<Longrightarrow> a < SIZE_MOD \<Longrightarrow> usub a b = a - b"
  unfolding usub_def by (simp only: Nat.add_diff_assoc2 [symmetric] mod_add_self2) (simp only: mod_less less_imp_diff_less)

text \<open>\<open>(n + a - 1) & ~(a - 1)\<close> on 64-bit words.\<close>

definition align_to :: "nat \<Rightarrow> nat \<Rightarrow> nat" where
  "align_to a n = unat ((of_nat n + of_nat a - 1 :: 64 word) AND NOT (of_nat a - 1))"

definition align_up :: "nat \<Rightarrow> nat" where
  "align_up n = align_to 16 n"

definition is_pow2 :: "nat \<Rightarrow> bool" where
  "is_pow2 n \<longleftrightarrow> n \<noteq> 0 \<and> n AND (n - 1) = 0"

section \<open>The break\<close>

record kbreak =
  brk_start :: nat
  brk_current :: nat
  brk_ceiling :: nat

definition page_ceil :: "nat \<Rightarrow> nat" where
  "page_ceil a = (a + 4095) div 4096"

definition sys_brk :: "(nat \<Rightarrow> nat \<Rightarrow> bool) \<Rightarrow> kbreak \<Rightarrow> nat \<Rightarrow> nat \<times> kbreak" where
  "sys_brk ok k addr =
     (if addr = 0 then (brk_current k, k)
      else if brk_start k = 0 \<or> brk_current k = 0 then (brk_current k, k)
      else if addr < brk_start k then (brk_current k, k)
      else if addr > brk_ceiling k then (brk_current k, k)
      else if page_ceil addr > page_ceil (brk_current k) \<and>
              \<not> ok (page_ceil (brk_current k)) (page_ceil addr) then (brk_current k, k)
      else (addr, k\<lparr>brk_current := addr\<rparr>))"

definition sbrk :: "(nat \<Rightarrow> nat \<Rightarrow> bool) \<Rightarrow> kbreak \<Rightarrow> int \<Rightarrow> nat option \<times> kbreak" where
  "sbrk ok k increment =
     (let (cur, k1) = sys_brk ok k 0 in
      if cur = 0 then (None, k1)
      else if increment = 0 then (Some cur, k1)
      else let target = nat (to_u64 (int cur + increment));
               (nxt, k2) = sys_brk ok k1 target
           in if nxt \<noteq> target then (None, k2) else (Some cur, k2))"

definition moqi_heap_grow :: "(nat \<Rightarrow> nat \<Rightarrow> bool) \<Rightarrow> kbreak \<Rightarrow> nat \<Rightarrow> nat option \<times> kbreak" where
  "moqi_heap_grow ok k n =
     (case sbrk ok k (to_i64 (int n)) of
        (Some old, k') \<Rightarrow> (if old = 0 then (None, k') else (Some old, k'))
      | (None, k') \<Rightarrow> (None, k'))"

section \<open>The heap\<close>

abbreviation ALIGN :: nat where "ALIGN \<equiv> 16"
abbreviation HDR :: nat where "HDR \<equiv> 32"
abbreviation MIN_SPLIT :: nat where "MIN_SPLIT \<equiv> HDR + ALIGN"
abbreviation GROW_CHUNK :: nat where "GROW_CHUNK \<equiv> 4096"
abbreviation BLOCK_MAGIC :: nat where "BLOCK_MAGIC \<equiv> 0x4d6f5169"
abbreviation DEFERRED_MAX :: nat where "DEFERRED_MAX \<equiv> 8"
abbreviation SIZE_LIMIT :: nat where "SIZE_LIMIT \<equiv> SIZE_MOD - 1 - (ALIGN - 1) - HDR"
abbreviation ENOMEM :: int where "ENOMEM \<equiv> 12"
abbreviation EINVAL :: int where "EINVAL \<equiv> 22"

record block =
  baddr :: nat
  bsize :: nat
  bfree :: bool
  bmagic :: nat

abbreviation payload :: "block \<Rightarrow> nat" where
  "payload b \<equiv> baddr b + HDR"

abbreviation block_end :: "block \<Rightarrow> nat" where
  "block_end b \<equiv> baddr b + HDR + bsize b"

record heap =
  blocks :: "block list"
  kbrk :: kbreak
  hmem :: mem
  free_rejected :: nat
  deferred_leaked :: nat
  heap_owner :: nat
  deferred :: "nat list"
  herrno :: int

text \<open>Before the thread control block is installed the identity is 1 and errno does not exist.\<close>

definition set_errno :: "nat \<Rightarrow> int \<Rightarrow> heap \<Rightarrow> heap" where
  "set_errno self e h = (if self \<noteq> 1 then h\<lparr>herrno := e\<rparr> else h)"

definition heap_acquire :: "nat \<Rightarrow> heap \<Rightarrow> (bool \<times> heap) option" where
  "heap_acquire self h =
     (if heap_owner h = self then Some (False, h)
      else if heap_owner h = 0 then Some (True, h\<lparr>heap_owner := self\<rparr>)
      else None)"

definition grow :: "(nat \<Rightarrow> nat \<Rightarrow> bool) \<Rightarrow> nat \<Rightarrow> heap \<Rightarrow> block option \<times> heap" where
  "grow ok pay h =
     (let need = uadd pay HDR;
          ask = (if need < GROW_CHUNK then GROW_CHUNK else align_up need)
      in case moqi_heap_grow ok (kbrk h) ask of
           (None, k) \<Rightarrow> (None, h\<lparr>kbrk := k\<rparr>)
         | (Some mem, k) \<Rightarrow>
             (let b = \<lparr>baddr = mem, bsize = usub ask HDR, bfree = True, bmagic = BLOCK_MAGIC\<rparr>
              in (Some b, h\<lparr>kbrk := k, blocks := blocks h @ [b]\<rparr>)))"

text \<open>split: the block itself, shortened, and the rest.\<close>

definition split :: "block \<Rightarrow> nat \<Rightarrow> block list" where
  "split b sz =
     (if bsize b < uadd sz MIN_SPLIT then [b]
      else [b\<lparr>bsize := sz\<rparr>,
            \<lparr>baddr = uadd (payload b) sz, bsize = usub (usub (bsize b) sz) HDR,
             bfree = True, bmagic = BLOCK_MAGIC\<rparr>])"

text \<open>\<open>split(b, want); b->free = 0;\<close>\<close>

definition take_block :: "block \<Rightarrow> nat \<Rightarrow> block list" where
  "take_block b want =
     (case split b want of
        b' # rest \<Rightarrow> b'\<lparr>bfree := False\<rparr> # rest
      | [] \<Rightarrow> [])"

fun first_fit :: "nat \<Rightarrow> block list \<Rightarrow> (nat \<times> block list) option" where
  "first_fit want [] = None"
| "first_fit want (b # bs) =
     (if bfree b \<and> bsize b \<ge> want then Some (payload b, take_block b want @ bs)
      else map_option (\<lambda>(p, bs'). (p, b # bs')) (first_fit want bs))"

definition malloc_locked :: "(nat \<Rightarrow> nat \<Rightarrow> bool) \<Rightarrow> nat \<Rightarrow> heap \<Rightarrow> nat option \<times> heap" where
  "malloc_locked ok want h =
     (case first_fit want (blocks h) of
        Some (p, bs) \<Rightarrow> (Some p, h\<lparr>blocks := bs\<rparr>)
      | None \<Rightarrow>
          (case grow ok want h of
             (None, h') \<Rightarrow> (None, h')
           | (Some b, h') \<Rightarrow>
               (Some (payload b), h'\<lparr>blocks := butlast (blocks h') @ take_block b want\<rparr>)))"

text \<open>coalesce merges a free block with its successor as long as both are free and adjacent.\<close>

definition adjacent :: "block \<Rightarrow> block \<Rightarrow> bool" where
  "adjacent a b \<longleftrightarrow> block_end a = baddr b"

definition swallow :: "block \<Rightarrow> block \<Rightarrow> block" where
  "swallow b gone = b\<lparr>bsize := uadd (bsize b) (HDR + bsize gone)\<rparr>"

fun coalesce :: "block list \<Rightarrow> block list" where
  "coalesce (b # c # bs) =
     (if bfree b \<and> bfree c \<and> adjacent b c then coalesce (swallow b c # bs)
      else b # coalesce (c # bs))"
| "coalesce bs = bs"

text \<open>The block whose payload is \<open>ptr\<close>, with what precedes and follows it. free_locked and find_live
  reject it when its magic is gone or it is free already.\<close>

fun lookup_block :: "nat \<Rightarrow> block list \<Rightarrow> (block list \<times> block \<times> block list) option" where
  "lookup_block ptr [] = None"
| "lookup_block ptr (b # bs) =
     (if payload b = ptr then Some ([], b, bs)
      else map_option (\<lambda>(pre, x, post). (b # pre, x, post)) (lookup_block ptr bs))"

definition find_live :: "nat \<Rightarrow> heap \<Rightarrow> (block list \<times> block \<times> block list) option" where
  "find_live ptr h =
     (case lookup_block ptr (blocks h) of
        None \<Rightarrow> None
      | Some (pre, b, post) \<Rightarrow>
          (if bmagic b \<noteq> BLOCK_MAGIC \<or> bfree b then None else Some (pre, b, post)))"

definition free_locked :: "nat \<Rightarrow> heap \<Rightarrow> heap" where
  "free_locked ptr h =
     (case find_live ptr h of
        None \<Rightarrow> h\<lparr>free_rejected := Suc (free_rejected h)\<rparr>
      | Some (pre, b, post) \<Rightarrow> h\<lparr>blocks := coalesce (pre @ b\<lparr>bfree := True\<rparr> # post)\<rparr>)"

text \<open>heap_release drains the parked frees until a pass over the slots finds none, then unlocks. A slot
  is emptied before its pointer is freed.\<close>

definition drain_slot :: "nat \<Rightarrow> heap \<Rightarrow> heap" where
  "drain_slot i h =
     (let p = deferred h ! i; h' = h\<lparr>deferred := (deferred h)[i := 0]\<rparr>
      in if p \<noteq> 0 then free_locked p h' else h')"

definition drain_pass :: "heap \<Rightarrow> heap" where
  "drain_pass h = fold drain_slot [0..<length (deferred h)] h"

definition drain_pending :: "heap \<Rightarrow> nat" where
  "drain_pending h = length (filter (\<lambda>p. p \<noteq> 0) (deferred h))"

lemma free_locked_deferred [simp]: "deferred (free_locked p h) = deferred h"
  by (simp add: free_locked_def split: option.splits)

lemma drain_slot_deferred [simp]: "deferred (drain_slot i h) = (deferred h)[i := 0]"
  by (simp add: drain_slot_def Let_def)

lemma drain_fold_deferred:
  "n \<le> length (deferred h) \<Longrightarrow>
     deferred (fold drain_slot [0..<n] h) = replicate n 0 @ drop n (deferred h)"
  by (induction n) (auto simp: list_update_append Cons_nth_drop_Suc [symmetric] replicate_append_same [symmetric])

lemma drain_pass_deferred [simp]: "deferred (drain_pass h) = replicate (length (deferred h)) 0"
  by (simp add: drain_pass_def drain_fold_deferred)

function drain :: "heap \<Rightarrow> heap" where
  "drain h = (if drain_pending h = 0 then drain_pass h else drain (drain_pass h))"
  by pat_completeness auto
termination
  by (relation "measure drain_pending") (auto simp: drain_pending_def)

declare drain.simps [simp del]

definition heap_release :: "heap \<Rightarrow> heap" where
  "heap_release h = (drain h)\<lparr>heap_owner := 0\<rparr>"

fun defer_slots :: "nat \<Rightarrow> nat list \<Rightarrow> nat list option" where
  "defer_slots ptr [] = None"
| "defer_slots ptr (s # ss) = (if s = 0 then Some (ptr # ss) else map_option ((#) s) (defer_slots ptr ss))"

definition defer_free :: "nat \<Rightarrow> heap \<Rightarrow> heap" where
  "defer_free ptr h =
     (case defer_slots ptr (deferred h) of
        Some ss \<Rightarrow> h\<lparr>deferred := ss\<rparr>
      | None \<Rightarrow> h\<lparr>deferred_leaked := Suc (deferred_leaked h)\<rparr>)"

definition malloc :: "(nat \<Rightarrow> nat \<Rightarrow> bool) \<Rightarrow> nat \<Rightarrow> heap \<Rightarrow> nat \<Rightarrow> (nat option \<times> heap) option" where
  "malloc ok self h sz =
     (if sz > SIZE_LIMIT then Some (None, set_errno self ENOMEM h)
      else let want = align_up (if sz = 0 then 1 else sz) in
        case heap_acquire self h of
          None \<Rightarrow> None
        | Some (False, h1) \<Rightarrow> Some (None, set_errno self ENOMEM h1)
        | Some (True, h1) \<Rightarrow>
            (let (p, h2) = malloc_locked ok want h1; h3 = heap_release h2
             in Some (p, if p = None then set_errno self ENOMEM h3 else h3)))"

definition free :: "nat \<Rightarrow> heap \<Rightarrow> nat option \<Rightarrow> heap option" where
  "free self h ptr =
     (case ptr of
        None \<Rightarrow> Some h
      | Some p \<Rightarrow>
          (case heap_acquire self h of
             None \<Rightarrow> None
           | Some (False, h1) \<Rightarrow> Some (defer_free p h1)
           | Some (True, h1) \<Rightarrow> Some (heap_release (free_locked p h1))))"

definition calloc :: "(nat \<Rightarrow> nat \<Rightarrow> bool) \<Rightarrow> nat \<Rightarrow> heap \<Rightarrow> nat \<Rightarrow> nat \<Rightarrow> (nat option \<times> heap) option" where
  "calloc ok self h nmemb sz =
     (let total = (nmemb * sz) mod SIZE_MOD in
      if sz \<noteq> 0 \<and> total div sz \<noteq> nmemb then Some (None, set_errno self ENOMEM h)
      else case malloc ok self h total of
          None \<Rightarrow> None
        | Some (None, h') \<Rightarrow> Some (None, h')
        | Some (Some p, h') \<Rightarrow> Some (Some p, h'\<lparr>hmem := snd (memset (hmem h') p 0 total)\<rparr>))"

section \<open>Resizing\<close>

text \<open>The scan over the free blocks right behind a block: the size they would give it, and whether it
  reached the end of the chain.\<close>

fun avail_scan :: "nat \<Rightarrow> nat \<Rightarrow> block \<Rightarrow> block list \<Rightarrow> nat \<times> bool" where
  "avail_scan want avail lst [] = (avail, True)"
| "avail_scan want avail lst (n # ns) =
     (if bfree n \<and> adjacent lst n \<and> avail < want
      then avail_scan want (uadd avail (HDR + bsize n)) n ns else (avail, False))"

fun absorb :: "nat \<Rightarrow> block \<Rightarrow> block list \<Rightarrow> block \<times> block list" where
  "absorb want b [] = (b, [])"
| "absorb want b (gone # rest) =
     (if bsize b < want then absorb want (swallow b gone) rest else (b, gone # rest))"

text \<open>The loop of two tries: absorb the free blocks behind, growing the heap once when the chain ends
  there.\<close>

definition extend ::
    "(nat \<Rightarrow> nat \<Rightarrow> bool) \<Rightarrow> nat \<Rightarrow> block \<Rightarrow> block list \<Rightarrow> heap \<Rightarrow> (block \<times> block list) \<times> heap" where
  "extend ok want b post h =
     (let (avail, at_end) = avail_scan want (bsize b) b post in
      if avail \<ge> want then (absorb want b post, h)
      else if \<not> at_end then ((b, post), h)
      else case grow ok (usub want avail) h of
          (None, h') \<Rightarrow> ((b, post), h')
        | (Some g, h') \<Rightarrow>
            (if fst (avail_scan want (bsize b) b (post @ [g])) \<ge> want
             then (absorb want b (post @ [g]), h') else ((b, post @ [g]), h')))"

definition realloc_locked ::
    "(nat \<Rightarrow> nat \<Rightarrow> bool) \<Rightarrow> nat \<Rightarrow> nat \<Rightarrow> heap \<Rightarrow> nat option \<times> int \<times> heap" where
  "realloc_locked ok ptr want h =
     (case find_live ptr h of
        None \<Rightarrow> (None, EINVAL, h\<lparr>free_rejected := Suc (free_rejected h)\<rparr>)
      | Some (pre, b, post) \<Rightarrow>
          (let ((b', post'), h1) = (if bsize b < want then extend ok want b post h else ((b, post), h)) in
           if bsize b' \<ge> want then (Some ptr, 0, h1\<lparr>blocks := coalesce (pre @ split b' want @ post')\<rparr>)
           else case malloc_locked ok want (h1\<lparr>blocks := pre @ b' # post'\<rparr>) of
               (None, h2) \<Rightarrow> (None, ENOMEM, h2)
             | (Some np, h2) \<Rightarrow>
                 (Some np, 0, free_locked ptr (h2\<lparr>hmem := snd (memcpy (hmem h2) np ptr (bsize b'))\<rparr>))))"

definition realloc ::
    "(nat \<Rightarrow> nat \<Rightarrow> bool) \<Rightarrow> nat \<Rightarrow> heap \<Rightarrow> nat option \<Rightarrow> nat \<Rightarrow> (nat option \<times> heap) option" where
  "realloc ok self h ptr sz =
     (case ptr of
        None \<Rightarrow> malloc ok self h sz
      | Some p \<Rightarrow>
          (if sz = 0 then map_option (\<lambda>h'. (None, h')) (free self h (Some p))
           else if sz > SIZE_LIMIT then Some (None, set_errno self ENOMEM h)
           else case heap_acquire self h of
               None \<Rightarrow> None
             | Some (False, h1) \<Rightarrow> Some (None, set_errno self ENOMEM h1)
             | Some (True, h1) \<Rightarrow>
                 (let (q, err, h2) = realloc_locked ok p (align_up sz) h1; h3 = heap_release h2
                  in Some (q, if q = None then set_errno self err h3 else h3))))"

definition reallocarray ::
    "(nat \<Rightarrow> nat \<Rightarrow> bool) \<Rightarrow> nat \<Rightarrow> heap \<Rightarrow> nat option \<Rightarrow> nat \<Rightarrow> nat \<Rightarrow> (nat option \<times> heap) option" where
  "reallocarray ok self h ptr nmemb sz =
     (let total = (nmemb * sz) mod SIZE_MOD in
      if sz \<noteq> 0 \<and> total div sz \<noteq> nmemb then Some (None, set_errno self ENOMEM h)
      else realloc ok self h ptr total)"

section \<open>Aligned allocation\<close>

fun aligned_fit :: "nat \<Rightarrow> nat \<Rightarrow> block list \<Rightarrow> (nat \<times> block list) option" where
  "aligned_fit align want [] = None"
| "aligned_fit align want (b # bs) =
     (let p = payload b;
          a0 = align_to align p;
          a = (if a0 \<noteq> p \<and> usub a0 p < HDR then uadd a0 align else a0)
      in if \<not> bfree b \<or> a < p \<or> usub a p > bsize b \<or> usub (bsize b) (usub a p) < want
         then map_option (\<lambda>(q, bs'). (q, b # bs')) (aligned_fit align want bs)
         else if a \<noteq> p
         then (let nb = \<lparr>baddr = usub a HDR, bsize = usub (bsize b) (usub a p), bfree = True, bmagic = BLOCK_MAGIC\<rparr>
               in Some (payload nb, b\<lparr>bsize := usub (usub a p) HDR\<rparr> # take_block nb want @ bs))
         else Some (p, take_block b want @ bs))"

definition aligned_locked :: "(nat \<Rightarrow> nat \<Rightarrow> bool) \<Rightarrow> nat \<Rightarrow> nat \<Rightarrow> heap \<Rightarrow> nat option \<times> heap" where
  "aligned_locked ok align want h =
     (case aligned_fit align want (blocks h) of
        Some (p, bs) \<Rightarrow> (Some p, h\<lparr>blocks := bs\<rparr>)
      | None \<Rightarrow>
          (case grow ok (uadd (uadd want align) HDR) h of
             (None, h') \<Rightarrow> (None, h')
           | (Some b, h') \<Rightarrow>
               (case aligned_fit align want (blocks h') of
                  Some (p, bs) \<Rightarrow> (Some p, h'\<lparr>blocks := bs\<rparr>)
                | None \<Rightarrow> (None, h'))))"

text \<open>Returns the errno value, the pointer stored through \<open>out\<close> (if any) and the heap.\<close>

definition aligned_alloc_impl ::
    "(nat \<Rightarrow> nat \<Rightarrow> bool) \<Rightarrow> nat \<Rightarrow> heap \<Rightarrow> nat \<Rightarrow> nat \<Rightarrow> (int \<times> nat option \<times> heap) option" where
  "aligned_alloc_impl ok self h align sz =
     (if align \<le> ALIGN then
        (case malloc ok self h sz of
           None \<Rightarrow> None
         | Some (None, h') \<Rightarrow> Some (ENOMEM, None, h')
         | Some (Some p, h') \<Rightarrow> Some (0, Some p, h'))
      else if align > SIZE_LIMIT - HDR \<or> sz > SIZE_LIMIT - HDR - align then Some (ENOMEM, None, h)
      else let want = align_up (if sz = 0 then 1 else sz) in
        case heap_acquire self h of
          None \<Rightarrow> None
        | Some (False, h1) \<Rightarrow> Some (ENOMEM, None, h1)
        | Some (True, h1) \<Rightarrow>
            (let (p, h2) = aligned_locked ok align want h1; h3 = heap_release h2
             in if p = None then Some (ENOMEM, None, h3) else Some (0, p, h3)))"

definition posix_memalign ::
    "(nat \<Rightarrow> nat \<Rightarrow> bool) \<Rightarrow> nat \<Rightarrow> heap \<Rightarrow> nat \<Rightarrow> nat \<Rightarrow> (int \<times> nat option \<times> heap) option" where
  "posix_memalign ok self h align sz =
     (if \<not> is_pow2 align \<or> align mod 8 \<noteq> 0 then Some (EINVAL, None, h)
      else aligned_alloc_impl ok self h align sz)"

definition aligned_alloc ::
    "(nat \<Rightarrow> nat \<Rightarrow> bool) \<Rightarrow> nat \<Rightarrow> heap \<Rightarrow> nat \<Rightarrow> nat \<Rightarrow> (nat option \<times> heap) option" where
  "aligned_alloc ok self h align sz =
     (case (if is_pow2 align then aligned_alloc_impl ok self h align sz else Some (EINVAL, None, h)) of
        None \<Rightarrow> None
      | Some (rc, p, h') \<Rightarrow> (if rc \<noteq> 0 then Some (None, set_errno self rc h') else Some (p, h')))"

function pow2_up :: "nat \<Rightarrow> nat \<Rightarrow> nat" where
  "pow2_up up align = (if 0 < up \<and> up < align then pow2_up (2 * up) align else up)"
  by pat_completeness auto
termination
  by (relation "measure (\<lambda>(up, align). align - up)") auto

declare pow2_up.simps [simp del]

definition memalign ::
    "(nat \<Rightarrow> nat \<Rightarrow> bool) \<Rightarrow> nat \<Rightarrow> heap \<Rightarrow> nat \<Rightarrow> nat \<Rightarrow> (nat option \<times> heap) option" where
  "memalign ok self h align0 sz =
     (let align1 = (if align0 = 0 then 1 else align0) in
      if \<not> is_pow2 align1 \<and> align1 > 2 ^ 63 then Some (None, set_errno self EINVAL h)
      else let align = (if is_pow2 align1 then align1 else pow2_up 1 align1) in
        case aligned_alloc_impl ok self h align sz of
          None \<Rightarrow> None
        | Some (rc, p, h') \<Rightarrow> (if rc \<noteq> 0 then Some (None, set_errno self rc h') else Some (p, h')))"

end
