(* ===== verification/Malloc_Inv.thy ===== *)
theory Malloc_Inv
  imports Malloc "HOL-Library.Multiset"
begin

text \<open>
  What the allocator keeps: the heap invariant \<open>heap_ok\<close> (the chain is in address order without
  overlap, every header and size is a multiple of 16, every header carries the magic, the chain ends
  at or below the break), and the abstract view \<open>live\<close>, the list of in-use payloads with their sizes.
  Each operation is related to a change of that list; the interface locale \<open>allocator\<close> states the
  laws that the other components rely on.
\<close>

named_theorems heap_simps \<open>effect of the heap operations on the fields of the heap\<close>

section \<open>Alignment\<close>

lemma and_not_mask: "(w :: 64 word) AND NOT (mask k) = push_bit k (drop_bit k w)"
  by (rule bit_eqI) (auto simp: bit_simps)

lemma unat_clear_low: "unat ((w :: 64 word) AND NOT (mask k)) = unat w div 2 ^ k * 2 ^ k"
proof -
  have "push_bit k (drop_bit k w) = w - take_bit k w"
    using bits_ident [of k w] by (simp add: eq_diff_eq)
  moreover have t: "unat (take_bit k w) = unat w mod 2 ^ k"
    unfolding unsigned_take_bit_eq by (simp add: take_bit_eq_mod)
  moreover from t have "take_bit k w \<le> w" by (simp add: word_le_nat_alt)
  ultimately show ?thesis
    by (simp add: and_not_mask unat_sub minus_mod_eq_div_mult [symmetric])
qed

lemma align_to_pow2:
  assumes a: "a = 2 ^ k" and n: "n + a \<le> SIZE_MOD"
  shows "align_to a n = (n + a - 1) div a * a"
proof -
  have "1 \<le> n + a" using a by (simp add: Suc_le_eq)
  then have "(of_nat n + of_nat a - 1 :: 64 word) = of_nat (n + a - 1)"
    by (simp only: of_nat_diff of_nat_add of_nat_1)
  moreover have "unat (of_nat (n + a - 1) :: 64 word) = n + a - 1"
    unfolding unat_of_nat using n \<open>1 \<le> n + a\<close> by simp
  moreover have "(of_nat a - 1 :: 64 word) = mask k" by (simp add: a mask_eq_exp_minus_1)
  ultimately show ?thesis by (simp add: align_to_def unat_clear_low a)
qed

lemma align_up_eq: "n + 16 \<le> SIZE_MOD \<Longrightarrow> align_up n = (n + 15) div 16 * 16"
  unfolding align_up_def using align_to_pow2 [of 16 4 n] by simp

lemma round_up_bounds:
  fixes n a :: nat
  assumes "0 < a"
  shows "n \<le> (n + a - 1) div a * a" "(n + a - 1) div a * a \<le> n + a - 1" "a dvd (n + a - 1) div a * a"
proof -
  have "(n + a - 1) div a * a + (n + a - 1) mod a = n + a - 1" by simp
  moreover have "(n + a - 1) mod a < a" using assms by simp
  ultimately show "n \<le> (n + a - 1) div a * a" "(n + a - 1) div a * a \<le> n + a - 1" by linarith+
qed simp

lemma align_up_bounds:
  assumes "n + 16 \<le> SIZE_MOD"
  shows "n \<le> align_up n" "align_up n \<le> n + 15" "16 dvd align_up n"
  using round_up_bounds [of 16 n] by (simp_all add: align_up_eq [OF assms])

section \<open>The chain\<close>

fun wf_from :: "nat \<Rightarrow> block list \<Rightarrow> bool" where
  "wf_from lo [] = True"
| "wf_from lo (b # bs) =
     (lo \<le> baddr b \<and> 16 dvd baddr b \<and> 16 dvd bsize b \<and> bmagic b = BLOCK_MAGIC \<and>
      wf_from (block_end b) bs)"

fun top_from :: "nat \<Rightarrow> block list \<Rightarrow> nat" where
  "top_from lo [] = lo"
| "top_from lo (b # bs) = top_from (block_end b) bs"

lemma wf_from_append [simp]: "wf_from lo (xs @ ys) \<longleftrightarrow> wf_from lo xs \<and> wf_from (top_from lo xs) ys"
  by (induction xs arbitrary: lo) auto

lemma top_from_append [simp]: "top_from lo (xs @ ys) = top_from (top_from lo xs) ys"
  by (induction xs arbitrary: lo) auto

lemma top_from_ge: "wf_from lo xs \<Longrightarrow> lo \<le> top_from lo xs"
  by (induction xs arbitrary: lo) fastforce+

lemma wf_from_mono: "wf_from lo xs \<Longrightarrow> lo' \<le> lo \<Longrightarrow> wf_from lo' xs"
  by (cases xs) auto

lemma top_from_mono: "lo' \<le> lo \<Longrightarrow> top_from lo' xs \<le> top_from lo xs"
  by (cases xs) auto

lemma wf_from_in:
  "wf_from lo xs \<Longrightarrow> b \<in> set xs \<Longrightarrow>
     lo \<le> baddr b \<and> block_end b \<le> top_from lo xs \<and> 16 dvd baddr b \<and> 16 dvd bsize b \<and> bmagic b = BLOCK_MAGIC"
proof (induction xs arbitrary: lo)
  case (Cons x xs)
  show ?case
  proof (cases "b = x")
    case True
    with Cons show ?thesis using top_from_ge [of "block_end x" xs] by auto
  next
    case False
    with Cons.prems have b: "b \<in> set xs" "wf_from (block_end x) xs" "lo \<le> baddr x" by auto
    from Cons.IH [OF b(2,1)] b(3) show ?thesis by auto
  qed
qed simp

text \<open>Replacing one block by blocks that lie within it.\<close>

lemma wf_replace:
  assumes "wf_from lo (pre @ b # post)" "wf_from (baddr b) cs" "top_from (baddr b) cs \<le> block_end b"
  shows "wf_from lo (pre @ cs @ post)" "top_from lo (pre @ cs @ post) \<le> top_from lo (pre @ b # post)"
proof -
  have lo: "top_from lo pre \<le> baddr b" and post: "wf_from (block_end b) post"
    using assms(1) by auto
  then have cs: "wf_from (top_from lo pre) cs" using assms(2) by (auto intro: wf_from_mono)
  have top: "top_from (top_from lo pre) cs \<le> block_end b"
    using top_from_mono [OF lo] assms(3) le_trans by blast
  with post have "wf_from (top_from (top_from lo pre) cs) post" by (rule wf_from_mono)
  with assms(1) cs show "wf_from lo (pre @ cs @ post)" by auto
  show "top_from lo (pre @ cs @ post) \<le> top_from lo (pre @ b # post)"
    using top_from_mono [OF top] by simp
qed

section \<open>The in-use payloads\<close>

definition live :: "block list \<Rightarrow> (nat \<times> nat) list" where
  "live bs = map (\<lambda>b. (payload b, bsize b)) (filter (\<lambda>b. \<not> bfree b) bs)"

lemma live_simps [simp]:
  "live [] = []"
  "live (b # bs) = (if bfree b then live bs else (payload b, bsize b) # live bs)"
  "live (xs @ ys) = live xs @ live ys"
  by (simp_all add: live_def)

lemma wf_from_payload_eq:
  "wf_from lo xs \<Longrightarrow> b \<in> set xs \<Longrightarrow> c \<in> set xs \<Longrightarrow> baddr b = baddr c \<Longrightarrow> b = c"
proof (induction xs arbitrary: lo)
  case (Cons x xs)
  have "baddr x < baddr y" if "y \<in> set xs" for y
    using wf_from_in [of "block_end x" xs y] Cons.prems(1) that by auto
  from this [of b] this [of c] Cons.prems Cons.IH [of "block_end x"] show ?case by auto
qed simp

lemma lookup_block_SomeD:
  "lookup_block p bs = Some (pre, b, post) \<Longrightarrow> bs = pre @ b # post \<and> payload b = p"
  by (induction bs arbitrary: pre) (auto split: if_splits)

lemma lookup_block_None_iff: "lookup_block p bs = None \<longleftrightarrow> (\<forall>b \<in> set bs. payload b \<noteq> p)"
  by (induction bs) auto

definition heap_ok :: "heap \<Rightarrow> bool" where
  "heap_ok h \<longleftrightarrow>
     0 < brk_start (kbrk h) \<and> wf_from (brk_start (kbrk h)) (blocks h) \<and>
     top_from (brk_start (kbrk h)) (blocks h) \<le> brk_current (kbrk h) \<and>
     brk_current (kbrk h) \<le> brk_ceiling (kbrk h) \<and> brk_ceiling (kbrk h) < 9223372036854775808 \<and>
     16 dvd brk_current (kbrk h)"

section \<open>Cutting and merging blocks\<close>

text \<open>A block that fits in the address space, with a size it can be cut to.\<close>

definition block_ok :: "block \<Rightarrow> bool" where
  "block_ok b \<longleftrightarrow> 16 dvd baddr b \<and> 16 dvd bsize b \<and> bmagic b = BLOCK_MAGIC \<and>
     block_end b < 9223372036854775808"

lemma heap_ok_block:
  "heap_ok h \<Longrightarrow> b \<in> set (blocks h) \<Longrightarrow> block_ok b"
  using wf_from_in [of "brk_start (kbrk h)" "blocks h" b] by (auto simp: heap_ok_def block_ok_def)

lemma split_wf:
  assumes "block_ok b" "16 dvd want" "want \<le> bsize b"
  shows "wf_from (baddr b) (split b want)" "top_from (baddr b) (split b want) = block_end b"
    "\<exists>b' rest. split b want = b' # rest \<and> baddr b' = baddr b \<and> bfree b' = bfree b \<and>
       bmagic b' = bmagic b \<and> want \<le> bsize b' \<and> bsize b' \<le> bsize b \<and> live rest = []"
proof -
  have want: "want + MIN_SPLIT < SIZE_MOD" "payload b + want < SIZE_MOD" "bsize b < SIZE_MOD"
    using assms unfolding block_ok_def by linarith+
  show "wf_from (baddr b) (split b want)" "top_from (baddr b) (split b want) = block_end b"
    "\<exists>b' rest. split b want = b' # rest \<and> baddr b' = baddr b \<and> bfree b' = bfree b \<and>
       bmagic b' = bmagic b \<and> want \<le> bsize b' \<and> bsize b' \<le> bsize b \<and> live rest = []"
    using assms want by (auto simp: split_def block_ok_def dvd_diff_nat)
qed

lemma take_block_wf:
  assumes "block_ok b" "16 dvd want" "want \<le> bsize b"
  shows "wf_from (baddr b) (take_block b want)" "top_from (baddr b) (take_block b want) = block_end b"
    "\<exists>k. live (take_block b want) = [(payload b, k)] \<and> want \<le> k \<and> k \<le> bsize b"
proof -
  obtain b' rest where s: "split b want = b' # rest" "baddr b' = baddr b" "want \<le> bsize b'"
    "bsize b' \<le> bsize b" "live rest = []"
    using split_wf(3) [OF assms] by auto
  then have t: "take_block b want = b'\<lparr>bfree := False\<rparr> # rest" by (simp add: take_block_def)
  show "wf_from (baddr b) (take_block b want)" "top_from (baddr b) (take_block b want) = block_end b"
    using split_wf(1,2) [OF assms] unfolding s t by auto
  show "\<exists>k. live (take_block b want) = [(payload b, k)] \<and> want \<le> k \<and> k \<le> bsize b"
    using s t by auto
qed

lemma coalesce_wf:
  assumes "wf_from lo bs" "top_from lo bs < SIZE_MOD"
  shows "wf_from lo (coalesce bs) \<and> top_from lo (coalesce bs) = top_from lo bs \<and> live (coalesce bs) = live bs"
  using assms
proof (induction bs arbitrary: lo rule: coalesce.induct)
  case (1 b c bs)
  show ?case
  proof (cases "bfree b \<and> bfree c \<and> adjacent b c")
    case True
    have "block_end c \<le> top_from lo (b # c # bs)" using 1(3) top_from_ge [of "block_end c" bs] by auto
    then have size: "bsize (swallow b c) = bsize b + (HDR + bsize c)"
      using 1(4) True by (auto simp: swallow_def adjacent_def)
    then have end_eq: "block_end (swallow b c) = block_end c"
      using True by (simp add: swallow_def adjacent_def)
    have "wf_from (block_end (swallow b c)) bs" using 1(3) unfolding end_eq by simp
    moreover have "lo \<le> baddr (swallow b c)" "ALIGN dvd baddr (swallow b c)"
      "ALIGN dvd bsize (swallow b c)" "bmagic (swallow b c) = BLOCK_MAGIC"
      using 1(3) unfolding size by (simp_all add: swallow_def)
    ultimately have "wf_from lo (swallow b c # bs)" by simp
    moreover have "top_from lo (swallow b c # bs) = top_from lo (b # c # bs)"
      by (simp only: top_from.simps end_eq)
    ultimately show ?thesis using 1(1) [OF True, of lo] 1(4) True by (simp add: swallow_def)
  next
    case False
    with 1(2) [OF False, of "block_end b"] 1(3,4) show ?thesis by auto
  qed
qed auto

text \<open>No two adjacent free blocks are left.\<close>

fun coalesced :: "block list \<Rightarrow> bool" where
  "coalesced (b # c # bs) = (\<not> (bfree b \<and> bfree c \<and> adjacent b c) \<and> coalesced (c # bs))"
| "coalesced bs = True"

lemma hd_coalesce: "\<exists>x xs. coalesce (c # bs) = x # xs \<and> baddr x = baddr c \<and> bfree x = bfree c"
proof (induction bs arbitrary: c)
  case (Cons d bs)
  then show ?case
    using Cons.IH [of "swallow c d"] by (auto simp: swallow_def)
qed auto

lemma coalesce_coalesced: "coalesced (coalesce bs)"
proof (induction bs rule: coalesce.induct)
  case (1 b c bs)
  obtain x xs where "coalesce (c # bs) = x # xs" "baddr x = baddr c" "bfree x = bfree c"
    using hd_coalesce by blast
  with 1 show ?case by (auto simp: adjacent_def)
qed auto

section \<open>Growing\<close>

lemma moqi_heap_grow_cases:
  assumes "heap_ok h" "0 < n" "n < 9223372036854775808"
  obtains "moqi_heap_grow ok (kbrk h) n = (None, kbrk h)"
  | "moqi_heap_grow ok (kbrk h) n =
       (Some (brk_current (kbrk h)), (kbrk h)\<lparr>brk_current := brk_current (kbrk h) + n\<rparr>)"
    "brk_current (kbrk h) + n \<le> brk_ceiling (kbrk h)"
proof -
  let ?k = "kbrk h" and ?c = "brk_current (kbrk h)"
  have c: "0 < brk_start ?k" "brk_start ?k \<le> ?c" "?c < 9223372036854775808"
    "brk_ceiling ?k < 9223372036854775808"
    using assms(1) top_from_ge [of "brk_start ?k" "blocks h"] unfolding heap_ok_def by auto
  have n: "to_i64 (int n) = int n" using assms(3) by (intro to_i64_id) (simp add: in_i64_def)
  have t: "nat (to_u64 (int ?c + int n)) = ?c + n"
    using c assms(3) by (subst to_u64_id) auto
  have b: "brk_current ?k \<noteq> 0" using c by linarith
  show ?thesis
  proof (cases "?c + n > brk_ceiling ?k \<or>
      page_ceil (?c + n) > page_ceil ?c \<and> \<not> ok (page_ceil ?c) (page_ceil (?c + n))")
    case True
    then have "sys_brk ok ?k (?c + n) = (?c, ?k)"
      using c assms(2) by (auto simp: sys_brk_def)
    then have "moqi_heap_grow ok ?k n = (None, ?k)"
      using b assms(2) by (simp add: moqi_heap_grow_def sbrk_def n t) (simp add: sys_brk_def t)
    then show ?thesis by (rule that(1))
  next
    case False
    then have "sys_brk ok ?k (?c + n) = (?c + n, ?k\<lparr>brk_current := ?c + n\<rparr>)"
      using c assms(2) by (auto simp: sys_brk_def)
    then have "moqi_heap_grow ok ?k n = (Some ?c, ?k\<lparr>brk_current := ?c + n\<rparr>)"
      using b assms(2) by (simp add: moqi_heap_grow_def sbrk_def n t) (simp add: sys_brk_def t)
    then show ?thesis using False by (intro that(2)) auto
  qed
qed

text \<open>A fresh block at the end of the chain, or nothing changed.\<close>

lemma grow_cases:
  assumes "heap_ok h" "16 dvd pay" "pay + 64 \<le> 9223372036854775808"
  obtains "grow ok pay h = (None, h)"
  | b k where "grow ok pay h = (Some b, h\<lparr>kbrk := k, blocks := blocks h @ [b]\<rparr>)"
    "heap_ok (h\<lparr>kbrk := k, blocks := blocks h @ [b]\<rparr>)" "bfree b" "pay \<le> bsize b"
    "brk_start k = brk_start (kbrk h)" "baddr b = brk_current (kbrk h)"
proof -
  define ask where "ask = (if pay + HDR < GROW_CHUNK then GROW_CHUNK else align_up (pay + HDR))"
  have need: "uadd pay HDR = pay + HDR" using assms(3) by simp
  have "align_up (pay + HDR) = (pay + HDR + 15) div 16 * 16"
    using assms(3) by (simp add: align_up_eq)
  also have "\<dots> = pay + HDR" using assms(2) by presburger
  finally have "align_up (pay + HDR) = pay + HDR" .
  then have ask: "16 dvd ask" "pay + HDR \<le> ask" "ask < 9223372036854775808" "0 < ask"
    using assms(2,3) unfolding ask_def by auto
  let ?b = "\<lparr>baddr = brk_current (kbrk h), bsize = ask - HDR, bfree = True, bmagic = BLOCK_MAGIC\<rparr>"
  have us: "usub ask HDR = ask - HDR" using ask by simp
  have sz: "16 dvd ask - HDR" using ask(1) by (simp add: dvd_diff_nat)
  from assms(1) ask(4,3) show ?thesis
  proof (cases rule: moqi_heap_grow_cases [where ok = ok])
    case 1
    then have "grow ok pay h = (None, h)"
      unfolding grow_def need Let_def ask_def [symmetric] by simp
    then show ?thesis by (rule that(1))
  next
    case 2
    let ?k = "(kbrk h)\<lparr>brk_current := brk_current (kbrk h) + ask\<rparr>"
    have "grow ok pay h = (Some ?b, h\<lparr>kbrk := ?k, blocks := blocks h @ [?b]\<rparr>)"
      using 2(1) unfolding grow_def need Let_def ask_def [symmetric] us by simp
    moreover have "heap_ok (h\<lparr>kbrk := ?k, blocks := blocks h @ [?b]\<rparr>)"
      using assms(1) 2(2) ask sz unfolding heap_ok_def by auto
    ultimately show ?thesis using that(2) [of ?b ?k] ask(2) by simp
  qed
qed

section \<open>First fit\<close>

lemma first_fit_SomeD:
  "first_fit want bs = Some (p, bs') \<Longrightarrow>
     \<exists>pre b post. bs = pre @ b # post \<and> bfree b \<and> want \<le> bsize b \<and> p = payload b \<and>
       bs' = pre @ take_block b want @ post"
proof (induction bs arbitrary: bs')
  case (Cons x xs)
  show ?case
  proof (cases "bfree x \<and> want \<le> bsize x")
    case True
    with Cons.prems show ?thesis by (intro exI [of _ "[]"] exI [of _ x] exI [of _ xs]) simp
  next
    case False
    with Cons.prems obtain ys where "first_fit want xs = Some (p, ys)" "bs' = x # ys"
      by (auto split: if_splits)
    with Cons.IH [of ys] show ?thesis by (metis append_Cons)
  qed
qed simp

lemma first_fit_None_iff: "first_fit want bs = None \<longleftrightarrow> (\<forall>b \<in> set bs. bfree b \<longrightarrow> bsize b < want)"
  by (induction bs) auto

text \<open>Cutting an allocation out of a free block of a well-formed heap.\<close>

lemma heap_ok_replace:
  assumes "heap_ok h" "blocks h = pre @ b # post" "wf_from (baddr b) cs"
    "top_from (baddr b) cs \<le> block_end b"
  shows "heap_ok (h\<lparr>blocks := pre @ cs @ post\<rparr>)"
  using assms wf_replace [of "brk_start (kbrk h)" pre b post cs] unfolding heap_ok_def by auto

lemma take_block_heap:
  assumes "heap_ok h" "blocks h = pre @ b # post" "bfree b" "16 dvd want" "want \<le> bsize b"
  obtains k where "heap_ok (h\<lparr>blocks := pre @ take_block b want @ post\<rparr>)" "want \<le> k"
    "mset (live (pre @ take_block b want @ post)) = add_mset (payload b, k) (mset (live (blocks h)))"
proof -
  have b: "block_ok b" using assms(1,2) by (intro heap_ok_block) auto
  note t = take_block_wf [OF b assms(4,5)]
  obtain k where k: "live (take_block b want) = [(payload b, k)]" "want \<le> k" using t(3) by blast
  from heap_ok_replace [OF assms(1,2) t(1)] t(2)
  have "heap_ok (h\<lparr>blocks := pre @ take_block b want @ post\<rparr>)" by simp
  with k assms(2,3) that show ?thesis by simp
qed

lemma malloc_locked_cases:
  assumes "heap_ok h" "16 dvd want" "want + 64 \<le> 9223372036854775808"
  obtains "malloc_locked ok want h = (None, h)"
  | p k bs kb where "malloc_locked ok want h = (Some p, h\<lparr>kbrk := kb, blocks := bs\<rparr>)"
    "heap_ok (h\<lparr>kbrk := kb, blocks := bs\<rparr>)" "want \<le> k"
    "mset (live bs) = add_mset (p, k) (mset (live (blocks h)))"
    "brk_start kb = brk_start (kbrk h)"
proof (cases "first_fit want (blocks h)")
  case (Some r)
  obtain p bs where r: "r = (p, bs)" by force
  obtain pre b post where f: "blocks h = pre @ b # post" "bfree b" "want \<le> bsize b" "p = payload b"
    "bs = pre @ take_block b want @ post"
    using first_fit_SomeD [of want "blocks h" p bs] Some r by auto
  from assms(1) f(1,2) assms(2) f(3) obtain k where k:
    "heap_ok (h\<lparr>blocks := pre @ take_block b want @ post\<rparr>)" "want \<le> k"
    "mset (live (pre @ take_block b want @ post)) = add_mset (payload b, k) (mset (live (blocks h)))"
    by (rule take_block_heap)
  have "malloc_locked ok want h = (Some p, h\<lparr>kbrk := kbrk h, blocks := bs\<rparr>)"
    using Some r by (simp add: malloc_locked_def)
  with k f(4,5) show thesis by (intro that(2)) auto
next
  case None
  from assms show thesis
  proof (cases rule: grow_cases [where ok = ok])
    case 1
    with None that(1) show thesis by (simp add: malloc_locked_def)
  next
    case (2 b kb)
    let ?h = "h\<lparr>kbrk := kb, blocks := blocks h @ [b]\<rparr>"
    have "blocks ?h = blocks h @ b # []" by simp
    from 2(2) this 2(3) assms(2) 2(4) obtain k where k:
      "heap_ok (?h\<lparr>blocks := blocks h @ take_block b want @ []\<rparr>)" "want \<le> k"
      "mset (live (blocks h @ take_block b want @ [])) = add_mset (payload b, k) (mset (live (blocks ?h)))"
      by (rule take_block_heap)
    have "malloc_locked ok want h =
        (Some (payload b), h\<lparr>kbrk := kb, blocks := blocks h @ take_block b want\<rparr>)"
      using None 2(1) by (simp add: malloc_locked_def)
    from that(2) [OF this, of k] k 2(3,5) show thesis by auto
  qed
qed

section \<open>Freeing\<close>

lemma find_live_SomeD:
  "find_live p h = Some (pre, b, post) \<Longrightarrow>
     blocks h = pre @ b # post \<and> payload b = p \<and> \<not> bfree b"
  by (auto simp: find_live_def split: option.splits if_splits dest: lookup_block_SomeD)

lemma find_live_None_iff:
  assumes "heap_ok h"
  shows "find_live p h = None \<longleftrightarrow> p \<notin> fst ` set (live (blocks h))"
proof (cases "lookup_block p (blocks h)")
  case None
  then have "find_live p h = None" by (simp add: find_live_def)
  moreover have "p \<notin> fst ` set (live (blocks h))"
    using None unfolding lookup_block_None_iff by (auto simp: live_def)
  ultimately show ?thesis by simp
next
  case (Some r)
  obtain pre b post where r: "r = (pre, b, post)" by (cases r) auto
  have b: "blocks h = pre @ b # post" "payload b = p" using lookup_block_SomeD Some r by blast+
  have wf: "wf_from (brk_start (kbrk h)) (blocks h)" using assms by (simp add: heap_ok_def)
  have uniq: "c = b" if "c \<in> set (blocks h)" "payload c = p" for c
    using wf_from_payload_eq [OF wf that(1), of b] b that(2) by simp
  have "bmagic b = BLOCK_MAGIC" using heap_ok_block [OF assms] b(1) by (simp add: block_ok_def)
  then have "find_live p h = None \<longleftrightarrow> bfree b" using Some r by (simp add: find_live_def)
  also have "\<dots> \<longleftrightarrow> p \<notin> fst ` set (live (blocks h))"
  proof
    assume "bfree b"
    then show "p \<notin> fst ` set (live (blocks h))" using uniq by (force simp: live_def)
  next
    assume "p \<notin> fst ` set (live (blocks h))"
    then show "bfree b" using b by (auto split: if_splits)
  qed
  finally show ?thesis .
qed

lemma heap_ok_coalesce:
  assumes "heap_ok (h\<lparr>blocks := bs\<rparr>)"
  shows "heap_ok (h\<lparr>blocks := coalesce bs\<rparr>)" "live (coalesce bs) = live bs"
proof -
  have "top_from (brk_start (kbrk h)) bs < SIZE_MOD" "wf_from (brk_start (kbrk h)) bs"
    using assms by (auto simp: heap_ok_def)
  with coalesce_wf [of "brk_start (kbrk h)" bs] assms
  show "heap_ok (h\<lparr>blocks := coalesce bs\<rparr>)" "live (coalesce bs) = live bs" by (auto simp: heap_ok_def)
qed

lemma free_locked_cases:
  assumes "heap_ok h"
  obtains "p \<notin> fst ` set (live (blocks h))"
    "free_locked p h = h\<lparr>free_rejected := Suc (free_rejected h)\<rparr>"
  | k bs where "mset (live (blocks h)) = add_mset (p, k) (mset (live bs))"
    "free_locked p h = h\<lparr>blocks := bs\<rparr>" "heap_ok (h\<lparr>blocks := bs\<rparr>)" "coalesced bs"
proof (cases "find_live p h")
  case None
  with find_live_None_iff [OF assms] that(1) show thesis by (simp add: free_locked_def)
next
  case (Some r)
  obtain pre b post where r: "r = (pre, b, post)" by (cases r) auto
  have b: "blocks h = pre @ b # post" "payload b = p" "\<not> bfree b"
    using find_live_SomeD Some r by blast+
  let ?bs = "pre @ [b\<lparr>bfree := True\<rparr>] @ post"
  have "wf_from (baddr b) [b\<lparr>bfree := True\<rparr>]"
    using heap_ok_block [OF assms, of b] b(1) by (simp add: block_ok_def)
  then have ok: "heap_ok (h\<lparr>blocks := ?bs\<rparr>)" by (rule heap_ok_replace [OF assms b(1)]) simp
  have fr: "free_locked p h = h\<lparr>blocks := coalesce ?bs\<rparr>"
    using Some r by (simp add: free_locked_def)
  have "mset (live (blocks h)) = add_mset (p, bsize b) (mset (live (coalesce ?bs)))"
    using heap_ok_coalesce(2) [OF ok] b by simp
  with fr heap_ok_coalesce(1) [OF ok] coalesce_coalesced show thesis using that(2) by blast
qed

lemma heap_ok_more [simp]:
  "heap_ok (h\<lparr>free_rejected := n\<rparr>) = heap_ok h" "heap_ok (h\<lparr>deferred := d\<rparr>) = heap_ok h"
  "heap_ok (h\<lparr>heap_owner := w\<rparr>) = heap_ok h" "heap_ok (h\<lparr>hmem := m\<rparr>) = heap_ok h"
  "heap_ok (h\<lparr>herrno := e\<rparr>) = heap_ok h" "heap_ok (h\<lparr>deferred_leaked := n\<rparr>) = heap_ok h"
  by (simp_all add: heap_ok_def)

lemma set_errno_simps [simp]:
  "heap_ok (set_errno self e h) = heap_ok h" "blocks (set_errno self e h) = blocks h"
  "hmem (set_errno self e h) = hmem h" "heap_owner (set_errno self e h) = heap_owner h"
  "deferred (set_errno self e h) = deferred h" "kbrk (set_errno self e h) = kbrk h"
  by (simp_all add: set_errno_def)

section \<open>Draining the parked frees\<close>

text \<open>Slots that are empty change nothing.\<close>

lemma drain_slot_empty: "i < length (deferred h) \<Longrightarrow> deferred h ! i = 0 \<Longrightarrow> drain_slot i h = h"
  by (simp add: drain_slot_def Let_def list_update_same_conv)

lemma fold_drain_slot_empty:
  "\<forall>i \<in> set is. i < length (deferred h) \<and> deferred h ! i = 0 \<Longrightarrow> fold drain_slot is h = h"
  by (induction "is") (auto simp: drain_slot_empty)

lemma drain_empty:
  assumes "\<forall>p \<in> set (deferred h). p = 0"
  shows "drain h = h"
proof -
  have "drain_pending h = 0" using assms by (simp add: drain_pending_def filter_False)
  moreover have "drain_pass h = h" unfolding drain_pass_def
    by (rule fold_drain_slot_empty) (use assms in auto)
  ultimately show ?thesis by (simp add: drain.simps)
qed

lemma heap_release_empty:
  "\<forall>p \<in> set (deferred h). p = 0 \<Longrightarrow> heap_release h = h\<lparr>heap_owner := 0\<rparr>"
  by (simp add: heap_release_def drain_empty)

lemma drain_after_pass: "drain h = drain_pass h"
proof (cases "drain_pending h = 0")
  case False
  then have "drain h = drain (drain_pass h)" by (subst drain.simps) simp
  also have "\<dots> = drain_pass h" by (rule drain_empty) simp
  finally show ?thesis .
qed (simp add: drain.simps)

text \<open>The release frees the parked pointers in slot order and leaves every slot empty.\<close>

lemma free_locked_update_deferred [simp]:
  "free_locked p (h\<lparr>deferred := d\<rparr>) = (free_locked p h)\<lparr>deferred := d\<rparr>"
  by (simp add: free_locked_def find_live_def split: option.splits)

lemma fold_drain_slot:
  "n \<le> length (deferred h) \<Longrightarrow>
     fold drain_slot [0..<n] h =
       (fold free_locked (filter (\<lambda>p. p \<noteq> 0) (take n (deferred h))) h)
         \<lparr>deferred := replicate n 0 @ drop n (deferred h)\<rparr>"
proof (induction n)
  case (Suc n)
  let ?d = "replicate n 0 @ drop n (deferred h)"
  let ?h = "fold free_locked (filter (\<lambda>p. p \<noteq> 0) (take n (deferred h))) h"
  have "?d ! n = deferred h ! n" using Suc.prems by (simp add: nth_append)
  moreover have "?d[n := 0] = replicate (Suc n) 0 @ drop (Suc n) (deferred h)"
    using Suc.prems
    by (simp add: list_update_append Cons_nth_drop_Suc [symmetric] replicate_append_same [symmetric])
  moreover have "fold drain_slot [0..<Suc n] h = drain_slot n (?h\<lparr>deferred := ?d\<rparr>)"
    using Suc by simp
  ultimately have "fold drain_slot [0..<Suc n] h =
     (if deferred h ! n \<noteq> 0 then free_locked (deferred h ! n) ?h else ?h)
       \<lparr>deferred := replicate (Suc n) 0 @ drop (Suc n) (deferred h)\<rparr>"
    by (simp add: drain_slot_def)
  then show ?case using Suc.prems by (simp add: take_Suc_conv_app_nth)
qed simp

lemma drain_eq:
  "drain h = (fold free_locked (filter (\<lambda>p. p \<noteq> 0) (deferred h)) h)
     \<lparr>deferred := replicate (length (deferred h)) 0\<rparr>"
  by (simp add: drain_after_pass drain_pass_def fold_drain_slot)

section \<open>The map of live allocations\<close>

definition live_map :: "heap \<Rightarrow> nat \<Rightarrow> nat option" where
  "live_map h = map_of (live (blocks h))"

lemma live_distinct:
  assumes "wf_from lo bs"
  shows "distinct (map fst (live bs))"
  using assms
proof (induction bs arbitrary: lo)
  case (Cons b bs)
  have "baddr b < baddr c" if "c \<in> set bs" for c
    using wf_from_in [of "block_end b" bs c] Cons.prems that by auto
  with Cons show ?case by (fastforce simp: live_def)
qed simp

lemma heap_ok_distinct: "heap_ok h \<Longrightarrow> distinct (map fst (live (blocks h)))"
  by (auto simp: heap_ok_def intro: live_distinct)

lemma map_of_mset_eq:
  assumes "distinct (map fst xs)" "mset xs = mset ys"
  shows "map_of xs = map_of ys"
proof -
  have "mset (map fst xs) = mset (map fst ys)" "set xs = set ys"
    using assms(2) by (simp_all only: mset_map set_mset_mset [symmetric])
  with assms(1) have "distinct (map fst ys)" by (metis mset_eq_imp_distinct_iff)
  with assms(1) \<open>set xs = set ys\<close> show ?thesis by (simp add: map_of_inject_set)
qed

lemma live_map_add:
  assumes "heap_ok h'" "mset (live (blocks h')) = add_mset (p, k) (mset (live (blocks h)))"
  shows "live_map h' = (live_map h)(p \<mapsto> k)" "live_map h p = None"
proof -
  have eq: "mset (live (blocks h')) = mset ((p, k) # live (blocks h))" using assms(2) by simp
  show "live_map h' = (live_map h)(p \<mapsto> k)"
    using map_of_mset_eq [OF heap_ok_distinct [OF assms(1)] eq] by (simp add: live_map_def)
  have "mset (map fst (live (blocks h'))) = mset (p # map fst (live (blocks h)))"
    using assms(2) by simp
  with heap_ok_distinct [OF assms(1)] have "distinct (p # map fst (live (blocks h)))"
    by (metis mset_eq_imp_distinct_iff)
  then show "live_map h p = None" by (auto simp: live_map_def map_of_eq_None_iff)
qed

lemma live_map_None_iff: "live_map h p = None \<longleftrightarrow> p \<notin> fst ` set (live (blocks h))"
  by (simp add: live_map_def map_of_eq_None_iff)

lemma live_mapD:
  "live_map h p = Some k \<Longrightarrow> \<exists>b \<in> set (blocks h). payload b = p \<and> bsize b = k"
  by (auto simp: live_map_def live_def dest!: map_of_SomeD)

lemma wf_from_disjoint:
  "wf_from lo bs \<Longrightarrow> b \<in> set bs \<Longrightarrow> c \<in> set bs \<Longrightarrow> b \<noteq> c \<Longrightarrow>
     block_end b \<le> baddr c \<or> block_end c \<le> baddr b"
proof (induction bs arbitrary: lo)
  case (Cons x bs)
  then show ?case using wf_from_in [of "block_end x" bs b] wf_from_in [of "block_end x" bs c] by auto
qed simp

lemma live_map_disjoint:
  assumes "heap_ok h" "live_map h p = Some k" "live_map h q = Some l" "p \<noteq> q"
  shows "p + k \<le> q \<or> q + l \<le> p"
proof -
  obtain b c where b: "b \<in> set (blocks h)" "payload b = p" "bsize b = k"
    and c: "c \<in> set (blocks h)" "payload c = q" "bsize c = l"
    using live_mapD [OF assms(2)] live_mapD [OF assms(3)] by auto
  with assms(4) have "b \<noteq> c" by auto
  with wf_from_disjoint [of "brk_start (kbrk h)" "blocks h" b c] assms(1) b c show ?thesis
    by (auto simp: heap_ok_def)
qed

lemma live_map_bounds:
  assumes "heap_ok h" "live_map h p = Some k"
  shows "brk_start (kbrk h) + HDR \<le> p" "p + k \<le> brk_current (kbrk h)" "16 dvd p"
proof -
  obtain b where b: "b \<in> set (blocks h)" "payload b = p" "bsize b = k"
    using live_mapD [OF assms(2)] by auto
  have w: "brk_start (kbrk h) \<le> baddr b" "block_end b \<le> brk_current (kbrk h)" "16 dvd baddr b"
    using wf_from_in [of "brk_start (kbrk h)" "blocks h" b] b(1) assms(1)
    unfolding heap_ok_def by linarith+
  show "brk_start (kbrk h) + HDR \<le> p" "p + k \<le> brk_current (kbrk h)" using w b(2,3) by auto
  show "16 dvd p" unfolding b(2) [symmetric] by (intro dvd_add w(3)) simp
qed

end
