(* ===== verification/Allocator.thy ===== *)
theory Allocator
  imports CString
begin

text \<open>
  The contract between the allocator and the parts of the library that call it: string duplication,
  the environment, the scratch buffer of \<open>qsort\<close>, the blocks of exit handlers. A heap has a map from
  live pointers to sizes and a store; allocating adds one entry, releasing removes one, neither changes
  a byte, and different entries occupy disjoint ranges. The lemmas are what those callers need: a fresh
  range meets no older one, so filling it keeps every string of an older allocation, and a buffer that
  is allocated and released leaves the allocations as they were.
\<close>

locale allocator =
  fixes idle :: "'h \<Rightarrow> bool"
    and allocs :: "'h \<Rightarrow> nat \<Rightarrow> nat option"
    and cells :: "'h \<Rightarrow> mem"
    and put_cells :: "'h \<Rightarrow> mem \<Rightarrow> 'h"
    and alloc :: "'h \<Rightarrow> nat \<Rightarrow> (nat option \<times> 'h) option"
    and release :: "'h \<Rightarrow> nat option \<Rightarrow> 'h option"
    and limit :: nat
  assumes alloc_returns: "idle h \<Longrightarrow> n \<le> limit \<Longrightarrow> alloc h n \<noteq> None"
    and alloc_some: "idle h \<Longrightarrow> n \<le> limit \<Longrightarrow> alloc h n = Some (Some p, h') \<Longrightarrow>
      idle h' \<and> allocs h p = None \<and> cells h' = cells h \<and>
      (\<exists>k. n \<le> k \<and> 0 < k \<and> allocs h' = (allocs h)(p \<mapsto> k))"
    and alloc_fail: "idle h \<Longrightarrow> n \<le> limit \<Longrightarrow> alloc h n = Some (None, h') \<Longrightarrow>
      idle h' \<and> allocs h' = allocs h \<and> cells h' = cells h"
    and release_live: "idle h \<Longrightarrow> allocs h p \<noteq> None \<Longrightarrow>
      \<exists>h'. release h (Some p) = Some h' \<and> idle h' \<and> allocs h' = (allocs h)(p := None) \<and> cells h' = cells h"
    and disjoint: "idle h \<Longrightarrow> allocs h p = Some k \<Longrightarrow> allocs h q = Some l \<Longrightarrow> p \<noteq> q \<Longrightarrow>
      p + k \<le> q \<or> q + l \<le> p"
    and put_simps: "idle (put_cells h m) = idle h" "allocs (put_cells h m) = allocs h" "cells (put_cells h m) = m"
begin

lemma alloc_fresh:
  assumes "idle h" "n \<le> limit" "alloc h n = Some (Some p, h')" "allocs h q = Some l"
  shows "p + n \<le> q \<or> q + l \<le> p"
proof -
  obtain k where k: "n \<le> k" "allocs h' = (allocs h)(p \<mapsto> k)" "idle h'" "allocs h p = None"
    using alloc_some [OF assms(1-3)] by blast
  then have "p \<noteq> q" using assms(4) by auto
  then have "p + k \<le> q \<or> q + l \<le> p" using disjoint [of h' p k q l] k assms(4) by simp
  with k(1) show ?thesis by linarith
qed

text \<open>A string held by an older allocation survives filling the fresh range.\<close>

lemma fresh_keeps_strings:
  assumes "idle h" "n \<le> limit" "alloc h n = Some (Some p, h')" "length bs \<le> n"
    and "allocs h q = Some l" "q \<le> a" "a + length s < q + l" "cstr (cells h) a s"
  shows "cstr (store (cells h') p bs) a s"
proof -
  have eq: "cells h' = cells h" using alloc_some [OF assms(1-3)] by blast
  from alloc_fresh [OF assms(1-3,5)] assms(4,6,7)
  have "a + length s < p \<or> p + length bs \<le> a" by linarith
  then show ?thesis unfolding eq by (intro cstr_store_other [OF assms(8)]) auto
qed

text \<open>A buffer that is allocated, used and released.\<close>

lemma scratch_buffer:
  assumes "idle h" "n \<le> limit" "alloc h n = Some (Some p, h1)"
  shows "\<exists>h2. release (put_cells h1 m) (Some p) = Some h2 \<and> idle h2 \<and> allocs h2 = allocs h \<and> cells h2 = m"
proof -
  obtain k where k: "allocs h1 = (allocs h)(p \<mapsto> k)" "idle h1" "allocs h p = None"
    using alloc_some [OF assms] by blast
  then have "idle (put_cells h1 m)" "allocs (put_cells h1 m) p \<noteq> None" by (simp_all add: put_simps)
  from release_live [OF this] obtain h2 where h2: "release (put_cells h1 m) (Some p) = Some h2" "idle h2"
    "allocs h2 = (allocs h1)(p := None)" "cells h2 = m"
    by (auto simp: put_simps)
  moreover have "allocs h2 = allocs h" unfolding h2(3) k(1) using k(3) by auto
  ultimately show ?thesis by blast
qed

end

end
