(* ===== verification/Malloc_Spec.thy ===== *)
theory Malloc_Spec
  imports Malloc_Inv Allocator
begin

text \<open>
  What the entry points of \<open>malloc.c\<close> promise, over the map \<open>live_map\<close> from live pointers to
  the sizes of their blocks: each call on an idle heap either changes that map by exactly the entry it was
  asked for or leaves it alone, keeps the heap well formed and keeps the bytes of every other
  allocation. The locale \<open>allocator\<close> states the part of this that callers rely on.
\<close>

section \<open>Idle heaps\<close>

definition heap_quiet :: "heap \<Rightarrow> bool" where
  "heap_quiet h \<longleftrightarrow> heap_ok h \<and> heap_owner h = 0 \<and> (\<forall>p \<in> set (deferred h). p = 0)"

text \<open>Requests below this bound stay below \<open>2 ^ 63\<close> after rounding and the header.\<close>

abbreviation REQUEST_MAX :: nat where "REQUEST_MAX \<equiv> 9223372036854775808 - 128"

lemma want_bounds:
  assumes "sz \<le> REQUEST_MAX"
  shows "16 dvd align_up (if sz = 0 then 1 else sz)"
    "align_up (if sz = 0 then 1 else sz) + 64 \<le> 9223372036854775808"
    "sz \<le> align_up (if sz = 0 then 1 else sz)" "0 < align_up (if sz = 0 then 1 else sz)"
proof -
  let ?n = "if sz = 0 then 1 else sz"
  have "?n + 16 \<le> SIZE_MOD" using assms by auto
  note b = align_up_bounds [OF this]
  show "16 dvd align_up ?n" by (rule b(3))
  show "align_up ?n + 64 \<le> 9223372036854775808" using b(2) assms by (auto split: if_splits)
  show "sz \<le> align_up ?n" "0 < align_up ?n" using b(1) by (auto split: if_splits)
qed

lemma malloc_cases:
  assumes "heap_quiet h" "self \<noteq> 0" "sz \<le> REQUEST_MAX"
  obtains "malloc ok self h sz = Some (None, set_errno self ENOMEM h)"
  | p k h' where "malloc ok self h sz = Some (Some p, h')" "heap_quiet h'" "sz \<le> k" "0 < k"
    "live_map h' = (live_map h)(p \<mapsto> k)" "live_map h p = None" "hmem h' = hmem h"
    "brk_start (kbrk h') = brk_start (kbrk h)"
proof -
  have q: "heap_ok h" "heap_owner h = 0" "\<forall>p \<in> set (deferred h). p = 0"
    using assms(1) by (auto simp: heap_quiet_def)
  have lim: "\<not> SIZE_LIMIT < sz" using assms(3) by simp
  let ?w = "align_up (if sz = 0 then 1 else sz)" and ?h = "h\<lparr>heap_owner := self\<rparr>"
  note w = want_bounds [OF assms(3)]
  have acq: "heap_acquire self h = Some (True, ?h)" using q(2) assms(2) by (simp add: heap_acquire_def)
  have eq: "malloc ok self h sz =
     (let (p, h2) = malloc_locked ok ?w ?h; h3 = heap_release h2
      in Some (p, if p = None then set_errno self ENOMEM h3 else h3))"
    unfolding malloc_def Let_def acq using lim by simp
  have "heap_ok ?h" using q(1) by simp
  from this w(1,2) show thesis
  proof (cases rule: malloc_locked_cases [where ok = ok])
    case 1
    moreover have "heap_release ?h = h" using q(2,3) by (simp add: heap_release_empty)
    ultimately show thesis using eq by (intro that(1)) simp
  next
    case (2 p k bs kb)
    let ?h' = "h\<lparr>heap_owner := 0, kbrk := kb, blocks := bs\<rparr>"
    have "heap_release (?h\<lparr>kbrk := kb, blocks := bs\<rparr>) = ?h'"
      using q(3) by (simp add: heap_release_empty)
    with 2(1) eq have m: "malloc ok self h sz = Some (Some p, ?h')" by simp
    have ok': "heap_ok ?h'" using 2(2) by (simp add: heap_ok_def)
    have lm: "live_map ?h' = (live_map h)(p \<mapsto> k)" "live_map h p = None"
      using live_map_add [OF ok', of p k h] 2(4) by simp_all
    have "heap_quiet ?h'" using ok' q(3) by (simp add: heap_quiet_def)
    from that(2) [OF m this _ _ lm] 2(3,5) w(3,4) show thesis by simp
  qed
qed

lemma free_cases:
  assumes "heap_quiet h" "self \<noteq> 0"
  obtains "live_map h p = None"
    "free self h (Some p) = Some (h\<lparr>free_rejected := Suc (free_rejected h)\<rparr>)"
  | k h' where "live_map h p = Some k" "free self h (Some p) = Some h'" "heap_quiet h'"
    "live_map h' = (live_map h)(p := None)" "hmem h' = hmem h" "coalesced (blocks h')"
    "free_rejected h' = free_rejected h" "kbrk h' = kbrk h"
proof -
  have q: "heap_ok h" "heap_owner h = 0" "\<forall>p \<in> set (deferred h). p = 0"
    using assms(1) by (auto simp: heap_quiet_def)
  let ?h = "h\<lparr>heap_owner := self\<rparr>"
  have acq: "heap_acquire self h = Some (True, ?h)" using q(2) assms(2) by (simp add: heap_acquire_def)
  have eq: "free self h (Some p) = Some (heap_release (free_locked p ?h))"
    by (simp add: free_def acq)
  have "heap_ok ?h" using q(1) by simp
  then show thesis
  proof (cases rule: free_locked_cases [where p = p])
    case 1
    have "heap_release (free_locked p ?h) = h\<lparr>free_rejected := Suc (free_rejected h)\<rparr>"
      using 1(2) q(2,3) by (simp add: heap_release_empty)
    with eq 1(1) show thesis by (intro that(1)) (simp_all add: live_map_None_iff)
  next
    case (2 k bs)
    let ?h' = "h\<lparr>heap_owner := 0, blocks := bs\<rparr>"
    have "heap_release (free_locked p ?h) = ?h'" using 2(2) q(3) by (simp add: heap_release_empty)
    with eq have f: "free self h (Some p) = Some ?h'" by simp
    have ok': "heap_ok ?h'" using 2(3) by (simp add: heap_ok_def)
    have lm: "live_map h = (live_map ?h')(p \<mapsto> k)" "live_map ?h' p = None"
      using live_map_add [OF q(1), of p k ?h'] 2(1) by simp_all
    have "heap_quiet ?h'" using ok' q(3) by (simp add: heap_quiet_def)
    moreover have "live_map ?h' = (live_map h)(p := None)" unfolding lm(1) using lm(2) by auto
    moreover have "live_map h p = Some k" unfolding lm(1) by simp
    ultimately show thesis using that(2) [of k ?h'] f 2(4) by simp
  qed
qed

section \<open>Aligned allocation\<close>

text \<open>Where the aligned payload goes in a free block that starts at \<open>p\<close>.\<close>

definition aligned_start :: "nat \<Rightarrow> nat \<Rightarrow> nat" where
  "aligned_start align p =
     (let a0 = align_to align p in if a0 \<noteq> p \<and> usub a0 p < HDR then uadd a0 align else a0)"

lemma aligned_start:
  assumes "align = 2 ^ j" "32 \<le> align" "align \<le> 4611686018427387904" "p < 9223372036854775808"
  defines "a \<equiv> aligned_start align p"
  shows "align dvd a" "p \<le> a" "a = p \<or> p + HDR \<le> a" "a < p + align + HDR"
proof -
  define a0 where "a0 = (p + align - 1) div align * align"
  have a0: "align_to align p = a0" unfolding a0_def using assms by (intro align_to_pow2 [OF assms(1)]) simp
  have lt: "a0 \<le> p + align - 1" "p \<le> a0" "align dvd a0"
    unfolding a0_def using round_up_bounds [of align p] assms(2) by auto
  then have top: "a0 + align < SIZE_MOD" using assms(2-4) by linarith
  then have us: "usub a0 p = a0 - p" using lt by (intro usub_id) linarith+
  have ua: "uadd a0 align = a0 + align" using top by (rule uadd_id)
  have a: "a = (if a0 \<noteq> p \<and> a0 - p < HDR then a0 + align else a0)"
    unfolding a_def aligned_start_def a0 Let_def us ua by simp
  show "align dvd a" unfolding a using lt(3) by simp
  show "p \<le> a" "a = p \<or> p + HDR \<le> a" "a < p + align + HDR"
    unfolding a using lt assms(2) by (auto split: if_splits)
qed

text \<open>The pieces an aligned allocation makes of a free block.\<close>

definition aligned_cut :: "nat \<Rightarrow> nat \<Rightarrow> block \<Rightarrow> block list" where
  "aligned_cut a want b =
     (if a \<noteq> payload b
      then b\<lparr>bsize := usub (usub a (payload b)) HDR\<rparr> #
           take_block \<lparr>baddr = usub a HDR, bsize = usub (bsize b) (usub a (payload b)),
                       bfree = True, bmagic = BLOCK_MAGIC\<rparr> want
      else take_block b want)"

lemma aligned_cut_wf:
  assumes "block_ok b" "bfree b" "16 dvd want" "16 dvd a" "payload b \<le> a" "a = payload b \<or> payload b + HDR \<le> a"
    "a - payload b \<le> bsize b" "want \<le> bsize b - (a - payload b)"
  shows "wf_from (baddr b) (aligned_cut a want b) \<and> top_from (baddr b) (aligned_cut a want b) = block_end b \<and>
    (\<exists>k. live (aligned_cut a want b) = [(a, k)] \<and> want \<le> k)"
proof (cases "a = payload b")
  case True
  then show ?thesis using take_block_wf [OF assms(1,3)] assms(8) by (auto simp: aligned_cut_def)
next
  case False
  have sz: "block_end b < 9223372036854775808" using assms(1) by (simp add: block_ok_def)
  have u: "usub a (payload b) = a - payload b" "usub (a - payload b) HDR = a - payload b - HDR"
    "usub (bsize b) (a - payload b) = bsize b - (a - payload b)" "usub a HDR = a - HDR"
    using sz assms(5-7) False by (auto intro!: usub_id)
  let ?nb = "\<lparr>baddr = a - HDR, bsize = bsize b - (a - payload b), bfree = True, bmagic = BLOCK_MAGIC\<rparr>"
  have d: "16 dvd a - payload b" "16 dvd bsize b" "16 dvd baddr b"
    using assms(1,4) by (simp_all add: block_ok_def dvd_diff_nat)
  have nb: "block_ok ?nb" using assms(4-7) sz d by (auto simp: block_ok_def dvd_diff_nat)
  have w: "want \<le> bsize ?nb" using assms(8) by simp
  note t = take_block_wf [OF nb assms(3) w]
  have ad: "payload ?nb = a" "block_end ?nb = block_end b" using assms(5-7) False by auto
  have c: "aligned_cut a want b = b\<lparr>bsize := a - payload b - HDR\<rparr> # take_block ?nb want"
    unfolding aligned_cut_def u using False by simp
  have e: "block_end (b\<lparr>bsize := a - payload b - HDR\<rparr>) = baddr ?nb" using assms(5,6) False by simp
  have "16 dvd a - payload b - HDR" by (intro dvd_diff_nat d(1)) simp
  then have "wf_from (baddr b) (aligned_cut a want b)"
    using t(1) assms(1) e unfolding c by (simp add: block_ok_def)
  moreover have "top_from (baddr b) (aligned_cut a want b) = block_end b"
    using t(2) ad(2) e unfolding c by simp
  moreover have "\<exists>k. live (aligned_cut a want b) = [(a, k)] \<and> want \<le> k"
    using t(3) assms(2) unfolding c ad(1) by auto
  ultimately show ?thesis by blast
qed

lemma aligned_fit_Cons:
  "aligned_fit align want (b # bs) =
     (let a = aligned_start align (payload b) in
      if \<not> bfree b \<or> a < payload b \<or> usub a (payload b) > bsize b \<or>
         usub (bsize b) (usub a (payload b)) < want
      then map_option (\<lambda>(q, bs'). (q, b # bs')) (aligned_fit align want bs)
      else Some (if a \<noteq> payload b then usub a HDR + HDR else payload b, aligned_cut a want b @ bs))"
  by (simp add: aligned_start_def aligned_cut_def Let_def)

declare aligned_fit.simps(2) [simp del]

text \<open>The test of the loop, once nothing wraps.\<close>

definition fits_aligned :: "nat \<Rightarrow> nat \<Rightarrow> block \<Rightarrow> bool" where
  "fits_aligned align want b \<longleftrightarrow>
     bfree b \<and> aligned_start align (payload b) - payload b \<le> bsize b \<and>
     want \<le> bsize b - (aligned_start align (payload b) - payload b)"

lemma aligned_fit_step:
  assumes "align = 2 ^ j" "32 \<le> align" "align \<le> 4611686018427387904" "block_ok b"
  shows "aligned_fit align want (b # bs) =
     (if fits_aligned align want b
      then Some (aligned_start align (payload b), aligned_cut (aligned_start align (payload b)) want b @ bs)
      else map_option (\<lambda>(q, bs'). (q, b # bs')) (aligned_fit align want bs))"
proof -
  let ?a = "aligned_start align (payload b)"
  have sz: "payload b < 9223372036854775808" "bsize b < SIZE_MOD"
    using assms(4) unfolding block_ok_def by linarith+
  note a = aligned_start [OF assms(1-3) sz(1)]
  have lt: "?a < SIZE_MOD" using a(4) sz assms(3) by linarith
  have u: "usub ?a (payload b) = ?a - payload b" using a(2) lt by simp
  have v: "usub (bsize b) (?a - payload b) = bsize b - (?a - payload b)" if "?a - payload b \<le> bsize b"
    using that sz by simp
  have h: "usub ?a HDR + HDR = ?a" if "?a \<noteq> payload b"
    using that a(3) lt by auto
  show ?thesis
    unfolding aligned_fit_Cons fits_aligned_def Let_def u using a(2) v h
    by (auto simp: not_le not_less)
qed

lemma aligned_fit_SomeD:
  assumes "align = 2 ^ j" "32 \<le> align" "align \<le> 4611686018427387904"
    and "\<forall>b \<in> set bs. block_ok b" "16 dvd want" "aligned_fit align want bs = Some (p, bs')"
  shows "\<exists>pre b post cs k. bs = pre @ b # post \<and> bs' = pre @ cs @ post \<and> bfree b \<and>
    wf_from (baddr b) cs \<and> top_from (baddr b) cs = block_end b \<and> live cs = [(p, k)] \<and> want \<le> k \<and> align dvd p"
  using assms(4,6)
proof (induction bs arbitrary: bs')
  case (Cons x xs)
  have x: "block_ok x" using Cons.prems(1) by simp
  show ?case
  proof (cases "fits_aligned align want x")
    case True
    let ?a = "aligned_start align (payload x)"
    have "payload x < 9223372036854775808" using x unfolding block_ok_def by linarith
    note a = aligned_start [OF assms(1-3) this]
    have "16 dvd align"
    proof -
      have "(2::nat) ^ 4 \<le> 2 ^ j" using assms(1,2) by simp
      then have "4 \<le> j" by (simp only: power_increasing_iff)
      then show ?thesis unfolding assms(1) using le_imp_power_dvd [of 4 j "2::nat"] by simp
    qed
    then have "16 dvd ?a" using a(1) dvd_trans by blast
    from aligned_cut_wf [OF x _ assms(5) this a(2,3)] True
    obtain k where "wf_from (baddr x) (aligned_cut ?a want x)"
      "top_from (baddr x) (aligned_cut ?a want x) = block_end x"
      "live (aligned_cut ?a want x) = [(?a, k)]" "want \<le> k"
      by (auto simp: fits_aligned_def)
    moreover have "p = ?a" "bs' = aligned_cut ?a want x @ xs"
      using Cons.prems(2) True by (auto simp: aligned_fit_step [OF assms(1-3) x])
    ultimately show ?thesis using a(1) True
      by (intro exI [of _ "[]"] exI [of _ x] exI [of _ xs] exI [of _ "aligned_cut ?a want x"] exI [of _ k])
        (simp add: fits_aligned_def)
  next
    case False
    with Cons.prems(2) obtain ys where "aligned_fit align want xs = Some (p, ys)" "bs' = x # ys"
      by (auto simp: aligned_fit_step [OF assms(1-3) x])
    with Cons.IH [of ys] Cons.prems(1) show ?thesis by (auto, metis append_Cons)
  qed
qed simp

text \<open>A block grown for an aligned request has room for it.\<close>

lemma aligned_fit_last:
  assumes "align = 2 ^ j" "32 \<le> align" "align \<le> 4611686018427387904"
    and "\<forall>b \<in> set (bs @ [g]). block_ok b" "bfree g" "want + align + HDR \<le> bsize g"
  shows "aligned_fit align want (bs @ [g]) \<noteq> None"
  using assms(4)
proof (induction bs)
  case Nil
  then have g: "block_ok g" by simp
  then have "payload g < 9223372036854775808" unfolding block_ok_def by linarith
  from aligned_start(2,4) [OF assms(1-3) this] assms(5,6) have "fits_aligned align want g"
    by (auto simp: fits_aligned_def)
  then show ?case by (simp add: aligned_fit_step [OF assms(1-3) g])
next
  case (Cons x xs)
  then have "block_ok x" by simp
  with Cons show ?case by (auto simp: aligned_fit_step [OF assms(1-3)])
qed

text \<open>An aligned request fails only when the heap cannot grow.\<close>

lemma aligned_fit_heap:
  assumes "align = 2 ^ j" "32 \<le> align" "align \<le> 4611686018427387904"
    and "heap_ok h" "16 dvd want" "aligned_fit align want (blocks h) = Some (p, bs)"
  shows "heap_ok (h\<lparr>blocks := bs\<rparr>) \<and> align dvd p \<and>
    (\<exists>k. want \<le> k \<and> mset (live bs) = add_mset (p, k) (mset (live (blocks h))))"
proof -
  have "\<forall>b \<in> set (blocks h). block_ok b" using heap_ok_block [OF assms(4)] by blast
  from aligned_fit_SomeD [OF assms(1-3) this assms(5,6)]
  obtain pre b post cs k where f: "blocks h = pre @ b # post" "bs = pre @ cs @ post" "bfree b"
    "wf_from (baddr b) cs" "top_from (baddr b) cs = block_end b" "live cs = [(p, k)]" "want \<le> k" "align dvd p"
    by blast
  have "heap_ok (h\<lparr>blocks := bs\<rparr>)" unfolding f(2) using f(5) by (intro heap_ok_replace [OF assms(4) f(1,4)]) simp
  with f show ?thesis by auto
qed

lemma aligned_locked_cases:
  assumes "align = 2 ^ j" "32 \<le> align" "align \<le> 4611686018427387904"
    and "heap_ok h" "16 dvd want" "want + align + 96 \<le> 9223372036854775808"
  obtains "aligned_locked ok align want h = (None, h)"
    "fst (grow ok (want + align + HDR) h) = None"
  | p k bs kb where "aligned_locked ok align want h = (Some p, h\<lparr>kbrk := kb, blocks := bs\<rparr>)"
    "heap_ok (h\<lparr>kbrk := kb, blocks := bs\<rparr>)" "want \<le> k" "align dvd p"
    "mset (live bs) = add_mset (p, k) (mset (live (blocks h)))"
    "brk_start kb = brk_start (kbrk h)"
proof (cases "aligned_fit align want (blocks h)")
  case (Some r)
  obtain p bs where r: "r = (p, bs)" by force
  have "aligned_locked ok align want h = (Some p, h\<lparr>kbrk := kbrk h, blocks := bs\<rparr>)"
    using Some r by (simp add: aligned_locked_def)
  with aligned_fit_heap [OF assms(1-5), of p bs] Some r that(2) [where p = p and kb = "kbrk h" and bs = bs] show thesis by auto
next
  case None
  have d: "16 dvd want + align + HDR"
  proof -
    have "(2::nat) ^ 4 \<le> 2 ^ j" using assms(1,2) by simp
    then have "4 \<le> j" by (simp only: power_increasing_iff)
    then have "16 dvd align" unfolding assms(1) using le_imp_power_dvd [of 4 j "2::nat"] by simp
    then show ?thesis using assms(5) by (intro dvd_add) simp_all
  qed
  have lim: "want + align + HDR + 64 \<le> 9223372036854775808" using assms(6) by simp
  have u: "uadd (uadd want align) HDR = want + align + HDR" using assms(6) by simp
  from assms(4) d lim show thesis
  proof (cases rule: grow_cases [where ok = ok])
    case 1
    with None that(1) show thesis by (simp add: aligned_locked_def u)
  next
    case (2 g kb)
    let ?h = "h\<lparr>kbrk := kb, blocks := blocks h @ [g]\<rparr>"
    have "\<forall>b \<in> set (blocks h @ [g]). block_ok b" using heap_ok_block [OF 2(2)] by simp
    from aligned_fit_last [OF assms(1-3) this 2(3,4)]
    obtain p bs where f: "aligned_fit align want (blocks ?h) = Some (p, bs)" by auto
    from aligned_fit_heap [OF assms(1-3) 2(2) assms(5) f] obtain k where
      "heap_ok (?h\<lparr>blocks := bs\<rparr>)" "align dvd p" "want \<le> k"
      "mset (live bs) = add_mset (p, k) (mset (live (blocks ?h)))" by blast
    moreover have "aligned_locked ok align want h = (Some p, h\<lparr>kbrk := kb, blocks := bs\<rparr>)"
      using None 2(1) f by (simp add: aligned_locked_def u)
    ultimately show thesis using that(2) [where p = p and kb = kb and bs = bs and k = k] 2(3,5) by simp
  qed
qed

section \<open>Resizing\<close>

lemma avail_scan_cong:
  "block_end b = block_end c \<Longrightarrow> avail_scan want av b ns = avail_scan want av c ns"
  by (cases ns) (simp_all add: adjacent_def)

lemma avail_scan_dvd:
  "wf_from (block_end b) ns \<Longrightarrow> top_from (block_end b) ns < 9223372036854775808 \<Longrightarrow> av \<le> block_end b \<Longrightarrow>
     16 dvd av \<Longrightarrow> 16 dvd fst (avail_scan want av b ns) \<and> fst (avail_scan want av b ns) < 9223372036854775808"
proof (induction ns arbitrary: av b)
  case (Cons n ns)
  show ?case
  proof (cases "bfree n \<and> adjacent b n \<and> av < want")
    case True
    have "block_end n \<le> top_from (block_end n) ns" using Cons.prems(1) by (intro top_from_ge) simp
    then have "block_end n < 9223372036854775808" using Cons.prems(2) by simp
    moreover have le: "av + (HDR + bsize n) \<le> block_end n"
      using True Cons.prems(3) by (simp add: adjacent_def)
    ultimately have u: "uadd av (HDR + bsize n) = av + (HDR + bsize n)"
      by (intro uadd_id) linarith
    have "16 dvd av + (HDR + bsize n)" using Cons.prems(1,4) by (intro dvd_add) simp_all
    with Cons.IH [of n "av + (HDR + bsize n)"] Cons.prems u le True show ?thesis by simp
  qed (use Cons.prems top_from_ge [of "block_end b" "n # ns"] in auto)
qed auto

text \<open>Absorbing what the scan counted: the block grows over the free ones behind it, nothing else moves.\<close>

definition absorbed :: "block \<Rightarrow> block list \<Rightarrow> block \<Rightarrow> block list \<Rightarrow> bool" where
  "absorbed b post b' post' \<longleftrightarrow>
     baddr b' = baddr b \<and> bfree b' = bfree b \<and> bmagic b' = bmagic b \<and> 16 dvd bsize b' \<and>
     bsize b \<le> bsize b' \<and> wf_from (block_end b') post' \<and>
     top_from (block_end b') post' = top_from (block_end b) post \<and> live post' = live post"

lemma absorb_scan:
  "wf_from (block_end b) post \<Longrightarrow> top_from (block_end b) post < 9223372036854775808 \<Longrightarrow> 16 dvd bsize b \<Longrightarrow>
     want \<le> fst (avail_scan want (bsize b) b post) \<Longrightarrow> absorb want b post = (b', post') \<Longrightarrow>
     want \<le> bsize b' \<and> absorbed b post b' post'"
proof (induction post arbitrary: b)
  case Nil
  then show ?case by (simp add: absorbed_def)
next
  case (Cons n ns)
  show ?case
  proof (cases "bsize b < want")
    case True
    then have n: "bfree n" "adjacent b n" using Cons.prems(4) by (auto split: if_splits)
    have "block_end n \<le> top_from (block_end n) ns" using Cons.prems(1) by (intro top_from_ge) simp
    then have "block_end n < SIZE_MOD" using Cons.prems(2) by simp
    then have sz: "bsize (swallow b n) = bsize b + (HDR + bsize n)"
      using n by (simp add: swallow_def adjacent_def)
    then have e: "block_end (swallow b n) = block_end n"
      using n by (simp add: swallow_def adjacent_def)
    have "fst (avail_scan want (bsize (swallow b n)) (swallow b n) ns) = fst (avail_scan want (bsize b) b (n # ns))"
      using n True sz avail_scan_cong [OF e] by (simp add: swallow_def)
    moreover have "16 dvd bsize (swallow b n)"
      unfolding sz using Cons.prems(1,3) by (intro dvd_add) simp_all
    ultimately have "want \<le> bsize b' \<and> absorbed (swallow b n) ns b' post'"
      using Cons.IH [of "swallow b n"] Cons.prems n True unfolding e by simp
    then show ?thesis unfolding absorbed_def e using n sz by (auto simp: swallow_def)
  next
    case False
    with Cons.prems show ?thesis by (auto simp: absorbed_def)
  qed
qed

lemma absorbed_heap:
  assumes "heap_ok (h\<lparr>blocks := pre @ b # post\<rparr>)" "absorbed b post b' post'"
  shows "heap_ok (h\<lparr>blocks := pre @ b' # post'\<rparr>)"
  using assms by (auto simp: heap_ok_def absorbed_def)

lemma heap_ok_absorb:
  assumes "heap_ok (h\<lparr>blocks := pre @ b # post\<rparr>)" "want \<le> fst (avail_scan want (bsize b) b post)"
    "absorb want b post = (b', post')"
  shows "heap_ok (h\<lparr>blocks := pre @ b' # post'\<rparr>)" "want \<le> bsize b'" "absorbed b post b' post'"
proof -
  have "wf_from (block_end b) post" "top_from (block_end b) post < 9223372036854775808" "16 dvd bsize b"
    using assms(1) by (auto simp: heap_ok_def)
  from absorb_scan [OF this assms(2,3)] absorbed_heap [OF assms(1)]
  show "heap_ok (h\<lparr>blocks := pre @ b' # post'\<rparr>)" "want \<le> bsize b'" "absorbed b post b' post'" by auto
qed

text \<open>The outcome of the two tries: the block reaches the wanted size, or it is as before; in both cases
  the other live blocks are as before.\<close>

definition extended :: "nat \<Rightarrow> block list \<Rightarrow> block \<Rightarrow> block list \<Rightarrow> heap \<Rightarrow> block \<Rightarrow> block list \<Rightarrow> heap \<Rightarrow> bool" where
  "extended want pre b post h b' post' h1 \<longleftrightarrow>
     heap_ok (h1\<lparr>blocks := pre @ b' # post'\<rparr>) \<and> (want \<le> bsize b' \<or> b' = b) \<and>
     baddr b' = baddr b \<and> bfree b' = bfree b \<and> live post' = live post \<and>
     h1 = h\<lparr>kbrk := kbrk h1, blocks := blocks h1\<rparr> \<and> brk_start (kbrk h1) = brk_start (kbrk h)"

lemma extend_absorb:
  assumes "heap_ok (h1\<lparr>blocks := pre @ b # post1\<rparr>)" "want \<le> fst (avail_scan want (bsize b) b post1)"
    "live post1 = live post" "h1 = h\<lparr>kbrk := kbrk h1, blocks := blocks h1\<rparr>"
    "brk_start (kbrk h1) = brk_start (kbrk h)" "absorb want b post1 = (b', post')"
  shows "extended want pre b post h b' post' h1"
  using heap_ok_absorb [OF assms(1,2,6)] assms(3-5) by (simp add: extended_def absorbed_def)

lemma extend_extended:
  assumes "heap_ok h" "blocks h = pre @ b # post" "16 dvd want" "want + 64 \<le> 9223372036854775808"
    "extend ok want b post h = ((b', post'), h1)"
  shows "extended want pre b post h b' post' h1"
proof -
  obtain av at_end where av: "avail_scan want (bsize b) b post = (av, at_end)" by force
  have h: "heap_ok (h\<lparr>blocks := pre @ b # post\<rparr>)" using assms(1,2) by (metis heap.surjective heap.update_convs(1))
  have wf: "wf_from (block_end b) post" "top_from (block_end b) post < 9223372036854775808" "16 dvd bsize b"
    using h by (auto simp: heap_ok_def)
  have d: "16 dvd av" using avail_scan_dvd [OF wf(1,2) _ wf(3), of want] av by simp
  consider "want \<le> av" | "av < want" "\<not> at_end" | "av < want" "at_end" by linarith
  then show ?thesis
  proof cases
    case 1
    then have "absorb want b post = (b', post')" "h1 = h" using assms(5) av by (simp_all add: extend_def)
    with extend_absorb [OF h, of want post h b' post'] 1 av show ?thesis by simp
  next
    case 2
    then show ?thesis using assms(5) av h by (simp add: extend_def extended_def)
  next
    case 3
    have av_lt: "av < SIZE_MOD" "want < SIZE_MOD" using assms(4) 3(1) by linarith+
    have u: "usub want av = want - av" using 3(1) av_lt by simp
    have gd: "16 dvd want - av" "want - av + 64 \<le> 9223372036854775808"
      using assms(3,4) d by (auto simp: dvd_diff_nat)
    from assms(1) gd show ?thesis
    proof (cases rule: grow_cases [where ok = ok])
      case 1
      then show ?thesis using assms(5) av h 3 u by (simp add: extend_def extended_def)
    next
      case (2 g kb)
      let ?h = "h\<lparr>kbrk := kb, blocks := blocks h @ [g]\<rparr>"
      have h': "heap_ok (?h\<lparr>blocks := pre @ b # (post @ [g])\<rparr>)" using 2(2) assms(2) by simp
      have lg: "live (post @ [g]) = live post" using 2(3) by simp
      show ?thesis
      proof (cases "want \<le> fst (avail_scan want (bsize b) b (post @ [g]))")
        case True
        then have "absorb want b (post @ [g]) = (b', post')" "h1 = ?h"
          using assms(5) av 3 u 2(1) by (simp_all add: extend_def)
        with extend_absorb [OF h' True lg, of h] 2(5) show ?thesis by simp
      next
        case False
        then have "b' = b" "post' = post @ [g]" "h1 = ?h" using assms(5) av 3 u 2(1) by (simp_all add: extend_def)
        with h' lg 2(5) show ?thesis by (simp add: extended_def)
      qed
    qed
  qed
qed

text \<open>The effect of resizing the allocation at \<open>p\<close>, of \<open>k0\<close> bytes: \<open>q\<close> takes its place, the first
  bytes are carried over and no byte outside the new allocation changes.\<close>

definition resized :: "nat \<Rightarrow> nat \<Rightarrow> nat \<Rightarrow> nat \<Rightarrow> heap \<Rightarrow> heap \<Rightarrow> bool" where
  "resized p k0 q k h h' \<longleftrightarrow>
     (\<exists>rest. mset (live (blocks h)) = add_mset (p, k0) rest \<and>
             mset (live (blocks h')) = add_mset (q, k) rest) \<and>
     (\<forall>i < min k0 k. hmem h' (q + i) = hmem h (p + i)) \<and>
     (\<forall>a. (a < q \<or> q + k \<le> a) \<longrightarrow> hmem h' a = hmem h a)"

lemma split_heap:
  assumes "heap_ok (h\<lparr>blocks := pre @ b # post\<rparr>)" "\<not> bfree b" "16 dvd want" "want \<le> bsize b"
  obtains k where "heap_ok (h\<lparr>blocks := coalesce (pre @ split b want @ post)\<rparr>)" "want \<le> k"
    "mset (live (coalesce (pre @ split b want @ post))) = add_mset (payload b, k) (mset (live (pre @ post)))"
proof -
  have b: "block_ok b" using heap_ok_block [OF assms(1)] by simp
  note s = split_wf [OF b assms(3,4)]
  obtain b' rest where s3: "split b want = b' # rest" "baddr b' = baddr b" "bfree b' = bfree b"
    "want \<le> bsize b'" "live rest = []" using s(3) by blast
  have "heap_ok (h\<lparr>blocks := pre @ b # post, blocks := pre @ split b want @ post\<rparr>)"
    by (rule heap_ok_replace [OF assms(1) _ s(1)]) (simp, rule eq_refl [OF s(2)])
  then have ok: "heap_ok (h\<lparr>blocks := pre @ split b want @ post\<rparr>)" by simp
  have "mset (live (coalesce (pre @ split b want @ post))) =
      add_mset (payload b, bsize b') (mset (live (pre @ post)))"
    unfolding heap_ok_coalesce(2) [OF ok] using s3 assms(2) by simp
  with heap_ok_coalesce(1) [OF ok] s3(4) show thesis using that by blast
qed

lemma two_live_disjoint:
  assumes "heap_ok h" "mset (live (blocks h)) = add_mset (p, k) (add_mset (q, l) rest)"
  shows "p + k \<le> q \<or> q + l \<le> p"
proof -
  have s: "(p, k) \<in> set (live (blocks h))" "(q, l) \<in> set (live (blocks h))"
    using assms(2) by (metis set_mset_mset union_single_eq_member add_mset_commute)+
  obtain xs where "mset xs = rest" using ex_mset by blast
  then have "mset (map fst (live (blocks h))) = mset (p # q # map fst xs)"
    using assms(2) by simp
  with heap_ok_distinct [OF assms(1)] have "distinct (p # q # map fst xs)"
    by (metis mset_eq_imp_distinct_iff)
  then have "p \<noteq> q" by simp
  then show ?thesis
    using live_map_disjoint [OF assms(1)] s heap_ok_distinct [OF assms(1)] by (simp add: live_map_def)
qed

lemma move_resized:
  assumes "heap_ok (h\<lparr>blocks := bs0\<rparr>)" "mset (live bs0) = add_mset (p, k0) rest" "heap_ok h2"
    "mset (live (blocks h2)) = add_mset (q, k) (mset (live bs0))" "hmem h2 = hmem h" "k0 \<le> k"
    "live bs0 = live (blocks h)"
  defines "h3 \<equiv> h2\<lparr>hmem := snd (memcpy (hmem h2) q p k0)\<rparr>"
  shows "heap_ok (free_locked p h3) \<and> resized p k0 q k h (free_locked p h3)"
proof -
  have dis: "q + k \<le> p \<or> p + k0 \<le> q"
    using two_live_disjoint [OF assms(3), of q k p k0 rest] assms(2,4) by simp
  then have mem: "hmem h3 a = (if q \<le> a \<and> a < q + k0 then hmem h (p + (a - q)) else hmem h a)" for a
    unfolding h3_def memcpy_def using assms(5,6) by (auto simp: copy_up_at)
  have ok: "heap_ok h3" using assms(3) by (simp add: h3_def)
  have l3: "mset (live (blocks h3)) = add_mset (p, k0) (add_mset (q, k) rest)"
    using assms(2,4) by (simp add: h3_def)
  have dist: "distinct (map fst (live (blocks h3)))" by (rule heap_ok_distinct [OF ok])
  from ok show ?thesis
  proof (cases rule: free_locked_cases [where p = p])
    case 1
    then show ?thesis using l3 by (metis fst_conv imageI set_mset_mset union_single_eq_member)
  next
    case (2 k1 bs)
    have "(p, k1) \<in> set (live (blocks h3))" "(p, k0) \<in> set (live (blocks h3))"
      using l3 2(1) by (metis set_mset_mset union_single_eq_member)+
    then have "k1 = k0" using dist by (metis eq_key_imp_eq_value)
    then have lb: "mset (live bs) = add_mset (q, k) rest" using 2(1) l3 by simp
    have "resized p k0 q k h (h3\<lparr>blocks := bs\<rparr>)"
      unfolding resized_def using lb assms(2,6,7) mem by (auto intro!: exI [of _ rest])
    then show ?thesis using 2(2,3) by simp
  qed
qed

text \<open>What the calls under the lock leave alone.\<close>

definition same_rest :: "heap \<Rightarrow> heap \<Rightarrow> bool" where
  "same_rest h h' \<longleftrightarrow> heap_owner h' = heap_owner h \<and> deferred h' = deferred h \<and> herrno h' = herrno h \<and>
     deferred_leaked h' = deferred_leaked h \<and> brk_start (kbrk h') = brk_start (kbrk h)"

lemma free_locked_same_rest [simp]: "same_rest h (free_locked p h)"
  by (simp add: same_rest_def free_locked_def split: option.splits)

lemma extended_rest:
  assumes "extended want pre b post h b' post' h1"
  shows "hmem h1 = hmem h" "same_rest h h1"
proof -
  obtain kb bs where "h1 = h\<lparr>kbrk := kb, blocks := bs\<rparr>" "brk_start kb = brk_start (kbrk h)"
    using assms unfolding extended_def by metis
  then show "hmem h1 = hmem h" "same_rest h h1" by (simp_all add: same_rest_def)
qed

lemma realloc_locked_cases:
  assumes "heap_ok h" "16 dvd want" "want + 64 \<le> 9223372036854775808"
  obtains "p \<notin> fst ` set (live (blocks h))"
    "realloc_locked ok p want h = (None, EINVAL, h\<lparr>free_rejected := Suc (free_rejected h)\<rparr>)"
  | h' where "p \<in> fst ` set (live (blocks h))" "realloc_locked ok p want h = (None, ENOMEM, h')"
    "heap_ok h'" "live (blocks h') = live (blocks h)" "hmem h' = hmem h" "same_rest h h'"
  | k0 q k h' where "realloc_locked ok p want h = (Some q, 0, h')" "heap_ok h'" "want \<le> k"
    "resized p k0 q k h h'" "same_rest h h'"
proof (cases "find_live p h")
  case None
  with find_live_None_iff [OF assms(1)] that(1) show thesis by (simp add: realloc_locked_def)
next
  case (Some r)
  obtain pre b post where r: "r = (pre, b, post)" by (cases r) auto
  have b: "blocks h = pre @ b # post" "payload b = p" "\<not> bfree b" using find_live_SomeD Some r by blast+
  obtain b' post' h1 where e:
    "(if bsize b < want then extend ok want b post h else ((b, post), h)) = ((b', post'), h1)"
    by (metis prod.exhaust)
  have h: "heap_ok (h\<lparr>blocks := pre @ b # post\<rparr>)" using assms(1) b(1) by (metis heap.surjective heap.update_convs(1))
  have ex: "extended want pre b post h b' post' h1"
  proof (cases "bsize b < want")
    case True
    then show ?thesis using extend_extended [OF assms(1) b(1) assms(2,3)] e by simp
  qed (use e h in \<open>simp add: extended_def\<close>)
  then have x: "heap_ok (h1\<lparr>blocks := pre @ b' # post'\<rparr>)" "want \<le> bsize b' \<or> b' = b" "baddr b' = baddr b"
    "\<not> bfree b'" "live post' = live post" "hmem h1 = hmem h" "same_rest h h1"
    using b(3) extended_rest [OF ex] by (simp_all add: extended_def)
  have l: "mset (live (blocks h)) = add_mset (p, bsize b) (mset (live (pre @ post)))" using b by simp
  show thesis
  proof (cases "want \<le> bsize b'")
    case True
    let ?h' = "h1\<lparr>blocks := coalesce (pre @ split b' want @ post')\<rparr>"
    have res: "realloc_locked ok p want h = (Some p, 0, ?h')"
      using Some r e True by (simp add: realloc_locked_def)
    from x(1,4) assms(2) True obtain k where k: "heap_ok ?h'" "want \<le> k"
      "mset (live (blocks ?h')) = add_mset (payload b', k) (mset (live (pre @ post')))"
      by (rule split_heap) simp
    then have "resized p (bsize b) p k h ?h'"
      unfolding resized_def using l x(3,5,6) b(2) by auto
    moreover have "same_rest h ?h'" using x(7) by (simp add: same_rest_def)
    ultimately show thesis using res k(1,2) that(3) by blast
  next
    case False
    then have bb: "b' = b" using x(2) by simp
    let ?h1 = "h1\<lparr>blocks := pre @ b # post'\<rparr>"
    have l1: "live (blocks ?h1) = live (blocks h)" using x(5) b(1) by simp
    have ok1: "heap_ok ?h1" using x(1) bb by simp
    have lock: "realloc_locked ok p want h =
       (case malloc_locked ok want ?h1 of (None, h2) \<Rightarrow> (None, ENOMEM, h2)
        | (Some np, h2) \<Rightarrow> (Some np, 0, free_locked p (h2\<lparr>hmem := snd (memcpy (hmem h2) np p (bsize b))\<rparr>)))"
      using Some r e False bb by (simp add: realloc_locked_def)
    from ok1 assms(2,3) show thesis
    proof (cases rule: malloc_locked_cases [where ok = ok])
      case 1
      have "p \<in> fst ` set (live (blocks h))" using b by force
      moreover have "realloc_locked ok p want h = (None, ENOMEM, ?h1)" using 1 lock by simp
      moreover have "same_rest h ?h1" "hmem ?h1 = hmem h" using x(6,7) by (simp_all add: same_rest_def)
      ultimately show thesis using ok1 l1 that(2) by blast
    next
      case (2 q k bs kb)
      let ?h2 = "?h1\<lparr>kbrk := kb, blocks := bs\<rparr>"
      let ?h3 = "?h2\<lparr>hmem := snd (memcpy (hmem ?h2) q p (bsize b))\<rparr>"
      have "heap_ok (free_locked p ?h3) \<and> resized p (bsize b) q k h (free_locked p ?h3)"
        using move_resized [where h = h and ?bs0.0 = "blocks h" and p = p and ?k0.0 = "bsize b"
            and rest = "mset (live (pre @ post))" and ?h2.0 = ?h2 and q = q and k = k]
          h l b(1) 2(2,3,4) l1 x(6) False bb by simp
      moreover have "same_rest h (free_locked p ?h3)"
        using x(7) 2(5) free_locked_same_rest [of ?h3 p] by (simp add: same_rest_def)
      moreover have "realloc_locked ok p want h = (Some q, 0, free_locked p ?h3)"
        using lock 2(1) by simp
      ultimately show thesis using 2(3) that(3) by blast
    qed
  qed
qed

lemma heap_quietD:
  assumes "heap_quiet h"
  shows "heap_ok h" "heap_owner h = 0" "\<forall>p \<in> set (deferred h). p = 0"
  using assms by (auto simp: heap_quiet_def)

lemma resized_live_map:
  assumes "heap_ok h" "heap_ok h'" "resized p k0 q k h h'"
  shows "live_map h p = Some k0" "live_map h' = (live_map h)(p := None, q \<mapsto> k)"
    "q = p \<or> live_map h q = None"
proof -
  obtain rest where r: "mset (live (blocks h)) = add_mset (p, k0) rest"
    "mset (live (blocks h')) = add_mset (q, k) rest" using assms(3) by (auto simp: resized_def)
  obtain xs where xs: "mset xs = rest" using ex_mset by blast
  have h: "live_map h = (map_of xs)(p \<mapsto> k0)"
    unfolding live_map_def using map_of_mset_eq [OF heap_ok_distinct [OF assms(1)], of "(p, k0) # xs"] r(1) xs by simp
  have h': "live_map h' = (map_of xs)(q \<mapsto> k)"
    unfolding live_map_def using map_of_mset_eq [OF heap_ok_distinct [OF assms(2)], of "(q, k) # xs"] r(2) xs by simp
  have "mset (map fst (live (blocks h))) = mset (p # map fst xs)"
    "mset (map fst (live (blocks h'))) = mset (q # map fst xs)" using r xs by simp_all
  with heap_ok_distinct assms(1,2) have "distinct (p # map fst xs)" "distinct (q # map fst xs)"
    by (metis mset_eq_imp_distinct_iff)+
  then have n: "map_of xs p = None" "map_of xs q = None" by (auto simp: map_of_eq_None_iff)
  show "live_map h p = Some k0" "live_map h' = (live_map h)(p := None, q \<mapsto> k)"
    "q = p \<or> live_map h q = None" unfolding h h' using n by auto
qed

lemma realloc_cases:
  assumes "heap_quiet h" "self \<noteq> 0" "0 < sz" "sz \<le> REQUEST_MAX" "live_map h p = Some k0"
  obtains h' where "realloc ok self h (Some p) sz = Some (None, h')" "heap_quiet h'"
    "live_map h' = live_map h" "hmem h' = hmem h"
  | q k h' where "realloc ok self h (Some p) sz = Some (Some q, h')" "heap_quiet h'" "sz \<le> k"
    "live_map h' = (live_map h)(p := None, q \<mapsto> k)" "q = p \<or> live_map h q = None"
    "\<forall>i < min k0 k. hmem h' (q + i) = hmem h (p + i)"
    "\<forall>a. (a < q \<or> q + k \<le> a) \<longrightarrow> hmem h' a = hmem h a"
proof -
  note quiet = heap_quietD [OF assms(1)]
  let ?h = "h\<lparr>heap_owner := self\<rparr>" and ?w = "align_up sz"
  note w = want_bounds [OF assms(4)]
  have "(if sz = 0 then 1 else sz) = sz" using assms(3) by simp
  note w = w [unfolded this]
  have acq: "heap_acquire self h = Some (True, ?h)"
    using quiet(2) assms(2) by (simp add: heap_acquire_def)
  have eq: "realloc ok self h (Some p) sz =
    (let (q, err, h2) = realloc_locked ok p ?w ?h; h3 = heap_release h2
     in Some (q, if q = None then set_errno self err h3 else h3))"
    unfolding realloc_def Let_def acq using assms(3,4) by simp
  have live: "p \<in> fst ` set (live (blocks ?h))"
    using assms(5) live_map_None_iff [of h p] by auto
  have rel: "heap_release h2 = h2\<lparr>heap_owner := 0\<rparr>" if "same_rest ?h h2" for h2
    using that quiet(3) by (intro heap_release_empty) (simp add: same_rest_def)
  have quiet2: "heap_quiet (h2\<lparr>heap_owner := 0\<rparr>)" if "same_rest ?h h2" "heap_ok h2" for h2
    using that quiet(3) by (simp add: heap_quiet_def same_rest_def)
  have "heap_ok ?h" using quiet(1) by simp
  from this w(1,2) show thesis
  proof (cases rule: realloc_locked_cases [where ok = ok and p = p])
    case 1
    with live show thesis by simp
  next
    case (2 h2)
    let ?h' = "set_errno self ENOMEM (h2\<lparr>heap_owner := 0\<rparr>)"
    have "realloc ok self h (Some p) sz = Some (None, ?h')" using eq 2(2) rel [OF 2(6)] by simp
    moreover have "heap_quiet ?h'" using quiet2 [OF 2(6,3)] by (simp add: heap_quiet_def)
    moreover have "live_map ?h' = live_map h" "hmem ?h' = hmem h" using 2(4,5) by (simp_all add: live_map_def)
    ultimately show thesis by (rule that(1))
  next
    case (3 k1 q k h2)
    let ?h' = "h2\<lparr>heap_owner := 0\<rparr>"
    have res: "realloc ok self h (Some p) sz = Some (Some q, ?h')" using eq 3(1) rel [OF 3(5)] by simp
    have rs: "resized p k1 q k h ?h'" using 3(4) by (simp add: resized_def)
    have ok: "heap_ok ?h'" using 3(2) by simp
    note lm = resized_live_map [OF quiet(1) ok rs]
    have "k1 = k0" using lm(1) assms(5) by simp
    then show thesis
      using that(2) [OF res quiet2 [OF 3(5,2)] _ lm(2,3)] rs 3(3) w(3) by (simp add: resized_def)
  qed
qed

section \<open>The contract\<close>

text \<open>Thread identities are not zero; \<open>Suc t\<close> ranges over them.\<close>

interpretation heap_alloc: allocator heap_quiet live_map hmem "\<lambda>h m. h\<lparr>hmem := m\<rparr>"
  "malloc ok (Suc t)" "free (Suc t)" REQUEST_MAX
proof unfold_locales
  fix h :: heap and n :: nat
  assume q: "heap_quiet h" and n: "n \<le> REQUEST_MAX"
  show "malloc ok (Suc t) h n \<noteq> None"
    using q nat.simps(3) n by (rule malloc_cases [where ok = ok and self = "Suc t"]) simp_all
  fix p h'
  show "heap_quiet h' \<and> live_map h p = None \<and> hmem h' = hmem h \<and>
      (\<exists>k. n \<le> k \<and> 0 < k \<and> live_map h' = (live_map h)(p \<mapsto> k))"
    if "malloc ok (Suc t) h n = Some (Some p, h')"
    using q nat.simps(3) n by (rule malloc_cases [where ok = ok and self = "Suc t"]) (use that in auto)
  show "heap_quiet h' \<and> live_map h' = live_map h \<and> hmem h' = hmem h"
    if "malloc ok (Suc t) h n = Some (None, h')"
    using q nat.simps(3) n
  proof (rule malloc_cases [where ok = ok and self = "Suc t"])
    assume "malloc ok (Suc t) h n = Some (None, set_errno (Suc t) ENOMEM h)"
    then show ?thesis using that q by (auto simp: heap_quiet_def live_map_def)
  qed (use that in auto)
next
  fix h :: heap and p
  assume q: "heap_quiet h" and p: "live_map h p \<noteq> None"
  show "\<exists>h'. free (Suc t) h (Some p) = Some h' \<and> heap_quiet h' \<and>
      live_map h' = (live_map h)(p := None) \<and> hmem h' = hmem h"
    using q nat.simps(3) by (rule free_cases [where p = p and self = "Suc t"]) (use p in auto)
next
  fix h :: heap and p k r l
  show "p + k \<le> r \<or> r + l \<le> p" if "heap_quiet h" "live_map h p = Some k" "live_map h r = Some l" "p \<noteq> r"
    using that by (intro live_map_disjoint heap_quietD(1))
next
  fix h :: heap and m
  show "heap_quiet (h\<lparr>hmem := m\<rparr>) = heap_quiet h" "live_map (h\<lparr>hmem := m\<rparr>) = live_map h"
    "hmem (h\<lparr>hmem := m\<rparr>) = m" by (simp_all add: heap_quiet_def live_map_def)
qed

section \<open>The aligned entry points\<close>

lemma is_pow2_exp: "is_pow2 n \<Longrightarrow> \<exists>j. n = 2 ^ j"
proof (induction n rule: less_induct)
  case (less n)
  have n: "n \<noteq> 0" "n AND (n - 1) = 0" using less.prems by (auto simp: is_pow2_def)
  show ?case
  proof (cases "even n")
    case True
    then obtain m where m: "n = 2 * m" by (auto elim: evenE)
    with n(1) have "0 < m" by simp
    then have "(n - 1) div 2 = m - 1" "odd (n - 1)" using m by auto
    then have "n AND (n - 1) = 2 * (m AND (m - 1))" using m by (subst and_rec) simp
    with n(2) \<open>0 < m\<close> have "is_pow2 m" by (simp add: is_pow2_def)
    with less.IH [of m] m \<open>0 < m\<close> obtain j where "m = 2 ^ j" by auto
    with m show ?thesis by (intro exI [of _ "Suc j"]) simp
  next
    case False
    then obtain m where m: "n = 2 * m + 1" by (auto elim: oddE)
    then have "n AND (n - 1) = 2 * m" by (subst and_rec) simp
    with n(2) m show ?thesis by (intro exI [of _ 0]) simp
  qed
qed

lemma align_up_ge_32:
  assumes "is_pow2 align" "\<not> align \<le> ALIGN"
  obtains j where "align = 2 ^ j" "32 \<le> align"
proof -
  obtain j where j: "align = 2 ^ j" using is_pow2_exp assms(1) by blast
  with assms(2) have "(2::nat) ^ 4 < 2 ^ j" by simp
  then have "4 < j" by (simp only: power_strict_increasing_iff)
  then have "(2::nat) ^ 5 \<le> 2 ^ j" by (intro power_increasing) simp_all
  with j show thesis by (intro that) simp_all
qed

lemma aligned_alloc_impl_cases:
  assumes "heap_quiet h" "self \<noteq> 0" "is_pow2 align" "align \<le> 4611686018427387904"
    and "sz \<le> 4611686018427387904 - 256"
  obtains h' where "aligned_alloc_impl ok self h align sz = Some (ENOMEM, None, h')" "heap_quiet h'"
    "live_map h' = live_map h" "hmem h' = hmem h"
  | p k h' where "aligned_alloc_impl ok self h align sz = Some (0, Some p, h')" "heap_quiet h'"
    "sz \<le> k" "align dvd p" "live_map h' = (live_map h)(p \<mapsto> k)" "live_map h p = None" "hmem h' = hmem h"
proof (cases "align \<le> ALIGN")
  case True
  have sz: "sz \<le> REQUEST_MAX" using assms(5) by simp
  have dvd: "align dvd 16"
  proof -
    obtain j where j: "align = 2 ^ j" using is_pow2_exp assms(3) by blast
    with True have "(2::nat) ^ j \<le> 2 ^ 4" by simp
    then have "j \<le> 4" by (simp only: power_increasing_iff)
    then show ?thesis using j le_imp_power_dvd [of j 4 "2::nat"] by simp
  qed
  from assms(1,2) sz show thesis
  proof (cases rule: malloc_cases [where ok = ok])
    case 1
    with True assms(1) show thesis
      by (intro that(1) [of "set_errno self ENOMEM h"])
        (auto simp: aligned_alloc_impl_def heap_quiet_def live_map_def)
  next
    case (2 p k h')
    have "16 dvd p" using live_map_bounds(3) [of h' p k] 2(2,5) by (simp add: heap_quiet_def)
    with dvd have "align dvd p" by (rule dvd_trans)
    with 2 True that(2) [of p h' k] show thesis by (simp add: aligned_alloc_impl_def)
  qed
next
  case False
  from assms(3) False obtain j where j: "align = 2 ^ j" "32 \<le> align" by (rule align_up_ge_32)
  note quiet = heap_quietD [OF assms(1)]
  let ?w = "align_up (if sz = 0 then 1 else sz)" and ?h = "h\<lparr>heap_owner := self\<rparr>"
  have "(if sz = 0 then 1 else sz) + 16 \<le> SIZE_MOD" using assms(5) by auto
  note w = align_up_bounds [OF this]
  have lim: "?w + align + 96 \<le> 9223372036854775808" using w(2) assms(4,5) by (auto split: if_splits)
  have szw: "sz \<le> ?w" using w(1) by (auto split: if_splits)
  have acq: "heap_acquire self h = Some (True, ?h)" using quiet(2) assms(2) by (simp add: heap_acquire_def)
  have lim2: "\<not> (SIZE_LIMIT - HDR < align \<or> SIZE_LIMIT - HDR - align < sz)"
    unfolding not_less de_Morgan_disj using assms(4,5) by (intro conjI) linarith+
  have eq: "aligned_alloc_impl ok self h align sz =
     (let (p, h2) = aligned_locked ok align ?w ?h; h3 = heap_release h2
      in if p = None then Some (ENOMEM, None, h3) else Some (0, p, h3))"
    unfolding aligned_alloc_impl_def Let_def acq using False lim2 by simp
  have okh: "heap_ok ?h" using quiet(1) by simp
  from j assms(4) okh w(3) lim show thesis
  proof (cases rule: aligned_locked_cases [where ok = ok])
    case 1
    have "heap_release ?h = h" using quiet(2,3) by (simp add: heap_release_empty)
    with 1 eq have "aligned_alloc_impl ok self h align sz = Some (ENOMEM, None, h)" by simp
    from that(1) [OF this assms(1)] show thesis by simp
  next
    case (2 p k bs kb)
    let ?h' = "h\<lparr>heap_owner := 0, kbrk := kb, blocks := bs\<rparr>"
    have "heap_release (?h\<lparr>kbrk := kb, blocks := bs\<rparr>) = ?h'" using quiet(3) by (simp add: heap_release_empty)
    with 2(1) eq have m: "aligned_alloc_impl ok self h align sz = Some (0, Some p, ?h')" by simp
    have ok': "heap_ok ?h'" using 2(2) by (simp add: heap_ok_def)
    have lm: "live_map ?h' = (live_map h)(p \<mapsto> k)" "live_map h p = None"
      using live_map_add [OF ok', of p k h] 2(5) by simp_all
    have "heap_quiet ?h'" using ok' quiet(3) by (simp add: heap_quiet_def)
    from that(2) [OF m this _ 2(4) lm] 2(3) szw show thesis by simp
  qed
qed

end
