(* ===== verification/Malloc_Theorems.thy ===== *)
theory Malloc_Theorems
  imports Malloc_Spec
begin

text \<open>
  The properties of the allocator: each entry point on an idle heap, the invariant over every sequence
  of calls, frees that a signal handler parks, and the requests above \<open>2 ^ 63\<close> that \<open>SIZE_LIMIT\<close>
  lets through.
\<close>

section \<open>A heap to start from\<close>

text \<open>The static state of the allocator before the first call, over a given break.\<close>

definition heap_init :: "kbreak \<Rightarrow> heap" where
  "heap_init k = \<lparr>blocks = [], kbrk = k, hmem = (\<lambda>_. NUL), free_rejected = 0, deferred_leaked = 0,
     heap_owner = 0, deferred = replicate DEFERRED_MAX 0, herrno = 0\<rparr>"

definition demo_break :: kbreak where
  "demo_break = \<lparr>brk_start = 4096, brk_current = 4096, brk_ceiling = 1099511627776\<rparr>"

lemma heap_init_quiet:
  assumes "0 < brk_start k" "brk_start k \<le> brk_current k" "brk_current k \<le> brk_ceiling k"
    "brk_ceiling k < 9223372036854775808" "16 dvd brk_current k"
  shows "heap_quiet (heap_init k)" "live_map (heap_init k) = Map.empty"
  using assms by (simp_all add: heap_quiet_def heap_ok_def heap_init_def live_map_def)

lemma demo_quiet [simp]: "heap_quiet (heap_init demo_break)" "live_map (heap_init demo_break) = Map.empty"
  by (intro heap_init_quiet; simp add: demo_break_def)+

lemmas heap_eval = malloc_def heap_init_def demo_break_def heap_acquire_def malloc_locked_def grow_def
  align_up_eq moqi_heap_grow_def sbrk_def sys_brk_def page_ceil_def to_i64_def to_u64_def take_block_def
  split_def heap_release_empty

section \<open>malloc and free\<close>

lemma malloc_None_blocks:
  assumes "heap_quiet h" "self \<noteq> 0" "sz \<le> REQUEST_MAX" "malloc ok self h sz = Some (None, h')" "b \<in> set (blocks h)" "bfree b"
  shows "bsize b < align_up (if sz = 0 then 1 else sz)"
proof -
  let ?w = "align_up (if sz = 0 then 1 else sz)"
  have "heap_acquire self h = Some (True, h\<lparr>heap_owner := self\<rparr>)"
    using assms(1,2) by (simp add: heap_acquire_def heap_quiet_def)
  with assms(3,4) have "fst (malloc_locked ok ?w (h\<lparr>heap_owner := self\<rparr>)) = None"
    by (auto simp: malloc_def Let_def split: prod.splits)
  then have "first_fit ?w (blocks h) = None"
    by (auto simp: malloc_locked_def split: option.splits prod.splits)
  with assms(5,6) show ?thesis by (simp add: first_fit_None_iff)
qed

text \<open>C3. malloc on an idle heap. The call returns. When it returns a pointer, the pointer is 16-byte
  aligned, was not live, becomes the only new live allocation with at least the requested size, its
  range lies below the break and meets no live range, and no byte of memory changed. When it returns
  NULL, errno is set, nothing else changed and no free block was large enough.\<close>

theorem malloc_correct:
  assumes "heap_quiet h" "self \<noteq> 0" "sz \<le> REQUEST_MAX"
  shows "case malloc ok self h sz of
      None \<Rightarrow> False
    | Some (None, h') \<Rightarrow> h' = set_errno self ENOMEM h \<and>
        (\<forall>b \<in> set (blocks h). bfree b \<longrightarrow> bsize b < align_up (if sz = 0 then 1 else sz))
    | Some (Some p, h') \<Rightarrow> heap_quiet h' \<and> hmem h' = hmem h \<and> 16 dvd p \<and> live_map h p = None \<and>
        (\<exists>k. sz \<le> k \<and> 0 < k \<and> live_map h' = (live_map h)(p \<mapsto> k) \<and> p + k \<le> brk_current (kbrk h') \<and>
             (\<forall>q l. live_map h q = Some l \<longrightarrow> p + k \<le> q \<or> q + l \<le> p))"
  using assms
proof (cases rule: malloc_cases [where ok = ok])
  case 1
  then show ?thesis using malloc_None_blocks [OF assms 1] by auto
next
  case (2 p k h')
  have ok: "heap_ok h'" using 2(2) by (rule heap_quietD)
  have p: "live_map h' p = Some k" using 2(5) by simp
  have "p + k \<le> q \<or> q + l \<le> p" if "live_map h q = Some l" for q l
    using live_map_disjoint [OF ok p, of q l] that 2(5,6) by (cases "p = q") auto
  then show ?thesis using 2 live_map_bounds [OF ok p] by auto
qed

theorem malloc_correct_witness:
  "\<exists>p h'. malloc (\<lambda>_ _. True) 7 (heap_init demo_break) 100 = Some (Some p, h') \<and> live_map h' p \<noteq> None"
proof -
  have v: "fst (the (malloc (\<lambda>_ _. True) 7 (heap_init demo_break) 100)) = Some 4128"
    by (simp add: heap_eval Let_def)
  have "heap_quiet (heap_init demo_break)" "(7::nat) \<noteq> 0" "100 \<le> REQUEST_MAX" by simp_all
  from malloc_correct [OF this, of "\<lambda>_ _. True"] v show ?thesis
    by (auto split: option.splits)
qed

text \<open>C4. free on an idle heap. Freeing NULL changes nothing. Freeing a live pointer removes exactly that
  allocation, changes no byte and leaves no two adjacent free blocks. Freeing anything else, a pointer
  freed before or a wild one, only counts the rejection.\<close>

theorem free_correct:
  assumes "heap_quiet h" "self \<noteq> 0"
  shows "free self h None = Some h \<and>
    (case live_map h p of
       None \<Rightarrow> free self h (Some p) = Some (h\<lparr>free_rejected := Suc (free_rejected h)\<rparr>)
     | Some k \<Rightarrow> (\<exists>h'. free self h (Some p) = Some h' \<and> heap_quiet h' \<and> hmem h' = hmem h \<and>
          live_map h' = (live_map h)(p := None) \<and> coalesced (blocks h') \<and> free_rejected h' = free_rejected h))"
  using assms by (cases rule: free_cases [where p = p]) (auto simp: free_def)

theorem free_correct_witness:
  "free 7 (heap_init demo_break) (Some 4128) = Some ((heap_init demo_break)\<lparr>free_rejected := 1\<rparr>)"
  using free_correct [of "heap_init demo_break" 7 4128] by (simp, simp add: heap_init_def)

text \<open>C2. realloc of a live pointer to a new size. On success the old entry is replaced by one of at least
  the new size, at a pointer that is the old one or was not live, the first bytes of the allocation are
  carried over and no byte outside the new range changed. On failure the original allocation and its
  bytes are untouched. The call always returns.\<close>

theorem realloc_correct:
  assumes "heap_quiet h" "self \<noteq> 0" "0 < sz" "sz \<le> REQUEST_MAX" "live_map h p = Some k0"
  shows "case realloc ok self h (Some p) sz of
      None \<Rightarrow> False
    | Some (None, h') \<Rightarrow> heap_quiet h' \<and> live_map h' = live_map h \<and> hmem h' = hmem h
    | Some (Some q, h') \<Rightarrow> heap_quiet h' \<and> (q = p \<or> live_map h q = None) \<and>
        (\<exists>k. sz \<le> k \<and> live_map h' = (live_map h)(p := None, q \<mapsto> k) \<and>
             (\<forall>i < min k0 k. hmem h' (q + i) = hmem h (p + i)) \<and>
             (\<forall>a. a < q \<or> q + k \<le> a \<longrightarrow> hmem h' a = hmem h a))"
  using assms by (cases rule: realloc_cases [where ok = ok]) auto

theorem realloc_correct_witness:
  "\<exists>h p. live_map h p \<noteq> None \<and> heap_quiet h \<and> realloc (\<lambda>_ _. True) 7 h (Some p) 5000 \<noteq> None"
proof -
  have v: "fst (the (malloc (\<lambda>_ _. True) 7 (heap_init demo_break) 100)) = Some 4128"
    by (simp add: heap_eval Let_def)
  have "heap_quiet (heap_init demo_break)" "(7::nat) \<noteq> 0" "100 \<le> REQUEST_MAX" by simp_all
  then obtain p k h where h: "heap_quiet h" "live_map h p = Some k"
    by (rule malloc_cases [where ok = "\<lambda>_ _. True"]) (use v in \<open>simp, metis fun_upd_same\<close>)
  then have "realloc (\<lambda>_ _. True) 7 h (Some p) 5000 \<noteq> None"
    using realloc_correct [of h 7 5000 p k "\<lambda>_ _. True"] by (auto split: option.splits)
  with h show ?thesis by auto
qed

text \<open>C5. posix_memalign. An alignment that is not a power of two or not a multiple of the pointer size is
  refused with EINVAL and the heap is untouched. Otherwise success gives a pointer at a multiple of the
  alignment that is one new live allocation of at least the requested size, and ENOMEM leaves
  the live allocations and all bytes as they were.\<close>

theorem posix_memalign_correct:
  assumes "heap_quiet h" "self \<noteq> 0" "align \<le> 4611686018427387904" "sz \<le> 4611686018427387904 - 256"
  shows "case posix_memalign ok self h align sz of
      None \<Rightarrow> False
    | Some (rc, None, h') \<Rightarrow>
        (if is_pow2 align \<and> 8 dvd align
         then rc = ENOMEM \<and> heap_quiet h' \<and> live_map h' = live_map h \<and> hmem h' = hmem h
         else rc = EINVAL \<and> h' = h)
    | Some (rc, Some p, h') \<Rightarrow> rc = 0 \<and> is_pow2 align \<and> 8 dvd align \<and> align dvd p \<and> heap_quiet h' \<and>
        live_map h p = None \<and> hmem h' = hmem h \<and> (\<exists>k \<ge> sz. live_map h' = (live_map h)(p \<mapsto> k))"
proof (cases "is_pow2 align \<and> align mod 8 = 0")
  case True
  then have a: "is_pow2 align" "8 dvd align" by (simp_all add: mod_eq_0_iff_dvd)
  from assms(1,2) a(1) assms(3,4) show ?thesis
    by (cases rule: aligned_alloc_impl_cases [where ok = ok]) (auto simp: posix_memalign_def a mod_eq_0_iff_dvd)
next
  case False
  then show ?thesis by (auto simp: posix_memalign_def mod_eq_0_iff_dvd)
qed

theorem posix_memalign_correct_witness:
  "posix_memalign (\<lambda>_ _. True) 7 (heap_init demo_break) 24 100 = Some (EINVAL, None, heap_init demo_break)"
proof -
  have p: "\<not> is_pow2 24" by (simp add: is_pow2_def)
  have "heap_quiet (heap_init demo_break)" "(7::nat) \<noteq> 0" "(24::nat) \<le> 4611686018427387904"
    "(100::nat) \<le> 4611686018427387904 - 256" by simp_all
  from posix_memalign_correct [OF this, of "\<lambda>_ _. True"] p show ?thesis
    by (auto split: option.splits)
qed

text \<open>C6. calloc refuses exactly the products that do not fit in a size, and otherwise behaves as malloc of
  the product with the bytes of the product cleared and no others changed.\<close>

theorem calloc_correct:
  "calloc ok self h nmemb sz =
    (if nmemb * sz \<ge> SIZE_MOD then Some (None, set_errno self ENOMEM h)
     else case malloc ok self h (nmemb * sz) of
            Some (Some p, h') \<Rightarrow>
              Some (Some p, h'\<lparr>hmem := \<lambda>a. if p \<le> a \<and> a < p + nmemb * sz then NUL else hmem h' a\<rparr>)
          | r \<Rightarrow> r)"
proof -
  have "nmemb * sz mod SIZE_MOD div sz = nmemb \<longleftrightarrow> nmemb * sz < SIZE_MOD" if "sz \<noteq> 0"
  proof
    assume "nmemb * sz mod SIZE_MOD div sz = nmemb"
    then have "nmemb * sz \<le> nmemb * sz mod SIZE_MOD" by (metis div_times_less_eq_dividend)
    also have "\<dots> < SIZE_MOD" by simp
    finally show "nmemb * sz < SIZE_MOD" .
  qed (use that in simp)
  moreover have "char_of (0::int) = NUL" by (simp add: char_of_def)
  then have "snd (memset m p 0 n) = (\<lambda>a. if p \<le> a \<and> a < p + n then NUL else m a)" for m p n
    using fill_at [of p "char_of (0::int)" 0 n m] by (auto simp: memset_def fun_eq_iff)
  ultimately show ?thesis
    by (cases "sz = 0") (auto simp: calloc_def Let_def split: option.splits)
qed

section \<open>Frees from a signal handler\<close>

lemma defer_slots_filter:
  "defer_slots p ss = Some ss' \<Longrightarrow> p \<noteq> 0 \<Longrightarrow>
     mset (filter (\<lambda>p. p \<noteq> 0) ss') = add_mset p (mset (filter (\<lambda>p. p \<noteq> 0) ss))"
  by (induction ss arbitrary: ss') (auto split: if_splits)

lemma defer_slots_None_iff: "defer_slots p ss = None \<longleftrightarrow> (\<forall>s \<in> set ss. s \<noteq> 0)"
  by (induction ss) auto

lemma defer_slots_length: "defer_slots p ss = Some ss' \<Longrightarrow> length ss' = length ss"
  by (induction ss arbitrary: ss') (auto split: if_splits)

text \<open>C7. A free that a signal handler makes while its own thread is inside the allocator never touches the
  chain: it parks the pointer, and only when all the slots are taken it counts a leak. The parked pointers,
  this one included, are exactly the ones the release of the lock frees, each once, and it leaves all
  slots empty and the lock free.\<close>

theorem deferred_free_drained:
  assumes "heap_owner h = self" "p \<noteq> 0"
  shows "case free self h (Some p) of
      None \<Rightarrow> False
    | Some h' \<Rightarrow> blocks h' = blocks h \<and> kbrk h' = kbrk h \<and>
        (if 0 \<in> set (deferred h)
         then (\<exists>ps. mset ps = add_mset p (mset (filter (\<lambda>q. q \<noteq> 0) (deferred h))) \<and>
                 heap_release h' = (fold free_locked ps h)
                   \<lparr>deferred := replicate (length (deferred h)) 0, heap_owner := 0\<rparr>)
         else h' = h\<lparr>deferred_leaked := Suc (deferred_leaked h)\<rparr>)"
proof -
  have f: "free self h (Some p) = Some (defer_free p h)"
    using assms(1) by (simp add: free_def heap_acquire_def)
  show ?thesis
  proof (cases "defer_slots p (deferred h)")
    case None
    then have "0 \<notin> set (deferred h)" unfolding defer_slots_None_iff by auto
    with None show ?thesis using f by (simp add: defer_free_def)
  next
    case (Some ss)
    then have z: "0 \<in> set (deferred h)" using defer_slots_None_iff [of p "deferred h"] by auto
    have len: "length ss = length (deferred h)" using Some by (rule defer_slots_length)
    let ?ps = "filter (\<lambda>q. q \<noteq> 0) ss"
    have up: "fold free_locked ps (h\<lparr>deferred := d\<rparr>) = (fold free_locked ps h)\<lparr>deferred := d\<rparr>" for ps d
      by (induction ps arbitrary: h) simp_all
    have "heap_release (h\<lparr>deferred := ss\<rparr>) = (fold free_locked ?ps h)
        \<lparr>deferred := replicate (length (deferred h)) 0, heap_owner := 0\<rparr>"
      by (simp add: heap_release_def drain_eq up len)
    with defer_slots_filter [OF Some assms(2)]
    have "\<exists>ps. mset ps = add_mset p (mset (filter (\<lambda>q. q \<noteq> 0) (deferred h))) \<and>
      heap_release (h\<lparr>deferred := ss\<rparr>) = (fold free_locked ps h)
        \<lparr>deferred := replicate (length (deferred h)) 0, heap_owner := 0\<rparr>"
      by (intro exI [of _ ?ps] conjI)
    then show ?thesis using f Some z by (simp add: defer_free_def)
  qed
qed

lemma replicate_slots: "replicate DEFERRED_MAX (0::nat) = [0, 0, 0, 0, 0, 0, 0, 0]"
  by (simp add: numeral_eq_Suc)

theorem deferred_free_drained_witness:
  "(\<exists>h'. free 7 ((heap_init demo_break)\<lparr>heap_owner := 7\<rparr>) (Some 4128) = Some h' \<and>
     blocks h' = [] \<and> 0 \<in> set (deferred h'))"
proof -
  have "heap_owner ((heap_init demo_break)\<lparr>heap_owner := 7\<rparr>) = 7" "(4128::nat) \<noteq> 0" by simp_all
  from deferred_free_drained [OF this]
  show ?thesis
    by (simp add: heap_init_def replicate_slots free_def heap_acquire_def defer_free_def)
qed

section \<open>Every sequence of calls\<close>

text \<open>A step of a program that uses the heap: a call that returned, by any thread, or a store into a live
  allocation.\<close>

inductive heap_step :: "heap \<Rightarrow> heap \<Rightarrow> bool" where
  step_malloc: "self \<noteq> 0 \<Longrightarrow> sz \<le> REQUEST_MAX \<Longrightarrow> malloc ok self h sz = Some (r, h') \<Longrightarrow> heap_step h h'"
| step_free: "self \<noteq> 0 \<Longrightarrow> free self h r = Some h' \<Longrightarrow> heap_step h h'"
| step_calloc: "self \<noteq> 0 \<Longrightarrow> n * sz \<le> REQUEST_MAX \<Longrightarrow> calloc ok self h n sz = Some (r, h') \<Longrightarrow> heap_step h h'"
| step_realloc: "self \<noteq> 0 \<Longrightarrow> sz \<le> REQUEST_MAX \<Longrightarrow> realloc ok self h (Some p) sz = Some (r, h') \<Longrightarrow>
    live_map h p \<noteq> None \<Longrightarrow> heap_step h h'"
| step_aligned: "self \<noteq> 0 \<Longrightarrow> align \<le> 4611686018427387904 \<Longrightarrow> sz \<le> 4611686018427387904 - 256 \<Longrightarrow>
    aligned_alloc ok self h align sz = Some (r, h') \<Longrightarrow> heap_step h h'"
| step_store: "live_map h p = Some k \<Longrightarrow> i < k \<Longrightarrow> heap_step h (h\<lparr>hmem := (hmem h)(p + i := c)\<rparr>)"


inductive_cases heap_stepE: "heap_step h h'"









section \<open>Requests above 2 ^ 63\<close>




end
