(* ===== verification/Stable_Sort.thy ===== *)
theory Stable_Sort
  imports CString "HOL-Library.Sorting_Algorithms"
begin

text \<open>
  The order of a C comparison function and the two sorts of \<open>algo.c\<close> on lists: merging runs of doubling
  width and inserting at the end of a sorted prefix. Both are shown equal to the library's stable
  sort for every comparison function that satisfies the contract of the locale \<open>c_comparator\<close>. The
  contract is interpreted on the comparison of fixed-size elements as C strings.
\<close>

section \<open>Comparison functions\<close>

locale c_comparator =
  fixes c :: "'a \<Rightarrow> 'a \<Rightarrow> int"
  assumes c_sym: "c b a < 0 \<longleftrightarrow> 0 < c a b"
    and c_trans: "c x y \<le> 0 \<Longrightarrow> c y z \<le> 0 \<Longrightarrow> c x z \<le> 0"

definition sign_of :: "('a \<Rightarrow> 'a \<Rightarrow> int) \<Rightarrow> 'a \<Rightarrow> 'a \<Rightarrow> comp" where
  "sign_of c a b = (if c a b < 0 then Less else if c a b = 0 then Equiv else Greater)"

definition c_order :: "('a \<Rightarrow> 'a \<Rightarrow> int) \<Rightarrow> 'a comparator" where
  "c_order c = Abs_comparator (sign_of c)"

section \<open>The sorts on lists\<close>

fun cmerge :: "('a \<Rightarrow> 'a \<Rightarrow> int) \<Rightarrow> 'a list \<Rightarrow> 'a list \<Rightarrow> 'a list" where
  "cmerge c [] ys = ys"
| "cmerge c xs [] = xs"
| "cmerge c (x # xs) (y # ys) =
     (if c y x < 0 then y # cmerge c (x # xs) ys else x # cmerge c xs (y # ys))"

function merge_runs :: "('a \<Rightarrow> 'a \<Rightarrow> int) \<Rightarrow> nat \<Rightarrow> 'a list \<Rightarrow> 'a list" where
  "merge_runs c w xs =
     (if xs = [] \<or> w = 0 then []
      else cmerge c (take w xs) (take w (drop w xs)) @ merge_runs c w (drop (2 * w) xs))"
  by pat_completeness auto
termination
  by (relation "measure (\<lambda>(c, w, xs). length xs)") auto

declare merge_runs.simps [simp del]

function merge_up :: "('a \<Rightarrow> 'a \<Rightarrow> int) \<Rightarrow> nat \<Rightarrow> 'a list \<Rightarrow> 'a list" where
  "merge_up c w xs =
     (if 0 < w \<and> w < length xs then merge_up c (2 * w) (merge_runs c w xs) else xs)"
  by pat_completeness auto

lemma cmerge_Nil2 [simp]: "cmerge c xs [] = xs"
  by (cases xs) simp_all

lemma length_cmerge [simp]: "length (cmerge c xs ys) = length xs + length ys"
  by (induction c xs ys rule: cmerge.induct) auto

lemma set_cmerge [simp]: "set (cmerge c xs ys) = set xs \<union> set ys"
  by (induction c xs ys rule: cmerge.induct) auto

lemma length_merge_runs [simp]: "0 < w \<Longrightarrow> length (merge_runs c w xs) = length xs"
proof (induction c w xs rule: merge_runs.induct)
  case (1 c w xs)
  then show ?case by (subst merge_runs.simps) (auto simp: min_def)
qed

lemma set_merge_runs: "0 < w \<Longrightarrow> set (merge_runs c w xs) \<subseteq> set xs"
proof (induction c w xs rule: merge_runs.induct)
  case (1 c w xs)
  then show ?case
    by (subst merge_runs.simps) (auto dest: in_set_takeD in_set_dropD)
qed

termination merge_up
  by (relation "measure (\<lambda>(c, w, xs). length xs - w)") auto

declare merge_up.simps [simp del]

text \<open>Inserting the last element of a list into the sorted prefix before it.\<close>

fun settle :: "('a \<Rightarrow> 'a \<Rightarrow> int) \<Rightarrow> 'a \<Rightarrow> 'a list \<Rightarrow> 'a list" where
  "settle c x [] = [x]"
| "settle c x (y # rev_ys) = (if 0 < c y x then y # settle c x rev_ys else x # y # rev_ys)"

section \<open>Equality with the library's stable sort\<close>

text \<open>Each piece of \<open>w\<close> elements replaced by its stable sort: what a list looks like after the pass with
  half that width.\<close>

function sort_runs :: "'a comparator \<Rightarrow> nat \<Rightarrow> 'a list \<Rightarrow> 'a list" where
  "sort_runs ord w xs =
     (if xs = [] \<or> w = 0 then []
      else Sorting_Algorithms.sort ord (take w xs) @ sort_runs ord w (drop w xs))"
  by pat_completeness auto
termination
  by (relation "measure (\<lambda>(ord, w, xs). length xs)") auto

declare sort_runs.simps [simp del]

lemma length_sort_runs [simp]: "0 < w \<Longrightarrow> length (sort_runs ord w xs) = length xs"
proof (induction ord w xs rule: sort_runs.induct)
  case (1 ord w xs)
  then show ?case by (subst sort_runs.simps) auto
qed

lemma take_drop_sort_runs:
  assumes "0 < w"
  shows "take w (sort_runs ord w xs) = Sorting_Algorithms.sort ord (take w xs)"
    "drop w (sort_runs ord w xs) = sort_runs ord w (drop w xs)"
proof -
  have "sort_runs ord w (drop w xs) = []" if "length xs \<le> w" using that by (simp add: sort_runs.simps)
  then show "take w (sort_runs ord w xs) = Sorting_Algorithms.sort ord (take w xs)"
    "drop w (sort_runs ord w xs) = sort_runs ord w (drop w xs)"
    using assms by (cases "length xs \<le> w"; subst sort_runs.simps; simp)+
qed

lemma sort_runs_1: "sort_runs ord 1 xs = xs"
  by (induction xs) (simp_all add: sort_runs.simps [of _ "Suc 0"])

context c_comparator
begin

lemma c_refl: "c a a = 0"
  using c_sym [of a a] by linarith

lemma comparator_sign: "comparator (sign_of c)"
proof
  show "sign_of c a a = Equiv" for a by (simp add: sign_of_def c_refl)
  have le: "c x z = 0" if "c x y = 0" "c y z = 0" for x y z
    using that c_trans [of x y z] c_trans [of z y x] c_sym [of x y] c_sym [of y z] c_sym [of x z] c_sym [of y x]
      c_sym [of z y] c_sym [of z x] by linarith
  show "sign_of c x y = Equiv \<Longrightarrow> sign_of c y z = Equiv \<Longrightarrow> sign_of c x z = Equiv" for x y z
    using le by (auto simp: sign_of_def split: if_splits)
  have lt: "c x z < 0" if "c x y < 0" "c y z < 0" for x y z
  proof (rule ccontr)
    assume "\<not> c x z < 0"
    then have "c z x \<le> 0" using c_sym [of x z] by linarith
    with that(1) have "c z y \<le> 0" using c_trans [of z x y] by linarith
    then show False using that(2) c_sym [of y z] by linarith
  qed
  show "sign_of c x y = Less \<Longrightarrow> sign_of c y z = Less \<Longrightarrow> sign_of c x z = Less" for x y z
    using lt [of x y z] by (auto simp: sign_of_def split: if_splits)
  show "sign_of c y x = Greater \<longleftrightarrow> sign_of c x y = Less" for x y
    using c_sym [of x y] c_sym [of y x] by (auto simp: sign_of_def)
qed

lemma compare_c_order: "compare (c_order c) = sign_of c"
  unfolding c_order_def by (rule Abs_comparator_inverse) (simp add: comparator_sign)

lemma greater_iff: "compare (c_order c) x y = Greater \<longleftrightarrow> c y x < 0"
  using c_sym [of y x] c_sym [of x y] by (auto simp: compare_c_order sign_of_def)

lemma equiv_iff: "compare (c_order c) x y = Equiv \<longleftrightarrow> c x y = 0"
  by (simp add: compare_c_order sign_of_def)

lemma cmerge_eq: "cmerge c xs ys = Sorting_Algorithms.merge (c_order c) xs ys"
  by (induction xs ys rule: Sorting_Algorithms.merge.induct [of _ "c_order c"]) (auto simp: greater_iff)

lemma sort_append_merge:
  "cmerge c (Sorting_Algorithms.sort (c_order c) xs) (Sorting_Algorithms.sort (c_order c) ys) =
     Sorting_Algorithms.sort (c_order c) (xs @ ys)"
proof (rule sort_eqI [symmetric])
  let ?o = "c_order c"
  show "mset (xs @ ys) = mset (cmerge c (Sorting_Algorithms.sort ?o xs) (Sorting_Algorithms.sort ?o ys))"
    by (simp add: cmerge_eq mset_merge)
  show "Sorting_Algorithms.sorted ?o (cmerge c (Sorting_Algorithms.sort ?o xs) (Sorting_Algorithms.sort ?o ys))"
    by (simp add: cmerge_eq sorted_merge)
  show "filter (\<lambda>z. compare ?o y z = Equiv) (xs @ ys) =
     filter (\<lambda>z. compare ?o y z = Equiv) (cmerge c (Sorting_Algorithms.sort ?o xs) (Sorting_Algorithms.sort ?o ys))" for y
    by (simp add: cmerge_eq filter_merge stable_sort merge_stable_segments)
qed

lemma merge_runs_sort_runs:
  "0 < w \<Longrightarrow> merge_runs c w (sort_runs (c_order c) w xs) = sort_runs (c_order c) (2 * w) xs"
proof (induction "length xs" arbitrary: xs rule: less_induct)
  case less
  show ?case
  proof (cases "xs = []")
    case True
    then show ?thesis by (simp add: merge_runs.simps sort_runs.simps)
  next
    case False
    let ?s = "sort_runs (c_order c) w"
    note td = take_drop_sort_runs [OF less.prems, of "c_order c"]
    have "length (?s xs) = length xs" using less.prems by simp
    then have ne: "?s xs \<noteq> []" using False by (metis length_0_conv)
    have dd: "drop (2 * w) (?s xs) = ?s (drop (2 * w) xs)"
      using td(2) [of xs] td(2) [of "drop w xs"] by (simp add: mult_2 drop_drop [symmetric] del: drop_drop)
    have "merge_runs c w (?s xs) =
        cmerge c (Sorting_Algorithms.sort (c_order c) (take w xs)) (Sorting_Algorithms.sort (c_order c) (take w (drop w xs))) @
        merge_runs c w (?s (drop (2 * w) xs))"
      using ne less.prems by (subst merge_runs.simps) (simp add: td dd)
    also have "\<dots> = Sorting_Algorithms.sort (c_order c) (take (2 * w) xs) @ sort_runs (c_order c) (2 * w) (drop (2 * w) xs)"
      using less.hyps [of "drop (2 * w) xs"] False less.prems
      by (simp add: sort_append_merge mult_2 take_add)
    also have "\<dots> = sort_runs (c_order c) (2 * w) xs"
      using False less.prems by (subst (2) sort_runs.simps) simp
    finally show ?thesis .
  qed
qed

lemma merge_up_sort_runs:
  "0 < w \<Longrightarrow> merge_up c w (sort_runs (c_order c) w xs) = Sorting_Algorithms.sort (c_order c) xs"
proof (induction "length xs - w" arbitrary: w rule: less_induct)
  case less
  show ?case
  proof (cases "w < length xs")
    case True
    then show ?thesis using less.hyps [of "2 * w"] less.prems
      by (subst merge_up.simps) (simp add: merge_runs_sort_runs)
  next
    case False
    then have "sort_runs (c_order c) w xs = Sorting_Algorithms.sort (c_order c) xs"
      using less.prems by (subst sort_runs.simps) (simp add: sort_runs.simps)
    with False less.prems show ?thesis by (subst merge_up.simps) simp
  qed
qed

lemma merge_up_sort: "merge_up c 1 xs = Sorting_Algorithms.sort (c_order c) xs"
  using merge_up_sort_runs [of 1 xs] sort_runs_1 [of "c_order c" xs] by simp

lemma cmerge_snoc:
  assumes "Sorting_Algorithms.sorted (c_order c) (ys @ [y])"
  shows "cmerge c (ys @ [y]) [x] = (if 0 < c y x then cmerge c ys [x] @ [y] else ys @ [y, x])"
proof (cases "0 < c y x")
  case True
  then show ?thesis using c_sym [of x y] by (induction ys) auto
next
  case False
  have "compare (c_order c) z x \<noteq> Greater" if "z \<in> set (ys @ [y])" for z
  proof -
    have "compare (c_order c) z y \<noteq> Greater"
      using that assms by (auto simp: sorted_append_iff compare.refl)
    moreover have "compare (c_order c) y x \<noteq> Greater" using False c_sym [of x y] by (simp add: greater_iff)
    ultimately show ?thesis by (rule compare.trans_not_greater)
  qed
  then have "cmerge c (ys @ [y]) [x] = (ys @ [y]) @ [x]"
    unfolding cmerge_eq by (intro merge_eq_appendI) auto
  with False show ?thesis by simp
qed

lemma sink_eq_merge:
  "Sorting_Algorithms.sorted (c_order c) ys \<Longrightarrow> rev (settle c x (rev ys)) = cmerge c ys [x]"
proof (induction ys rule: rev_induct)
  case (snoc y ys)
  then have "Sorting_Algorithms.sorted (c_order c) ys" by (simp add: sorted_append_iff)
  with snoc show ?case by (simp add: cmerge_snoc)
qed simp

lemma sink_sort:
  "rev (settle c x (rev (Sorting_Algorithms.sort (c_order c) xs))) = Sorting_Algorithms.sort (c_order c) (xs @ [x])"
  using sort_append_merge [of xs "[x]"] by (simp add: sink_eq_merge)

end

section \<open>Elements compared as C strings\<close>

text \<open>\<open>strcmp\<close> on the strings that two elements of a fixed size hold.\<close>

definition field_cmp :: "string \<Rightarrow> string \<Rightarrow> int" where
  "field_cmp a b = str_cmp (takeWhile (\<lambda>x. x \<noteq> NUL) a) (takeWhile (\<lambda>x. x \<noteq> NUL) b)"

lemma takeWhile_no_nul: "NUL \<notin> set (takeWhile (\<lambda>x. x \<noteq> NUL) a)"
  by (auto dest: set_takeWhileD)

interpretation field_order: c_comparator field_cmp
proof
  show "field_cmp b a < 0 \<longleftrightarrow> 0 < field_cmp a b" for a b
    unfolding field_cmp_def by (subst str_cmp_antisym) simp
  show "field_cmp x y \<le> 0 \<Longrightarrow> field_cmp y z \<le> 0 \<Longrightarrow> field_cmp x z \<le> 0" for x y z
    unfolding field_cmp_def by (rule str_cmp_trans) (auto simp: takeWhile_no_nul)
qed

end
