(* ===== verification/Algo.thy ===== *)
theory Algo
  imports Stable_Sort Malloc_Spec
begin

text \<open>
  \<open>lib/moqi_libc/src/algo.c\<close> (\<open>qsort\<close>, \<open>bsearch\<close>, \<open>rand_r\<close>) and the two duplicating functions of
  \<open>strfunc.c\<close>, as clients of the allocator. Arrays are ranges of the byte store; the comparison function
  is a parameter that reads the store at two addresses. The loops are the code's: bottom-up merging
  between the array and the scratch buffer, and exchange of neighbours byte by byte when there is no
  buffer. Array indexes stay below the number of bytes of an array in memory, so they do not wrap.
\<close>

section \<open>Sorting\<close>

function merge_loop ::
    "(mem \<Rightarrow> nat \<Rightarrow> nat \<Rightarrow> int) \<Rightarrow> nat \<Rightarrow> nat \<Rightarrow> nat \<Rightarrow> nat \<Rightarrow> nat \<Rightarrow> nat \<Rightarrow> nat \<Rightarrow> nat \<Rightarrow> mem \<Rightarrow> mem \<times> nat \<times> nat \<times> nat" where
  "merge_loop cmp sz src dst mid hi i j k m =
     (if i < mid \<and> j < hi then
        (if cmp m (src + j * sz) (src + i * sz) < 0
         then merge_loop cmp sz src dst mid hi i (Suc j) (Suc k) (snd (memcpy m (dst + k * sz) (src + j * sz) sz))
         else merge_loop cmp sz src dst mid hi (Suc i) j (Suc k) (snd (memcpy m (dst + k * sz) (src + i * sz) sz)))
      else (m, i, j, k))"
  by pat_completeness auto
termination
  by (relation "measure (\<lambda>(cmp, sz, src, dst, mid, hi, i, j, k, m). (mid - i) + (hi - j))") auto

declare merge_loop.simps [simp del]

definition merge_tail :: "nat \<Rightarrow> nat \<Rightarrow> nat \<Rightarrow> nat \<Rightarrow> nat \<Rightarrow> mem \<times> nat \<times> nat \<times> nat \<Rightarrow> mem" where
  "merge_tail sz src dst mid hi = (\<lambda>(m, i, j, k).
     if i < mid then snd (memcpy m (dst + k * sz) (src + i * sz) ((mid - i) * sz))
     else if j < hi then snd (memcpy m (dst + k * sz) (src + j * sz) ((hi - j) * sz))
     else m)"

definition merge_run :: "(mem \<Rightarrow> nat \<Rightarrow> nat \<Rightarrow> int) \<Rightarrow> nat \<Rightarrow> nat \<Rightarrow> nat \<Rightarrow> nat \<Rightarrow> nat \<Rightarrow> nat \<Rightarrow> mem \<Rightarrow> mem" where
  "merge_run cmp sz src dst n width lo m =
     (let mid = (if lo + width < n then lo + width else n);
          hi = (if lo + 2 * width < n then lo + 2 * width else n)
      in merge_tail sz src dst mid hi (merge_loop cmp sz src dst mid hi lo mid lo m))"

function merge_pass :: "(mem \<Rightarrow> nat \<Rightarrow> nat \<Rightarrow> int) \<Rightarrow> nat \<Rightarrow> nat \<Rightarrow> nat \<Rightarrow> nat \<Rightarrow> nat \<Rightarrow> nat \<Rightarrow> mem \<Rightarrow> mem" where
  "merge_pass cmp sz src dst n width lo m =
     (if lo < n \<and> 0 < width
      then merge_pass cmp sz src dst n width (lo + 2 * width) (merge_run cmp sz src dst n width lo m) else m)"
  by pat_completeness auto
termination
  by (relation "measure (\<lambda>(cmp, sz, src, dst, n, width, lo, m). n - lo)") auto

declare merge_pass.simps [simp del]

function merge_widths :: "(mem \<Rightarrow> nat \<Rightarrow> nat \<Rightarrow> int) \<Rightarrow> nat \<Rightarrow> nat \<Rightarrow> nat \<Rightarrow> nat \<Rightarrow> nat \<Rightarrow> mem \<Rightarrow> mem \<times> nat" where
  "merge_widths cmp sz src dst n width m =
     (if 0 < width \<and> width < n
      then merge_widths cmp sz dst src n (width * 2) (merge_pass cmp sz src dst n width 0 m) else (m, src))"
  by pat_completeness auto
termination
  by (relation "measure (\<lambda>(cmp, sz, src, dst, n, width, m). n - width)") auto

declare merge_widths.simps [simp del]

definition merge_sort :: "mem \<Rightarrow> nat \<Rightarrow> nat \<Rightarrow> nat \<Rightarrow> nat \<Rightarrow> (mem \<Rightarrow> nat \<Rightarrow> nat \<Rightarrow> int) \<Rightarrow> mem" where
  "merge_sort m base tmp n sz cmp =
     (let (m', src) = merge_widths cmp sz base tmp n 1 m
      in if src \<noteq> base then snd (memcpy m' base src (n * sz)) else m')"

definition swap_elems :: "nat \<Rightarrow> nat \<Rightarrow> nat \<Rightarrow> mem \<Rightarrow> mem" where
  "swap_elems p q sz m = fold (\<lambda>k m. m(p + k := m (q + k), q + k := m (p + k))) [0..<sz] m"

fun sink_loop :: "(mem \<Rightarrow> nat \<Rightarrow> nat \<Rightarrow> int) \<Rightarrow> nat \<Rightarrow> nat \<Rightarrow> nat \<Rightarrow> mem \<Rightarrow> mem" where
  "sink_loop cmp sz base 0 m = m"
| "sink_loop cmp sz base (Suc j) m =
     (if cmp m (base + j * sz) (base + Suc j * sz) > 0
      then sink_loop cmp sz base j (swap_elems (base + j * sz) (base + Suc j * sz) sz m) else m)"

definition insertion_sort :: "mem \<Rightarrow> nat \<Rightarrow> nat \<Rightarrow> nat \<Rightarrow> (mem \<Rightarrow> nat \<Rightarrow> nat \<Rightarrow> int) \<Rightarrow> mem" where
  "insertion_sort m base n sz cmp = fold (\<lambda>i m. sink_loop cmp sz base i m) [1..<n] m"

text \<open>The heap holds the store, so sorting threads it through malloc and free. \<open>(size_t)-1 / size\<close> is a
  natural division; the result is \<open>None\<close> when malloc waits for another thread.\<close>

definition qsort ::
    "(nat \<Rightarrow> nat \<Rightarrow> bool) \<Rightarrow> nat \<Rightarrow> heap \<Rightarrow> nat \<Rightarrow> nat \<Rightarrow> nat \<Rightarrow> (mem \<Rightarrow> nat \<Rightarrow> nat \<Rightarrow> int) \<Rightarrow> heap option" where
  "qsort ok self h base nmemb sz cmp =
     (if nmemb < 2 \<or> sz = 0 then Some h
      else if nmemb > (SIZE_MOD - 1) div sz then Some (h\<lparr>hmem := insertion_sort (hmem h) base nmemb sz cmp\<rparr>)
      else case malloc ok self h (nmemb * sz) of
          None \<Rightarrow> None
        | Some (None, h1) \<Rightarrow> Some (h1\<lparr>hmem := insertion_sort (hmem h1) base nmemb sz cmp\<rparr>)
        | Some (Some tmp, h1) \<Rightarrow> free self (h1\<lparr>hmem := merge_sort (hmem h1) base tmp nmemb sz cmp\<rparr>) (Some tmp))"

section \<open>Searching and random numbers\<close>

function bsearch_loop :: "(mem \<Rightarrow> nat \<Rightarrow> nat \<Rightarrow> int) \<Rightarrow> mem \<Rightarrow> nat \<Rightarrow> nat \<Rightarrow> nat \<Rightarrow> nat \<Rightarrow> nat \<Rightarrow> nat option" where
  "bsearch_loop cmp m kp base sz lo hi =
     (if lo < hi then
        (let mid = lo + (hi - lo) div 2; p = base + mid * sz; r = cmp m kp p in
         if r < 0 then bsearch_loop cmp m kp base sz lo mid
         else if r > 0 then bsearch_loop cmp m kp base sz (mid + 1) hi
         else Some p)
      else None)"
  by pat_completeness auto
termination
  by (relation "measure (\<lambda>(cmp, m, kp, base, sz, lo, hi). hi - lo)") auto

declare bsearch_loop.simps [simp del]

definition bsearch :: "mem \<Rightarrow> nat \<Rightarrow> nat \<Rightarrow> nat \<Rightarrow> nat \<Rightarrow> (mem \<Rightarrow> nat \<Rightarrow> nat \<Rightarrow> int) \<Rightarrow> nat option" where
  "bsearch m kp base nmemb sz cmp = bsearch_loop cmp m kp base sz 0 nmemb"

definition rand_r :: "32 word \<Rightarrow> int \<times> 32 word" where
  "rand_r seed =
     (let next1 = seed * 1103515245 + 12345;
          result1 = (next1 div 65536) mod 2048;
          next2 = next1 * 1103515245 + 12345;
          result2 = push_bit 10 result1 XOR ((next2 div 65536) mod 1024);
          next3 = next2 * 1103515245 + 12345;
          result3 = push_bit 10 result2 XOR ((next3 div 65536) mod 1024)
      in (sint result3, next3))"

section \<open>Duplicating strings\<close>

definition strndup :: "(nat \<Rightarrow> nat \<Rightarrow> bool) \<Rightarrow> nat \<Rightarrow> heap \<Rightarrow> nat \<Rightarrow> nat \<Rightarrow> (nat option \<times> heap) option" where
  "strndup ok self h s n =
     (let len = strnlen (hmem h) s n in
      case malloc ok self h (len + 1) of
        None \<Rightarrow> None
      | Some (None, h1) \<Rightarrow> Some (None, h1)
      | Some (Some p, h1) \<Rightarrow>
          Some (Some p, h1\<lparr>hmem := (snd (memcpy (hmem h1) p s len))(p + len := NUL)\<rparr>))"

definition strdup :: "(nat \<Rightarrow> nat \<Rightarrow> bool) \<Rightarrow> nat \<Rightarrow> heap \<Rightarrow> nat \<Rightarrow> (nat option \<times> heap) option" where
  "strdup ok self h s =
     (case strlen (hmem h) s of
        None \<Rightarrow> None
      | Some len \<Rightarrow>
          (case malloc ok self h (len + 1) of
             None \<Rightarrow> None
           | Some (None, h1) \<Rightarrow> Some (None, h1)
           | Some (Some p, h1) \<Rightarrow> Some (Some p, h1\<lparr>hmem := snd (memcpy (hmem h1) p s (len + 1))\<rparr>)))"

end
