(* ===== verification/Algo_Theorems.thy ===== *)
theory Algo_Theorems
  imports Algo Malloc_Theorems
begin

text \<open>
  Sorting in memory refines sorting of lists: each loop over addresses is shown to store the result of the
  list operation, so that \<open>qsort\<close> leaves the library's stable sort of the array whether or not it gets a
  scratch buffer. Then \<open>bsearch\<close>, \<open>rand_r\<close>, \<open>strdup\<close> and \<open>strndup\<close>.
\<close>

section \<open>Arrays of elements\<close>

definition arr :: "mem \<Rightarrow> nat \<Rightarrow> nat \<Rightarrow> string list \<Rightarrow> bool" where
  "arr m p sz xs \<longleftrightarrow> (\<forall>x \<in> set xs. length x = sz) \<and> bytes m p (length xs * sz) = concat xs"

lemma length_concat_uniform: "\<forall>x \<in> set xs. length x = sz \<Longrightarrow> length (concat xs) = length xs * sz"
  by (induction xs) auto

lemma take_concat_uniform: "\<forall>x \<in> set xs. length x = sz \<Longrightarrow> take (k * sz) (concat xs) = concat (take k xs)"
  by (induction xs arbitrary: k) (auto simp: take_Cons' nat_diff_split split: nat.splits,
      metis Suc_pred add_diff_cancel_left' mult_Suc neq0_conv)

lemma drop_concat_uniform: "\<forall>x \<in> set xs. length x = sz \<Longrightarrow> drop (k * sz) (concat xs) = concat (drop k xs)"
  by (metis append_take_drop_id append_same_eq concat_append same_append_eq take_concat_uniform)

lemma bytes_sub: "a + b \<le> n \<Longrightarrow> bytes m (p + a) b = take b (drop a (bytes m p n))"
  by (rule nth_equalityI) (auto simp: ac_simps)

lemma arr_bytes:
  assumes "arr m p sz xs" "i + k \<le> length xs"
  shows "bytes m (p + i * sz) (k * sz) = concat (take k (drop i xs))"
proof -
  have u: "\<forall>x \<in> set xs. length x = sz" "bytes m p (length xs * sz) = concat xs"
    using assms(1) by (auto simp: arr_def)
  have "i * sz + k * sz \<le> length xs * sz" using assms(2) by (metis add_mult_distrib mult_le_mono1)
  from bytes_sub [OF this] have "bytes m (p + i * sz) (k * sz) = take (k * sz) (drop (i * sz) (concat xs))"
    by (simp add: u(2))
  also have "\<dots> = take (k * sz) (concat (drop i xs))" by (simp only: drop_concat_uniform [OF u(1)])
  also have "\<dots> = concat (take k (drop i xs))"
    using u(1) by (intro take_concat_uniform) (auto dest: in_set_dropD)
  finally show ?thesis .
qed

lemma arr_nth: "arr m p sz xs \<Longrightarrow> i < length xs \<Longrightarrow> bytes m (p + i * sz) sz = xs ! i"
  using arr_bytes [of m p sz xs i 1] by (simp add: take_Suc_conv_app_nth hd_drop_conv_nth take_Suc)

lemma memcpy_store:
  "d \<le> s \<or> s + n \<le> d \<Longrightarrow> snd (memcpy m d s n) = store m d (bytes m s n)"
  by (auto simp: fun_eq_iff memcpy_def copy_up_at store_at)

lemma store_append: "store (store m p xs) (p + length xs) ys = store m p (xs @ ys)"
  by (auto simp: fun_eq_iff store_at nth_append)

lemma store_bytes: "store m p (bytes m p n) = m"
  by (auto simp: fun_eq_iff store_at)

lemma bytes_store_other: "p + n \<le> q \<or> q + length ys \<le> p \<Longrightarrow> bytes (store m q ys) p n = bytes m p n"
  by (auto simp: bytes_def store_at)

lemma bytes_store_same: "bytes (store m p xs) p (length xs) = xs"
  by (rule nth_equalityI) (auto simp: store_at)

lemma arr_store_other:
  "arr m p sz xs \<Longrightarrow> p + length xs * sz \<le> q \<or> q + length ys \<le> p \<Longrightarrow> arr (store m q ys) p sz xs"
  by (simp add: arr_def bytes_store_other)

lemma arr_store_same:
  "\<forall>x \<in> set xs. length x = sz \<Longrightarrow> arr (store m p (concat xs)) p sz xs"
  unfolding arr_def by (metis length_concat_uniform bytes_store_same)

section \<open>Merging in memory\<close>

definition pure_cmp :: "(mem \<Rightarrow> nat \<Rightarrow> nat \<Rightarrow> int) \<Rightarrow> nat \<Rightarrow> (string \<Rightarrow> string \<Rightarrow> int) \<Rightarrow> bool" where
  "pure_cmp cmp sz c \<longleftrightarrow> (\<forall>m p q. cmp m p q = c (bytes m p sz) (bytes m q sz))"

lemma pure_cmp_arr:
  "pure_cmp cmp sz c \<Longrightarrow> arr m p sz xs \<Longrightarrow> i < length xs \<Longrightarrow> j < length xs \<Longrightarrow>
     cmp m (p + i * sz) (p + j * sz) = c (xs ! i) (xs ! j)"
  by (simp add: pure_cmp_def arr_nth)

definition away :: "nat \<Rightarrow> nat \<Rightarrow> nat \<Rightarrow> bool" where
  "away p q len \<longleftrightarrow> p + len \<le> q \<or> q + len \<le> p"

lemma take_drop_Cons:
  "i < mid \<Longrightarrow> mid \<le> length xs \<Longrightarrow> take (mid - i) (drop i xs) = xs ! i # take (mid - Suc i) (drop (Suc i) xs)"
  by (metis Cons_nth_drop_Suc Suc_diff_Suc less_le_trans take_Suc_Cons)

lemma copy_elems:
  assumes "away src dst (length xs * sz)" "arr m src sz xs" "l + r \<le> length xs" "k + r \<le> length xs"
  shows "snd (memcpy m (dst + k * sz) (src + l * sz) (r * sz)) = store m (dst + k * sz) (concat (take r (drop l xs)))"
    "arr (store m (dst + k * sz) (concat (take r (drop l xs)))) src sz xs"
proof -
  have le: "l * sz + r * sz \<le> length xs * sz" "k * sz + r * sz \<le> length xs * sz"
    using assms(3,4) by (metis add_mult_distrib mult_le_mono1)+
  then have "dst + k * sz \<le> src + l * sz \<or> src + l * sz + r * sz \<le> dst + k * sz"
    using assms(1) unfolding away_def by linarith
  from memcpy_store [OF this] arr_bytes [OF assms(2,3)]
  show "snd (memcpy m (dst + k * sz) (src + l * sz) (r * sz)) = store m (dst + k * sz) (concat (take r (drop l xs)))"
    by simp
  have "length (concat (take r (drop l xs))) = r * sz"
    using arr_bytes [OF assms(2,3)] length_bytes by metis
  then show "arr (store m (dst + k * sz) (concat (take r (drop l xs)))) src sz xs"
    using assms(1) le unfolding away_def by (intro arr_store_other [OF assms(2)]) linarith
qed

lemma copy_elem:
  assumes "away src dst (length xs * sz)" "arr m src sz xs" "l < length xs" "k < length xs"
  shows "snd (memcpy m (dst + k * sz) (src + l * sz) sz) = store m (dst + k * sz) (xs ! l)"
    "arr (store m (dst + k * sz) (xs ! l)) src sz xs"
    "store (store m (dst + k * sz) (xs ! l)) (dst + Suc k * sz) zs = store m (dst + k * sz) (xs ! l @ zs)"
proof -
  have "take 1 (drop l xs) = [xs ! l]" using assms(3) by (simp add: take_Suc hd_drop_conv_nth)
  then show "snd (memcpy m (dst + k * sz) (src + l * sz) sz) = store m (dst + k * sz) (xs ! l)"
    "arr (store m (dst + k * sz) (xs ! l)) src sz xs"
    using copy_elems [OF assms(1,2), of l 1 k] assms(3,4) by simp_all
  have "length (xs ! l) = sz" using assms(2,3) by (simp add: arr_def)
  then have "dst + Suc k * sz = dst + k * sz + length (xs ! l)" by simp
  then show "store (store m (dst + k * sz) (xs ! l)) (dst + Suc k * sz) zs = store m (dst + k * sz) (xs ! l @ zs)"
    by (simp only: store_append)
qed

lemma merge_loop_store:
  assumes "pure_cmp cmp sz c" "away src dst (length xs * sz)"
  shows "arr m src sz xs \<Longrightarrow> i \<le> mid \<Longrightarrow> mid \<le> j \<Longrightarrow> j \<le> hi \<Longrightarrow> hi \<le> length xs \<Longrightarrow>
     k + (mid - i) + (hi - j) \<le> length xs \<Longrightarrow>
     merge_tail sz src dst mid hi (merge_loop cmp sz src dst mid hi i j k m) =
       store m (dst + k * sz) (concat (cmerge c (take (mid - i) (drop i xs)) (take (hi - j) (drop j xs))))"
proof (induction "(mid - i) + (hi - j)" arbitrary: i j k m rule: less_induct)
  case less
  note arr = less.prems(1)
  show ?case
  proof (cases "i < mid \<and> j < hi")
    case True
    then have lt: "i < length xs" "j < length xs" "k < length xs" using less.prems by linarith+
    have A: "take (mid - i) (drop i xs) = xs ! i # take (mid - Suc i) (drop (Suc i) xs)"
      using True less.prems by (intro take_drop_Cons) auto
    have B: "take (hi - j) (drop j xs) = xs ! j # take (hi - Suc j) (drop (Suc j) xs)"
      using True less.prems by (intro take_drop_Cons) auto
    have cmp: "cmp m (src + j * sz) (src + i * sz) = c (xs ! j) (xs ! i)"
      using pure_cmp_arr [OF assms(1) arr lt(2,1)] .
    note right = copy_elem [OF assms(2) arr lt(2,3)] and left = copy_elem [OF assms(2) arr lt(1,3)]
    show ?thesis
    proof (cases "c (xs ! j) (xs ! i) < 0")
      case R: True
      then have "merge_loop cmp sz src dst mid hi i j k m =
          merge_loop cmp sz src dst mid hi i (Suc j) (Suc k) (store m (dst + k * sz) (xs ! j))"
        using True cmp right(1) by (subst merge_loop.simps) simp
      moreover have "merge_tail sz src dst mid hi
          (merge_loop cmp sz src dst mid hi i (Suc j) (Suc k) (store m (dst + k * sz) (xs ! j))) =
        store (store m (dst + k * sz) (xs ! j)) (dst + Suc k * sz)
          (concat (cmerge c (take (mid - i) (drop i xs)) (take (hi - Suc j) (drop (Suc j) xs))))"
        using True less.prems right(2) by (intro less.hyps) linarith+
      ultimately show ?thesis using R by (simp only: right(3)) (simp add: A B)
    next
      case L: False
      then have "merge_loop cmp sz src dst mid hi i j k m =
          merge_loop cmp sz src dst mid hi (Suc i) j (Suc k) (store m (dst + k * sz) (xs ! i))"
        using True cmp left(1) by (subst merge_loop.simps) simp
      moreover have "merge_tail sz src dst mid hi
          (merge_loop cmp sz src dst mid hi (Suc i) j (Suc k) (store m (dst + k * sz) (xs ! i))) =
        store (store m (dst + k * sz) (xs ! i)) (dst + Suc k * sz)
          (concat (cmerge c (take (mid - Suc i) (drop (Suc i) xs)) (take (hi - j) (drop j xs))))"
        using True less.prems left(2) by (intro less.hyps) linarith+
      ultimately show ?thesis using L by (simp only: left(3)) (simp add: A B)
    qed
  next
    case False
    then have "merge_loop cmp sz src dst mid hi i j k m = (m, i, j, k)" by (subst merge_loop.simps) auto
    with False show ?thesis
      using less.prems copy_elems(1) [OF assms(2) arr, of i "mid - i" k] copy_elems(1) [OF assms(2) arr, of j "hi - j" k]
      by (auto simp: merge_tail_def)
  qed
qed

lemma merge_run_store:
  assumes "pure_cmp cmp sz c" "away src dst (length xs * sz)" "arr m src sz xs" "lo < length xs" "0 < w"
  shows "merge_run cmp sz src dst (length xs) w lo m =
    store m (dst + lo * sz) (concat (cmerge c (take w (drop lo xs)) (take w (drop w (drop lo xs)))))"
proof -
  let ?mid = "if lo + w < length xs then lo + w else length xs"
  let ?hi = "if lo + 2 * w < length xs then lo + 2 * w else length xs"
  have t: "take (?mid - lo) (drop lo xs) = take w (drop lo xs)"
    "take (?hi - ?mid) (drop ?mid xs) = take w (drop w (drop lo xs))"
    by (auto simp: ac_simps)
  have "merge_tail sz src dst ?mid ?hi (merge_loop cmp sz src dst ?mid ?hi lo ?mid lo m) =
     store m (dst + lo * sz) (concat (cmerge c (take (?mid - lo) (drop lo xs)) (take (?hi - ?mid) (drop ?mid xs))))"
    using assms(4,5) by (intro merge_loop_store [OF assms(1-3)]) auto
  then show ?thesis unfolding t merge_run_def Let_def .
qed

lemma arr_uniform: "arr m p sz xs \<Longrightarrow> x \<in> set xs \<Longrightarrow> length x = sz"
  by (simp add: arr_def)

lemma merge_pass_store:
  assumes "pure_cmp cmp sz c" "away src dst (length xs * sz)" "0 < w"
  shows "arr m src sz xs \<Longrightarrow>
    merge_pass cmp sz src dst (length xs) w lo m = store m (dst + lo * sz) (concat (merge_runs c w (drop lo xs)))"
proof (induction "length xs - lo" arbitrary: lo m rule: less_induct)
  case less
  show ?case
  proof (cases "lo < length xs")
    case True
    define run where "run = cmerge c (take w (drop lo xs)) (take w (drop w (drop lo xs)))"
    let ?m = "store m (dst + lo * sz) (concat run)"
    have uni: "\<forall>x \<in> set run. length x = sz"
      using arr_uniform [OF less.prems] unfolding run_def by (auto dest!: in_set_takeD in_set_dropD)
    have len: "length run = min (2 * w) (length xs - lo)" unfolding run_def by auto
    have lrun: "lo + length run \<le> length xs" using len True by simp
    have bytes: "length (concat run) = length run * sz" using uni by (rule length_concat_uniform)
    have le: "lo * sz + length run * sz \<le> length xs * sz"
      using lrun by (metis add_mult_distrib mult_le_mono1)
    have arr: "arr ?m src sz xs"
      using assms(2) le bytes unfolding away_def by (intro arr_store_other [OF less.prems]) linarith
    have "merge_pass cmp sz src dst (length xs) w lo m = merge_pass cmp sz src dst (length xs) w (lo + 2 * w) ?m"
      using True assms(3) merge_run_store [OF assms(1,2) less.prems True assms(3)]
      by (subst merge_pass.simps) (simp add: run_def)
    also have "\<dots> = store ?m (dst + (lo + 2 * w) * sz) (concat (merge_runs c w (drop (lo + 2 * w) xs)))"
      using True assms(3) arr by (intro less.hyps) simp_all
    also have "\<dots> = store m (dst + lo * sz) (concat run @ concat (merge_runs c w (drop (lo + 2 * w) xs)))"
    proof (cases "lo + 2 * w \<le> length xs")
      case True
      then have "dst + (lo + 2 * w) * sz = dst + lo * sz + length (concat run)"
        using len bytes by (simp add: add_mult_distrib)
      then show ?thesis by (simp only: store_append)
    qed (simp add: merge_runs.simps)
    also have "\<dots> = store m (dst + lo * sz) (concat (merge_runs c w (drop lo xs)))"
      using True assms(3) by (subst (2) merge_runs.simps) (simp add: run_def add.commute)
    finally show ?thesis .
  next
    case False
    then show ?thesis by (subst merge_pass.simps) (simp add: merge_runs.simps)
  qed
qed

definition same_outside :: "nat \<Rightarrow> nat \<Rightarrow> nat \<Rightarrow> mem \<Rightarrow> mem \<Rightarrow> bool" where
  "same_outside p q len m m' \<longleftrightarrow>
     (\<forall>a. \<not> (p \<le> a \<and> a < p + len) \<longrightarrow> \<not> (q \<le> a \<and> a < q + len) \<longrightarrow> m' a = m a)"

lemma merge_widths_arr:
  assumes "pure_cmp cmp sz c"
  shows "away src dst (length xs * sz) \<Longrightarrow> arr m src sz xs \<Longrightarrow> 0 < w \<Longrightarrow>
    \<exists>m' p. merge_widths cmp sz src dst (length xs) w m = (m', p) \<and> (p = src \<or> p = dst) \<and>
      arr m' p sz (merge_up c w xs) \<and> same_outside src dst (length xs * sz) m m'"
proof (induction "length xs - w" arbitrary: src dst w xs m rule: less_induct)
  case less
  show ?case
  proof (cases "w < length xs")
    case True
    let ?ys = "merge_runs c w xs" and ?m = "store m dst (concat (merge_runs c w xs))"
    have uni: "\<forall>x \<in> set ?ys. length x = sz"
      using set_merge_runs [OF less.prems(3), of c xs] arr_uniform [OF less.prems(2)] by blast
    have len: "length ?ys = length xs" using less.prems(3) by simp
    have pass: "merge_pass cmp sz src dst (length xs) w 0 m = ?m"
      using merge_pass_store [OF assms less.prems(1,3,2), of 0] by simp
    have step: "merge_widths cmp sz src dst (length xs) w m = merge_widths cmp sz dst src (length ?ys) (2 * w) ?m"
      using True less.prems(3) by (subst merge_widths.simps) (simp add: pass mult.commute)
    have "away dst src (length ?ys * sz)" "0 < 2 * w" "length ?ys - 2 * w < length xs - w"
      using less.prems(1,3) True by (auto simp: away_def)
    from less.hyps [OF this(3,1) arr_store_same [OF uni] this(2)]
    obtain m' p where r: "merge_widths cmp sz dst src (length ?ys) (2 * w) ?m = (m', p)" "p = dst \<or> p = src"
      "arr m' p sz (merge_up c (2 * w) ?ys)" "same_outside dst src (length ?ys * sz) ?m m'" by blast
    have "same_outside src dst (length xs * sz) m m'"
      using r(4) length_concat_uniform [OF uni] unfolding same_outside_def len by (simp add: store_at)
    moreover have "merge_up c (2 * w) ?ys = merge_up c w xs"
      using True less.prems(3) by (subst (2) merge_up.simps) simp
    ultimately show ?thesis using step r by auto
  next
    case False
    then show ?thesis using less.prems
      by (subst merge_widths.simps, subst merge_up.simps) (simp add: same_outside_def)
  qed
qed

lemma length_merge_up [simp]: "length (merge_up c w xs) = length xs"
proof (induction c w xs rule: merge_up.induct)
  case (1 c w xs)
  then show ?case by (subst merge_up.simps) simp
qed

lemma merge_sort_arr:
  assumes "pure_cmp cmp sz c" "away base tmp (length xs * sz)" "arr m base sz xs"
  shows "arr (merge_sort m base tmp (length xs) sz cmp) base sz (merge_up c 1 xs)"
    "same_outside base tmp (length xs * sz) m (merge_sort m base tmp (length xs) sz cmp)"
proof -
  obtain m' p where r: "merge_widths cmp sz base tmp (length xs) 1 m = (m', p)" "p = base \<or> p = tmp"
    "arr m' p sz (merge_up c 1 xs)" "same_outside base tmp (length xs * sz) m m'"
    using merge_widths_arr [OF assms, of 1] by auto
  show "arr (merge_sort m base tmp (length xs) sz cmp) base sz (merge_up c 1 xs)"
    "same_outside base tmp (length xs * sz) m (merge_sort m base tmp (length xs) sz cmp)"
  proof (atomize (full), cases "p = base")
    case True
    with r show "arr (merge_sort m base tmp (length xs) sz cmp) base sz (merge_up c 1 xs) \<and>
        same_outside base tmp (length xs * sz) m (merge_sort m base tmp (length xs) sz cmp)"
      by (simp add: merge_sort_def)
  next
    case False
    with r(2) have p: "p = tmp" by simp
    let ?ys = "merge_up c 1 xs"
    have "base \<le> tmp \<or> tmp + length xs * sz \<le> base" using assms(2) by (auto simp: away_def)
    from memcpy_store [OF this, of m'] have "merge_sort m base tmp (length xs) sz cmp = store m' base (concat ?ys)"
      using r(1,3) False p by (simp add: merge_sort_def arr_def)
    moreover have "\<forall>x \<in> set ?ys. length x = sz" using r(3) by (simp add: arr_def)
    ultimately show "arr (merge_sort m base tmp (length xs) sz cmp) base sz ?ys \<and>
        same_outside base tmp (length xs * sz) m (merge_sort m base tmp (length xs) sz cmp)"
      using r(4) arr_store_same [of ?ys sz m' base] length_concat_uniform [of ?ys sz]
      by (simp add: same_outside_def store_at)
  qed
qed

section \<open>Insertion in memory\<close>

lemma bytes_append: "bytes m p (a + b) = bytes m p a @ bytes m (p + a) b"
  by (rule nth_equalityI) (auto simp: nth_append)

lemma arr_iff: "arr m p sz xs \<longleftrightarrow> (\<forall>i < length xs. bytes m (p + i * sz) sz = xs ! i)"
proof
  assume r: "\<forall>i < length xs. bytes m (p + i * sz) sz = xs ! i"
  then show "arr m p sz xs"
  proof (induction xs arbitrary: p)
    case (Cons x xs)
    then have x: "bytes m p sz = x" by fastforce
    have "bytes m (p + sz + i * sz) sz = xs ! i" if "i < length xs" for i
      using Cons.prems that by (auto dest: spec [of _ "Suc i"] simp: add.assoc)
    then have "arr m (p + sz) sz xs" by (intro Cons.IH) blast
    with x show ?case by (auto simp: arr_def bytes_append)
  qed (simp add: arr_def bytes_def)
qed (simp add: arr_nth)

lemma swap_elems_at:
  "n \<le> sz \<Longrightarrow> fold (\<lambda>k m. m(p + k := m (p + sz + k), p + sz + k := m (p + k))) [0..<n] m a =
     (if p \<le> a \<and> a < p + n then m (a + sz) else if p + sz \<le> a \<and> a < p + sz + n then m (a - sz) else m a)"
  by (induction n arbitrary: a) (auto simp: less_Suc_eq ac_simps)

lemma swap_elems_arr:
  assumes "arr m base sz (ys @ y # x # zs)"
  defines "p \<equiv> base + length ys * sz"
  shows "arr (swap_elems p (p + sz) sz m) base sz (ys @ x # y # zs)"
    "same_outside base base (length (ys @ y # x # zs) * sz) m (swap_elems p (p + sz) sz m)"
proof -
  let ?m = "swap_elems p (p + sz) sz m" and ?xs = "ys @ y # x # zs" and ?n = "length ys"
  have at: "?m a = (if p \<le> a \<and> a < p + sz then m (a + sz)
      else if p + sz \<le> a \<and> a < p + 2 * sz then m (a - sz) else m a)" for a
    using swap_elems_at [of sz sz p m a] by (simp add: swap_elems_def)
  have elem: "bytes m (base + i * sz) sz = ?xs ! i" if "i < length ?xs" for i
    using assms(1) that by (auto simp: arr_iff)
  have old: "bytes m (p + sz) sz = x" "bytes m p sz = y"
    using elem [of "Suc ?n"] elem [of ?n] by (simp_all add: p_def nth_append ac_simps)
  have x: "bytes ?m p sz = x" unfolding old(1) [symmetric] by (auto simp: at bytes_def ac_simps)
  have y: "bytes ?m (p + sz) sz = y" unfolding old(2) [symmetric] by (auto simp: at bytes_def)
  have other: "bytes ?m (base + i * sz) sz = bytes m (base + i * sz) sz" if "i \<noteq> ?n" "i \<noteq> Suc ?n" for i
  proof -
    have "i * sz + sz \<le> ?n * sz \<or> ?n * sz + 2 * sz \<le> i * sz"
    proof (cases "i < ?n")
      case True
      then have "Suc i * sz \<le> ?n * sz" by (intro mult_le_mono1) simp
      then show ?thesis by simp
    next
      case False
      then have "(?n + 2) * sz \<le> i * sz" using that by (intro mult_le_mono1) simp
      then show ?thesis by (simp add: add_mult_distrib)
    qed
    then have "base + i * sz + sz \<le> p \<or> p + 2 * sz \<le> base + i * sz" by (auto simp: p_def)
    then show ?thesis by (auto simp: bytes_def at)
  qed
  show "arr ?m base sz (ys @ x # y # zs)" unfolding arr_iff
  proof (intro allI impI)
    fix i assume i: "i < length (ys @ x # y # zs)"
    consider "i = ?n" | "i = Suc ?n" | "i \<noteq> ?n" "i \<noteq> Suc ?n" by blast
    then show "bytes ?m (base + i * sz) sz = (ys @ x # y # zs) ! i"
    proof cases
      case 1 then show ?thesis using x by (simp add: p_def)
    next
      case 2 then show ?thesis using y by (simp add: p_def nth_append ac_simps)
    next
      case 3 then show ?thesis using other [OF 3] elem [of i] i by (auto simp: nth_append nth_Cons split: nat.splits)
    qed
  qed
  have "base \<le> p" "p + 2 * sz \<le> base + length ?xs * sz" by (simp_all add: p_def add_mult_distrib)
  then show "same_outside base base (length ?xs * sz) m ?m"
    unfolding same_outside_def at by auto
qed

lemma same_outside_trans:
  "same_outside p q len m m1 \<Longrightarrow> same_outside p q len m1 m2 \<Longrightarrow> same_outside p q len m m2"
  by (simp add: same_outside_def)

lemma same_outside_refl [simp]: "same_outside p q len m m"
  by (simp add: same_outside_def)

lemma sink_loop_arr:
  assumes "pure_cmp cmp sz c"
  shows "arr m base sz (ys @ x # zs) \<Longrightarrow>
    arr (sink_loop cmp sz base (length ys) m) base sz (rev (settle c x (rev ys)) @ zs) \<and>
    same_outside base base (length (ys @ x # zs) * sz) m (sink_loop cmp sz base (length ys) m)"
proof (induction ys arbitrary: m zs rule: rev_induct)
  case Nil
  then show ?case by simp
next
  case (snoc y ys)
  let ?p = "base + length ys * sz"
  have a: "arr m base sz (ys @ y # x # zs)" using snoc.prems by simp
  have cmp: "cmp m ?p (?p + sz) = c y x"
    using pure_cmp_arr [OF assms a, of "length ys" "Suc (length ys)"] by (simp add: nth_append ac_simps)
  show ?case
  proof (cases "0 < c y x")
    case True
    let ?m = "swap_elems ?p (?p + sz) sz m"
    note sw = swap_elems_arr [OF a]
    from snoc.IH [OF sw(1)] have
      "arr (sink_loop cmp sz base (length ys) ?m) base sz (rev (settle c x (rev ys)) @ y # zs)"
      "same_outside base base (length (ys @ x # y # zs) * sz) ?m (sink_loop cmp sz base (length ys) ?m)"
      by blast+
    moreover have "sink_loop cmp sz base (length (ys @ [y])) m = sink_loop cmp sz base (length ys) ?m"
      using True cmp by (simp add: ac_simps)
    ultimately show ?thesis using True sw(2) same_outside_trans by (auto simp del: sink_loop.simps)
  next
    case False
    then have "sink_loop cmp sz base (length (ys @ [y])) m = m" using cmp by (simp add: ac_simps)
    with False snoc.prems show ?thesis by (simp del: sink_loop.simps)
  qed
qed

lemma insertion_sort_arr:
  assumes "pure_cmp cmp sz c" "c_comparator c" "arr m base sz xs"
  shows "arr (insertion_sort m base (length xs) sz cmp) base sz (Sorting_Algorithms.sort (c_order c) xs)"
    "same_outside base base (length xs * sz) m (insertion_sort m base (length xs) sz cmp)"
proof -
  let ?s = "Sorting_Algorithms.sort (c_order c)" and ?f = "\<lambda>i m. sink_loop cmp sz base i m"
  have step: "arr (fold ?f [1..<i] m) base sz (?s (take i xs) @ drop i xs) \<and>
      same_outside base base (length xs * sz) m (fold ?f [1..<i] m)" if "1 \<le> i" "i \<le> length xs" for i
    using that
  proof (induction i rule: nat_induct_at_least)
    case base
    then obtain x ys where "xs = x # ys" by (cases xs) auto
    with assms(3) show ?case by simp
  next
    case (Suc i)
    let ?m = "fold ?f [1..<i] m" and ?ys = "?s (take i xs)"
    have i: "i < length xs" using Suc.prems by simp
    have len: "length ?ys = i" "length (?ys @ xs ! i # drop (Suc i) xs) = length xs" using i by simp_all
    have d: "drop i xs = xs ! i # drop (Suc i) xs" using i by (simp add: Cons_nth_drop_Suc)
    have ih: "arr ?m base sz (?ys @ xs ! i # drop (Suc i) xs)"
      "same_outside base base (length xs * sz) m ?m" using Suc.IH i d by auto
    have "arr (?f i ?m) base sz (rev (settle c (xs ! i) (rev ?ys)) @ drop (Suc i) xs) \<and>
        same_outside base base (length xs * sz) ?m (?f i ?m)"
      using sink_loop_arr [OF assms(1) ih(1)] unfolding len .
    moreover have "rev (settle c (xs ! i) (rev ?ys)) = ?s (take (Suc i) xs)"
      using c_comparator.sink_sort [OF assms(2), of "xs ! i" "take i xs"] i by (simp add: take_Suc_conv_app_nth)
    moreover have "fold ?f [1..<Suc i] m = ?f i ?m" using Suc.hyps by simp
    ultimately show ?case using ih(2) same_outside_trans by auto
  qed
  have "arr (insertion_sort m base (length xs) sz cmp) base sz (?s xs) \<and>
      same_outside base base (length xs * sz) m (insertion_sort m base (length xs) sz cmp)"
  proof (cases "xs = []")
    case False
    then show ?thesis using step [of "length xs"] by (simp add: insertion_sort_def Suc_le_eq)
  qed (use assms(3) in \<open>simp add: insertion_sort_def\<close>)
  then show "arr (insertion_sort m base (length xs) sz cmp) base sz (?s xs)"
    "same_outside base base (length xs * sz) m (insertion_sort m base (length xs) sz cmp)" by auto
qed

section \<open>qsort\<close>

lemma merge_sort_sorts:
  assumes "pure_cmp cmp sz c" "c_comparator c" "away base tmp (length xs * sz)" "arr m base sz xs"
  shows "arr (merge_sort m base tmp (length xs) sz cmp) base sz (Sorting_Algorithms.sort (c_order c) xs)"
  using merge_sort_arr(1) [OF assms(1,3,4)] c_comparator.merge_up_sort [OF assms(2)] by simp

text \<open>The array lies in a live allocation, so the scratch buffer cannot meet it.\<close>

definition in_live :: "heap \<Rightarrow> nat \<Rightarrow> nat \<Rightarrow> bool" where
  "in_live h p len \<longleftrightarrow> (\<exists>q l. live_map h q = Some l \<and> q \<le> p \<and> p + len \<le> q + l)"

lemma fresh_away:
  assumes "heap_quiet h" "n \<le> REQUEST_MAX" "malloc ok (Suc t) h n = Some (Some tmp, h1)" "in_live h p n"
  shows "away p tmp n"
proof -
  obtain q l where q: "live_map h q = Some l" "q \<le> p" "p + n \<le> q + l" using assms(4) by (auto simp: in_live_def)
  from heap_alloc.alloc_fresh [OF assms(1-3) q(1)] q(2,3) show ?thesis unfolding away_def by linarith
qed

text \<open>C9. qsort in memory. For a comparison function that depends only on the two elements and is a total
  preorder, qsort of an array in a live allocation returns and leaves in its place the stable sort of the
  array, whether malloc gave it a scratch buffer (bottom-up merging) or not (exchanging neighbours). The
  live allocations are the same as before and no byte of any live allocation outside the array changes.\<close>

theorem qsort_stable_sort:
  assumes "heap_quiet h" "c_comparator c" "pure_cmp cmp sz c" "arr (hmem h) base sz xs"
    "in_live h base (length xs * sz)" "length xs * sz \<le> REQUEST_MAX"
  shows "\<exists>h'. qsort ok (Suc t) h base (length xs) sz cmp = Some h' \<and> heap_quiet h' \<and> live_map h' = live_map h \<and>
    arr (hmem h') base sz (Sorting_Algorithms.sort (c_order c) xs) \<and>
    (\<forall>p n a. live_map h p = Some n \<and> p \<le> a \<and> a < p + n \<and> \<not> (base \<le> a \<and> a < base + length xs * sz) \<longrightarrow>
       hmem h' a = hmem h a)"
proof -
  let ?n = "length xs" and ?s = "Sorting_Algorithms.sort (c_order c)"
  consider "?n < 2 \<or> sz = 0" | "2 \<le> ?n" "0 < sz" by linarith
  then show ?thesis
  proof cases
    case 1
    have "arr (hmem h) base sz (?s xs)"
    proof (cases "?n < 2")
      case True
      then consider "xs = []" | x where "xs = [x]" by (cases xs; cases "tl xs") auto
      then show ?thesis using assms(4) by cases simp_all
    next
      case False
      with 1 assms(4) show ?thesis by (auto simp: arr_def bytes_def)
    qed
    with 1 assms(1) show ?thesis by (auto simp: qsort_def)
  next
    case 2
    have "?n \<le> (SIZE_MOD - 1) div sz"
      using assms(6) 2(2) by (simp add: less_eq_div_iff_mult_less_eq)
    then have q: "qsort ok (Suc t) h base ?n sz cmp =
      (case malloc ok (Suc t) h (?n * sz) of None \<Rightarrow> None
       | Some (None, h1) \<Rightarrow> Some (h1\<lparr>hmem := insertion_sort (hmem h1) base ?n sz cmp\<rparr>)
       | Some (Some tmp, h1) \<Rightarrow> free (Suc t) (h1\<lparr>hmem := merge_sort (hmem h1) base tmp ?n sz cmp\<rparr>) (Some tmp))"
      using 2 by (simp add: qsort_def)
    obtain r h1 where m: "malloc ok (Suc t) h (?n * sz) = Some (r, h1)"
      using heap_alloc.alloc_returns [OF assms(1,6), of ok t] by auto
    show ?thesis
    proof (cases r)
      case None
      with m heap_alloc.alloc_fail [OF assms(1,6), of ok t h1]
      have h1: "heap_quiet h1" "live_map h1 = live_map h" "hmem h1 = hmem h" by auto
      note ins = insertion_sort_arr [OF assms(3,2,4)]
      let ?h' = "h1\<lparr>hmem := insertion_sort (hmem h1) base ?n sz cmp\<rparr>"
      have "qsort ok (Suc t) h base ?n sz cmp = Some ?h'" using q m None by simp
      then show ?thesis using ins h1 heap_alloc.put_simps(1,2)
        by (intro exI [of _ ?h']) (auto simp: same_outside_def)
    next
      case (Some tmp)
      with m have m': "malloc ok (Suc t) h (?n * sz) = Some (Some tmp, h1)" by simp
      have mem: "hmem h1 = hmem h" using heap_alloc.alloc_some [OF assms(1,6) m'] by blast
      have aw: "away base tmp (?n * sz)" by (rule fresh_away [OF assms(1,6) m' assms(5)])
      let ?m = "merge_sort (hmem h1) base tmp ?n sz cmp"
      have sorted: "arr ?m base sz (?s xs)" "same_outside base tmp (?n * sz) (hmem h) ?m"
        using merge_sort_sorts [OF assms(3,2) aw assms(4)] merge_sort_arr(2) [OF assms(3) aw assms(4)] mem by simp_all
      obtain h2 where h2: "free (Suc t) (h1\<lparr>hmem := ?m\<rparr>) (Some tmp) = Some h2" "heap_quiet h2"
        "live_map h2 = live_map h" "hmem h2 = ?m"
        using heap_alloc.scratch_buffer [OF assms(1,6) m'] by blast
      have "hmem h2 a = hmem h a"
        if "live_map h p = Some n" "p \<le> a" "a < p + n" "\<not> (base \<le> a \<and> a < base + ?n * sz)" for p n a
        using heap_alloc.alloc_fresh [OF assms(1,6) m' that(1)] that sorted(2) h2(4)
        by (auto simp: same_outside_def)
      then show ?thesis using q m' h2 sorted(1) by auto
    qed
  qed
qed

theorem qsort_stable_sort_witness:
  "\<exists>h p h'. heap_quiet h \<and> qsort (\<lambda>_ _. True) 7 h p 2 1 (\<lambda>m p q. field_cmp (bytes m p 1) (bytes m q 1)) = Some h' \<and>
     arr (hmem h) p 1 [''b'', ''a''] \<and> arr (hmem h') p 1 [''a'', ''b'']"
proof -
  let ?xs = "[''b'', ''a'']" and ?cmp = "\<lambda>m p q. field_cmp (bytes m p 1) (bytes m q 1)"
  have v: "fst (the (malloc (\<lambda>_ _. True) 7 (heap_init demo_break) 100)) = Some 4128"
    by (simp add: heap_eval Let_def)
  have "heap_quiet (heap_init demo_break)" "(7::nat) \<noteq> 0" "100 \<le> REQUEST_MAX" by simp_all
  then obtain p k h1 where h1: "heap_quiet h1" "live_map h1 p = Some k" "100 \<le> k"
    by (rule malloc_cases [where ok = "\<lambda>_ _. True"]) (use v in \<open>simp, metis fun_upd_same\<close>)
  let ?h = "h1\<lparr>hmem := store (hmem h1) p (concat ?xs)\<rparr>"
  have q: "heap_quiet ?h" "live_map ?h p = Some k" using h1 by (simp_all add: heap_alloc.put_simps)
  have arr: "arr (hmem ?h) p 1 ?xs" using arr_store_same [of ?xs 1 "hmem h1" p] by simp
  have len: "length ?xs * 1 \<le> REQUEST_MAX" by simp
  have il: "in_live ?h p (length ?xs * 1)" using q(2) h1(3) unfolding in_live_def by force
  have pure: "pure_cmp ?cmp 1 field_cmp" by (simp add: pure_cmp_def)
  have sorted: "Sorting_Algorithms.sort (c_order field_cmp) ?xs = [''a'', ''b'']"
    by (simp add: field_order.greater_iff field_cmp_def ub_def)
  have num: "length ?xs = 2" "Suc 6 = 7" by simp_all
  obtain h' where h': "qsort (\<lambda>_ _. True) (Suc 6) ?h p (length ?xs) 1 ?cmp = Some h'"
    "arr (hmem h') p 1 (Sorting_Algorithms.sort (c_order field_cmp) ?xs)"
    using qsort_stable_sort [OF q(1) field_order.c_comparator_axioms pure arr il len, of "\<lambda>_ _. True" 6] by blast
  show ?thesis
    by (intro exI conjI, rule q(1), rule h'(1) [unfolded num], rule arr, rule h'(2) [unfolded sorted])
qed

section \<open>bsearch\<close>

lemma bsearch_loop_correct:
  assumes "\<forall>i j. i \<le> j \<and> j < n \<longrightarrow> sgn (f j) \<le> sgn (f i)"
    and "\<And>i. i < n \<Longrightarrow> cmp m kp (base + i * sz) = f i"
  shows "lo \<le> hi \<Longrightarrow> hi \<le> n \<Longrightarrow> (\<forall>i < lo. 0 < f i) \<Longrightarrow> (\<forall>i. hi \<le> i \<and> i < n \<longrightarrow> f i < 0) \<Longrightarrow>
    (case bsearch_loop cmp m kp base sz lo hi of
       Some p \<Rightarrow> \<exists>i < n. p = base + i * sz \<and> f i = 0
     | None \<Rightarrow> \<forall>i < n. f i \<noteq> (0::int))"
proof (induction "hi - lo" arbitrary: lo hi rule: less_induct)
  case less
  show ?case
  proof (cases "lo < hi")
    case True
    let ?mid = "lo + (hi - lo) div 2"
    have mid: "lo \<le> ?mid" "?mid < hi" "?mid < n" using True less.prems(2) by auto
    have cmp: "cmp m kp (base + ?mid * sz) = f ?mid" using assms(2) mid(3) by blast
    consider "f ?mid < 0" | "0 < f ?mid" | "f ?mid = 0" by linarith
    then show ?thesis
    proof cases
      case 1
      have "f i < 0" if "?mid \<le> i" "i < n" for i
      proof -
        have "sgn (f i) \<le> sgn (f ?mid)" using assms(1) that by blast
        with 1 show ?thesis by (auto simp: sgn_if split: if_splits)
      qed
      then show ?thesis using less.hyps [of ?mid lo] less.prems mid cmp 1 True
        by (subst bsearch_loop.simps) (simp add: Let_def)
    next
      case 2
      have "0 < f i" if "i < ?mid + 1" for i
      proof -
        have "sgn (f ?mid) \<le> sgn (f i)" using assms(1) mid(3) that by auto
        with 2 show ?thesis by (auto simp: sgn_if split: if_splits)
      qed
      moreover have "bsearch_loop cmp m kp base sz lo hi = bsearch_loop cmp m kp base sz (?mid + 1) hi"
        using True cmp 2 by (subst bsearch_loop.simps) (simp add: Let_def)
      moreover have "hi - (?mid + 1) < hi - lo" using mid True by linarith
      ultimately show ?thesis using less.hyps [of hi "?mid + 1"] less.prems mid by simp
    next
      case 3
      with mid cmp True show ?thesis by (subst bsearch_loop.simps) (auto simp: Let_def)
    qed
  next
    case False
    have "f i \<noteq> 0" if "i < n" for i
    proof (cases "i < lo")
      case True
      then show ?thesis using less.prems(3) by fastforce
    next
      case i: False
      then have "hi \<le> i" using False by linarith
      then show ?thesis using less.prems(4) that by fastforce
    qed
    with False show ?thesis by (subst bsearch_loop.simps) simp
  qed
qed

text \<open>C35. bsearch over an array that is ordered for the comparison with the key (the signs never increase):
  it returns, with the address of an element that compares equal to the key when there is one, and NULL
  exactly when there is none.\<close>

theorem bsearch_correct:
  assumes "arr m base sz xs" "\<And>i. i < length xs \<Longrightarrow> cmp m kp (base + i * sz) = f (xs ! i)"
    and "\<forall>i j. i \<le> j \<and> j < length xs \<longrightarrow> sgn (f (xs ! j)) \<le> sgn (f (xs ! i))"
  shows "case bsearch m kp base (length xs) sz cmp of
      Some p \<Rightarrow> \<exists>i < length xs. p = base + i * sz \<and> bytes m p sz = xs ! i \<and> f (xs ! i) = 0
    | None \<Rightarrow> \<forall>x \<in> set xs. f x \<noteq> 0"
proof -
  have "case bsearch m kp base (length xs) sz cmp of
      Some p \<Rightarrow> \<exists>i < length xs. p = base + i * sz \<and> f (xs ! i) = 0 | None \<Rightarrow> \<forall>i < length xs. f (xs ! i) \<noteq> 0"
    unfolding bsearch_def
    using bsearch_loop_correct [of "length xs" "\<lambda>i. f (xs ! i)" cmp m kp base sz 0 "length xs"] assms(2,3) by simp
  then show ?thesis using arr_nth [OF assms(1)] by (auto simp: in_set_conv_nth split: option.splits)
qed

theorem bsearch_correct_witness:
  "\<exists>p. bsearch (store (\<lambda>_. NUL) 100 ''ace'') 0 100 3 1 (\<lambda>m _ p. ub (CHR ''c'') - ub (m p)) = Some p \<and>
     bytes (store (\<lambda>_. NUL) 100 ''ace'') p 1 = ''c''"
proof -
  let ?m = "store (\<lambda>_. NUL) 100 ''ace''" and ?xs = "[''a'', ''c'', ''e'']"
  let ?cmp = "\<lambda>m _ p. ub (CHR ''c'') - ub (m p)" and ?f = "\<lambda>x. ub (CHR ''c'') - ub (hd x)"
  have arr: "arr ?m 100 1 ?xs" using arr_store_same [of ?xs 1 "\<lambda>_. NUL" 100] by simp
  have f: "?cmp ?m 0 (100 + i * 1) = ?f (?xs ! i)" if "i < length ?xs" for i
    using that by (auto simp: less_Suc_eq store_at nth_Cons')
  have sg: "\<forall>i j. i \<le> j \<and> j < length ?xs \<longrightarrow> sgn (?f (?xs ! j)) \<le> sgn (?f (?xs ! i))"
    by (auto simp: less_Suc_eq le_Suc_eq ub_def nth_Cons')
  have n: "length ?xs = 3" by simp
  note b = bsearch_correct [of ?m 100 1 ?xs ?cmp 0 ?f, OF arr f sg, unfolded n]
  have "?f ''c'' = 0" "''c'' \<in> set ?xs" by simp_all
  with b obtain p i where p: "bsearch ?m 0 100 3 1 ?cmp = Some p" "i < 3" "bytes ?m p 1 = ?xs ! i" "?f (?xs ! i) = 0"
    by (cases "bsearch ?m 0 100 3 1 ?cmp") (force, force)
  then have "?xs ! i = ''c''" by (auto simp: less_Suc_eq numeral_3_eq_3 ub_def)
  with p show ?thesis by auto
qed

section \<open>strdup and strndup\<close>

text \<open>The outcome of filling a fresh allocation with a string.\<close>

definition duplicated :: "heap \<Rightarrow> string \<Rightarrow> nat \<Rightarrow> heap \<Rightarrow> bool" where
  "duplicated h t p h' \<longleftrightarrow> heap_quiet h' \<and> live_map h p = None \<and>
     (\<exists>k > length t. live_map h' = (live_map h)(p \<mapsto> k)) \<and> cstr (hmem h') p t \<and>
     (\<forall>q n a. live_map h q = Some n \<and> q \<le> a \<and> a < q + n \<longrightarrow> hmem h' a = hmem h a)"

lemma fresh_string:
  assumes "heap_quiet h" "length t + 1 \<le> REQUEST_MAX" "malloc ok (Suc t') h (length t + 1) = Some (Some p, h1)"
    "NUL \<notin> set t"
  shows "duplicated h t p (h1\<lparr>hmem := store (hmem h1) p (t @ [NUL])\<rparr>)"
proof -
  let ?h = "h1\<lparr>hmem := store (hmem h1) p (t @ [NUL])\<rparr>"
  obtain k where k: "heap_quiet h1" "live_map h p = None" "hmem h1 = hmem h" "length t + 1 \<le> k"
    "live_map h1 = (live_map h)(p \<mapsto> k)" using heap_alloc.alloc_some [OF assms(1-3)] by blast
  have "hmem ?h a = hmem h a" if "live_map h q = Some n" "q \<le> a" "a < q + n" for q n a
    using heap_alloc.alloc_fresh [OF assms(1-3) that(1)] that(2,3) k(3) by (auto simp: store_at)
  moreover have "cstr (hmem ?h) p t" using cstr_store [OF assms(4)] by simp
  ultimately show ?thesis using k unfolding duplicated_def
    by (auto simp: heap_alloc.put_simps(1,2) intro!: exI [of _ k])
qed

lemma bytes_cstr: "cstr m s t \<Longrightarrow> n \<le> length t \<Longrightarrow> bytes m s n = take n t"
  by (rule nth_equalityI) (auto simp: cstr_nth)

lemma strdup_cases:
  assumes "heap_quiet h" "cstr (hmem h) s t" "in_live h s (length t + 1)" "length t + 1 \<le> REQUEST_MAX"
  shows "case strdup ok (Suc t') h s of
      None \<Rightarrow> False
    | Some (None, h') \<Rightarrow> heap_quiet h' \<and> live_map h' = live_map h \<and> hmem h' = hmem h
    | Some (Some p, h') \<Rightarrow> duplicated h t p h'"
proof -
  have len: "strlen (hmem h) s = Some (length t)" by (rule strlen_cstr [OF assms(2)])
  obtain r h1 where m: "malloc ok (Suc t') h (length t + 1) = Some (r, h1)"
    using heap_alloc.alloc_returns [OF assms(1,4), of ok t'] by auto
  show ?thesis
  proof (cases r)
    case None
    then show ?thesis using m heap_alloc.alloc_fail [OF assms(1,4), of ok t' h1] by (simp add: strdup_def len)
  next
    case (Some p)
    with m have m': "malloc ok (Suc t') h (length t + 1) = Some (Some p, h1)" by simp
    have mem: "hmem h1 = hmem h" using heap_alloc.alloc_some [OF assms(1,4) m'] by blast
    have "away s p (length t + 1)" by (rule fresh_away [OF assms(1,4) m' assms(3)])
    then have "p \<le> s \<or> s + (length t + 1) \<le> p" by (auto simp: away_def)
    from memcpy_store [OF this] have "snd (memcpy (hmem h1) p s (length t + 1)) = store (hmem h1) p (t @ [NUL])"
      using assms(2) by (simp add: mem bytes_append cstr_def) (simp add: bytes_def)
    then show ?thesis using m' fresh_string [OF assms(1,4) m'] assms(2)
      by (simp add: strdup_def len cstr_def)
  qed
qed

lemma strndup_cases:
  assumes "heap_quiet h" "cstr (hmem h) s t" "in_live h s (length t + 1)" "min n (length t) + 1 \<le> REQUEST_MAX"
  shows "case strndup ok (Suc t') h s n of
      None \<Rightarrow> False
    | Some (None, h') \<Rightarrow> heap_quiet h' \<and> live_map h' = live_map h \<and> hmem h' = hmem h
    | Some (Some p, h') \<Rightarrow> duplicated h (take n t) p h'"
proof -
  let ?u = "take n t"
  have len: "strnlen (hmem h) s n = length ?u" using strnlen_cstr [OF assms(2), of n] by (simp add: min.commute)
  have lim: "length ?u + 1 \<le> REQUEST_MAX" using assms(4) by (simp add: min.commute)
  obtain r h1 where m: "malloc ok (Suc t') h (length ?u + 1) = Some (r, h1)"
    using heap_alloc.alloc_returns [OF assms(1) lim, of ok t'] by auto
  show ?thesis
  proof (cases r)
    case None
    then show ?thesis using m heap_alloc.alloc_fail [OF assms(1) lim, of ok t' h1]
      unfolding strndup_def len Let_def by simp
  next
    case (Some p)
    with m have m': "malloc ok (Suc t') h (length ?u + 1) = Some (Some p, h1)" by simp
    have mem: "hmem h1 = hmem h" using heap_alloc.alloc_some [OF assms(1) lim m'] by blast
    have "in_live h s (length ?u + 1)" using assms(3) unfolding in_live_def by force
    from fresh_away [OF assms(1) lim m' this] have "p \<le> s \<or> s + length ?u \<le> p" by (auto simp: away_def)
    from memcpy_store [OF this] have "snd (memcpy (hmem h1) p s (length ?u)) = store (hmem h1) p ?u"
      using bytes_cstr [OF assms(2), of "length ?u"] by (simp add: mem min_def split: if_splits)
    then have "(snd (memcpy (hmem h1) p s (length ?u)))(p + length ?u := NUL) = store (hmem h1) p (?u @ [NUL])"
      using store_append [of "hmem h1" p ?u "[NUL]"] by simp
    moreover have "NUL \<notin> set ?u" using assms(2) by (auto simp: cstr_def dest: in_set_takeD)
    ultimately show ?thesis using m' fresh_string [OF assms(1) lim m']
      unfolding strndup_def len Let_def by simp
  qed
qed

text \<open>C36. strdup and strndup of a string in a live allocation return; a NULL result leaves allocations
  and memory as they were, and a pointer is a fresh allocation that holds the string, or its first \<open>n\<close>
  bytes, while no byte of an older allocation changes, so the original is intact.\<close>

theorem strdup_strndup_fresh:
  assumes "heap_quiet h" "cstr (hmem h) s t" "in_live h s (length t + 1)" "length t + 1 \<le> REQUEST_MAX"
  shows "(case strdup ok (Suc t') h s of
      None \<Rightarrow> False
    | Some (None, h') \<Rightarrow> heap_quiet h' \<and> live_map h' = live_map h \<and> hmem h' = hmem h
    | Some (Some p, h') \<Rightarrow> duplicated h t p h') \<and>
    (case strndup ok (Suc t') h s n of
      None \<Rightarrow> False
    | Some (None, h') \<Rightarrow> heap_quiet h' \<and> live_map h' = live_map h \<and> hmem h' = hmem h
    | Some (Some p, h') \<Rightarrow> duplicated h (take n t) p h')"
  using strdup_cases [OF assms] strndup_cases [OF assms(1-3), of n] assms(4) by simp

theorem strdup_strndup_fresh_witness:
  "\<exists>h s. heap_quiet h \<and> cstr (hmem h) s ''env'' \<and>
     strdup (\<lambda>_ _. True) (Suc 6) h s \<noteq> None \<and> strndup (\<lambda>_ _. True) (Suc 6) h s 2 \<noteq> None"
proof -
  have v: "fst (the (malloc (\<lambda>_ _. True) 7 (heap_init demo_break) 100)) = Some 4128"
    by (simp add: heap_eval Let_def)
  have "heap_quiet (heap_init demo_break)" "(7::nat) \<noteq> 0" "100 \<le> REQUEST_MAX" by simp_all
  then obtain p k h1 where h1: "heap_quiet h1" "live_map h1 p = Some k" "100 \<le> k"
    by (rule malloc_cases [where ok = "\<lambda>_ _. True"]) (use v in \<open>simp, metis fun_upd_same\<close>)
  let ?h = "h1\<lparr>hmem := store (hmem h1) p (''env'' @ [NUL])\<rparr>"
  have q: "heap_quiet ?h" "live_map ?h p = Some k" using h1 by (simp_all add: heap_alloc.put_simps)
  have s: "cstr (hmem ?h) p ''env''" using cstr_store [of "''env''" "hmem h1" p] by simp
  have il: "in_live ?h p (length ''env'' + 1)" using q(2) h1(3) unfolding in_live_def by force
  have len: "length ''env'' + 1 \<le> REQUEST_MAX" by simp
  note w = strdup_strndup_fresh [OF q(1) s il len, of "\<lambda>_ _. True" 6 2]
  have "strdup (\<lambda>_ _. True) (Suc 6) ?h p \<noteq> None" "strndup (\<lambda>_ _. True) (Suc 6) ?h p 2 \<noteq> None"
    using w by (auto split: option.splits)
  then show ?thesis using q(1) s by blast
qed

section \<open>rand_r\<close>

lemma xor_shift_bound:
  fixes a b :: "32 word"
  assumes "take_bit n a = a" "n + 10 \<le> 31"
  shows "take_bit (n + 10) (push_bit 10 a XOR (b mod 1024)) = push_bit 10 a XOR (b mod 1024)"
proof -
  have b: "b mod 1024 = take_bit 10 b" by (simp add: take_bit_eq_mod)
  have a: "bit a i \<Longrightarrow> i < n" for i using assms(1) by (metis bit_take_bit_iff)
  show ?thesis unfolding b by (rule bit_eqI) (auto simp: bit_simps dest: a)
qed

lemma rand_r_bounds:
  "0 \<le> fst (rand_r seed) \<and> fst (rand_r seed) \<le> 2147483647"
proof -
  define n1 where "n1 = seed * 1103515245 + (12345 :: 32 word)"
  define n2 where "n2 = n1 * 1103515245 + 12345"
  define n3 where "n3 = n2 * 1103515245 + 12345"
  define r1 where "r1 = (n1 div 65536) mod 2048"
  define r2 where "r2 = push_bit 10 r1 XOR ((n2 div 65536) mod 1024)"
  define r3 where "r3 = push_bit 10 r2 XOR ((n3 div 65536) mod 1024)"
  have "r1 = take_bit 11 (n1 div 65536)" by (simp add: r1_def take_bit_eq_mod)
  then have "take_bit 11 r1 = r1" by simp
  then have "take_bit (11 + 10) r2 = r2" unfolding r2_def by (intro xor_shift_bound) simp_all
  then have "take_bit (21 + 10) r3 = r3" unfolding r3_def by (intro xor_shift_bound) simp_all
  then have "take_bit 31 r3 = r3" by simp
  then have "uint r3 = take_bit 31 (uint r3)" by (metis unsigned_take_bit_eq)
  moreover have "take_bit 31 (uint r3) < 2 ^ 31" by (rule take_bit_int_less_exp)
  ultimately have lt: "uint r3 < 2147483648" by simp
  have "- 2147483648 \<le> uint r3" using uint_ge_0 [of r3] by linarith
  with lt have "sint r3 = uint r3"
    unfolding sint_uint by (intro signed_take_bit_int_eq_self) simp_all
  moreover have "fst (rand_r seed) = sint r3"
    unfolding rand_r_def Let_def fst_conv r3_def r2_def r1_def n3_def n2_def n1_def ..
  ultimately show ?thesis using lt by simp
qed

end
