(* ===== verification/Numconv.thy ===== *)
theory Numconv
  imports CString "HOL-Library.Word"
begin

text \<open>
  \<open>lib/moqi_libc/src/numconv.c\<close>: the strtol family, the absolute values and divisions, and the
  additive feedback generator behind \<open>rand\<close>; \<open>atoi\<close> of \<open>src/stdlib.c\<close> and the character classes of
  \<open>include/ctype.h\<close> that it and other parts use. A string argument is its characters before the
  terminator; positions are indexes into it. A conversion returns the value, what it stores through
  \<open>end\<close> (\<open>None\<close> when it stores nothing) and the errno value it sets, if any.
\<close>

section \<open>Character classes\<close>

definition isascii :: "int \<Rightarrow> bool" where "isascii c \<longleftrightarrow> c \<ge> 0 \<and> c \<le> 127"
definition isdigit :: "int \<Rightarrow> bool" where "isdigit c \<longleftrightarrow> c \<ge> 48 \<and> c \<le> 57"
definition isupper :: "int \<Rightarrow> bool" where "isupper c \<longleftrightarrow> c \<ge> 65 \<and> c \<le> 90"
definition islower :: "int \<Rightarrow> bool" where "islower c \<longleftrightarrow> c \<ge> 97 \<and> c \<le> 122"
definition isalpha :: "int \<Rightarrow> bool" where "isalpha c \<longleftrightarrow> isupper c \<or> islower c"
definition isalnum :: "int \<Rightarrow> bool" where "isalnum c \<longleftrightarrow> isalpha c \<or> isdigit c"
definition isxdigit :: "int \<Rightarrow> bool" where
  "isxdigit c \<longleftrightarrow> isdigit c \<or> (c \<ge> 97 \<and> c \<le> 102) \<or> (c \<ge> 65 \<and> c \<le> 70)"
definition isblank :: "int \<Rightarrow> bool" where "isblank c \<longleftrightarrow> c = 32 \<or> c = 9"
definition isspace :: "int \<Rightarrow> bool" where "isspace c \<longleftrightarrow> c = 32 \<or> (c \<ge> 9 \<and> c \<le> 13)"
definition iscntrl :: "int \<Rightarrow> bool" where "iscntrl c \<longleftrightarrow> (c \<ge> 0 \<and> c < 32) \<or> c = 127"
definition isgraph :: "int \<Rightarrow> bool" where "isgraph c \<longleftrightarrow> c > 32 \<and> c < 127"
definition isprint :: "int \<Rightarrow> bool" where "isprint c \<longleftrightarrow> c \<ge> 32 \<and> c < 127"
definition ispunct :: "int \<Rightarrow> bool" where "ispunct c \<longleftrightarrow> isgraph c \<and> \<not> isalnum c"

text \<open>Masking with seven bits takes the remainder, of negative numbers too.\<close>

definition toascii :: "int \<Rightarrow> int" where "toascii c = c mod 128"

definition toupper :: "int \<Rightarrow> int" where
  "toupper c = (if islower c then c - 97 + 65 else if c \<ge> -128 \<and> c < -1 then c + 256 else c)"

definition tolower :: "int \<Rightarrow> int" where
  "tolower c = (if isupper c then c - 65 + 97 else if c \<ge> -128 \<and> c < -1 then c + 256 else c)"

section \<open>Parsing numbers\<close>

definition digit_value :: "int \<Rightarrow> int" where
  "digit_value c =
     (if c \<ge> 48 \<and> c \<le> 57 then c - 48
      else if c \<ge> 97 \<and> c \<le> 122 then c - 97 + 10
      else if c \<ge> 65 \<and> c \<le> 90 then c - 65 + 10
      else 99)"

definition is_space_c :: "int \<Rightarrow> bool" where
  "is_space_c c \<longleftrightarrow> c = 32 \<or> c = 9 \<or> c = 10 \<or> c = 11 \<or> c = 12 \<or> c = 13"

abbreviation ULLONG_MAX :: int where "ULLONG_MAX \<equiv> 18446744073709551615"
abbreviation LLONG_MAX :: int where "LLONG_MAX \<equiv> 9223372036854775807"
abbreviation ERANGE :: int where "ERANGE \<equiv> 34"

text \<open>The position after white space, sign and base prefix, whether there was a minus sign, and the base the
  digits are read in.\<close>

definition number_start :: "string \<Rightarrow> int \<Rightarrow> bool \<times> nat \<times> int" where
  "number_start s base =
     (let p0 = length (takeWhile (\<lambda>c. is_space_c (ub c)) s);
          sign = char_at s p0 = CHR ''-'' \<or> char_at s p0 = CHR ''+'';
          neg = char_at s p0 = CHR ''-'';
          p = (if sign then p0 + 1 else p0)
      in if (base = 0 \<or> base = 16) \<and> char_at s p = CHR ''0'' \<and>
            (char_at s (p + 1) = CHR ''x'' \<or> char_at s (p + 1) = CHR ''X'') \<and>
            digit_value (ub (char_at s (p + 2))) < 16
         then (neg, p + 2, 16)
         else if (base = 0 \<or> base = 2) \<and> char_at s p = CHR ''0'' \<and>
            (char_at s (p + 1) = CHR ''b'' \<or> char_at s (p + 1) = CHR ''B'') \<and>
            digit_value (ub (char_at s (p + 2))) < 2
         then (neg, p + 2, 2)
         else if base = 0 then (neg, p, if char_at s p = CHR ''0'' then 8 else 10)
         else (neg, p, base))"

text \<open>The digit loop, on the rest of the string. The bases that get here are at most 36, so the
  terminator, whose digit value is 99, ends it.\<close>

fun mag_loop :: "int \<Rightarrow> string \<Rightarrow> nat \<Rightarrow> int \<Rightarrow> bool \<Rightarrow> bool \<Rightarrow> int \<times> bool \<times> bool \<times> nat" where
  "mag_loop base [] p acc any over = (acc, any, over, p)"
| "mag_loop base (c # cs) p acc any over =
     (let d = digit_value (ub c) in
      if d \<ge> base then (acc, any, over, p)
      else let limit = ULLONG_MAX div base in
        if acc > limit \<or> (acc = limit \<and> d > ULLONG_MAX mod base)
        then mag_loop base cs (p + 1) acc True True
        else mag_loop base cs (p + 1) (acc * base + d) True over)"

definition parse_magnitude :: "string \<Rightarrow> int \<Rightarrow> int \<times> bool \<times> bool \<times> int" where
  "parse_magnitude s base =
     (let (neg, p, base') = number_start s base;
          (acc, any, over, q) = mag_loop base' (drop p s) p 0 False False
      in (acc, neg, over, if any then int q else -1))"

definition base_valid :: "int \<Rightarrow> bool" where
  "base_valid base \<longleftrightarrow> base = 0 \<or> (base \<ge> 2 \<and> base \<le> 36)"

definition strtoull :: "string \<Rightarrow> int \<Rightarrow> int \<times> nat option \<times> int option" where
  "strtoull s base =
     (if \<not> base_valid base then (0, None, Some 22)
      else let (v, neg, over, used) = parse_magnitude s base;
               e = (if used < 0 then 0 else nat used)
           in if over then (ULLONG_MAX, Some e, Some ERANGE)
              else (if neg then to_u64 (0 - v) else v, Some e, None))"

definition strtoul :: "string \<Rightarrow> int \<Rightarrow> int \<times> nat option \<times> int option" where
  "strtoul s base = strtoull s base"

definition strtoll :: "string \<Rightarrow> int \<Rightarrow> int \<times> nat option \<times> int option" where
  "strtoll s base =
     (if \<not> base_valid base then (0, None, Some 22)
      else let (v, neg, over, used) = parse_magnitude s base;
               e = (if used < 0 then 0 else nat used)
           in if over \<or> (\<not> neg \<and> v > LLONG_MAX) \<or> (neg \<and> v > LLONG_MAX + 1)
              then (if neg then - LLONG_MAX - 1 else LLONG_MAX, Some e, Some ERANGE)
              else (if neg then to_i64 (to_u64 (0 - v)) else to_i64 v, Some e, None))"

definition strtol :: "string \<Rightarrow> int \<Rightarrow> int \<times> nat option \<times> int option" where
  "strtol s base = strtoll s base"

definition atol :: "string \<Rightarrow> int" where "atol s = fst (strtol s 10)"
definition atoll :: "string \<Rightarrow> int" where "atoll s = fst (strtoll s 10)"

text \<open>atoi does its arithmetic in \<open>int\<close>; the values it is called with fit, and it is written here with the
  conversion that a wrapping machine does.\<close>

definition atoi :: "string \<Rightarrow> int" where
  "atoi s =
     (let t = dropWhile (\<lambda>c. isspace (ub c)) s;
          sign = char_at t 0 = CHR ''-'' \<or> char_at t 0 = CHR ''+'';
          neg = char_at t 0 = CHR ''-'';
          ds = takeWhile (\<lambda>c. isdigit (ub c)) (if sign then drop 1 t else t);
          v = foldl (\<lambda>v c. to_i32 (v * 10 + (ub c - 48))) 0 ds
      in if neg then to_i32 (- v) else v)"

section \<open>Absolute values and division\<close>

definition abs_i :: "int \<Rightarrow> int" where
  "abs_i x = (if x < 0 then to_i32 (to_u32 (0 - to_u32 x)) else x)"

definition labs :: "int \<Rightarrow> int" where
  "labs x = (if x < 0 then to_i64 (to_u64 (0 - to_u64 x)) else x)"

definition llabs :: "int \<Rightarrow> int" where
  "llabs x = (if x < 0 then to_i64 (to_u64 (0 - to_u64 x)) else x)"

definition div_i :: "int \<Rightarrow> int \<Rightarrow> int \<times> int" where "div_i num den = (num sdiv den, num smod den)"
definition ldiv :: "int \<Rightarrow> int \<Rightarrow> int \<times> int" where "ldiv num den = (num sdiv den, num smod den)"
definition lldiv :: "int \<Rightarrow> int \<Rightarrow> int \<times> int" where "lldiv num den = (num sdiv den, num smod den)"

section \<open>The generator\<close>

record rand_state =
  rand_ring :: "32 word list"
  rand_head :: nat
  rand_seeded :: bool

definition rand_init :: rand_state where
  "rand_init = \<lparr>rand_ring = replicate 34 0, rand_head = 0, rand_seeded = False\<rparr>"

definition rand_next_word :: "rand_state \<Rightarrow> 32 word \<times> rand_state" where
  "rand_next_word st =
     (let a = rand_ring st ! ((rand_head st + (34 - 31)) mod 34);
          b = rand_ring st ! ((rand_head st + (34 - 3)) mod 34);
          w = a + b
      in (w, st\<lparr>rand_ring := (rand_ring st)[rand_head st := w], rand_head := (rand_head st + 1) mod 34\<rparr>))"

definition seed_step :: "int \<Rightarrow> int" where
  "seed_step prev =
     (let hi = prev sdiv 127773; lo = prev smod 127773; word = 16807 * lo - 2836 * hi
      in to_i32 (if word < 0 then word + 2147483647 else word))"

definition seed_words :: "32 word \<Rightarrow> int list" where
  "seed_words seed =
     (let w = rev (fold (\<lambda>_ ws. seed_step (hd ws) # ws) [1..<31] [sint (if seed = 0 then 1 else seed)])
      in w @ take 3 w)"

definition srand :: "32 word \<Rightarrow> rand_state \<Rightarrow> rand_state" where
  "srand seed st =
     ((\<lambda>st. snd (rand_next_word st)) ^^ 310)
       \<lparr>rand_ring = map word_of_int (seed_words seed), rand_head = 0, rand_seeded = True\<rparr>"

definition rand :: "rand_state \<Rightarrow> int \<times> rand_state" where
  "rand st0 =
     (let st = (if rand_seeded st0 then st0 else srand 1 st0); (w, st') = rand_next_word st
      in (sint (drop_bit 1 w), st'))"

end
