(* ===== verification/Numconv_Theorems.thy ===== *)
theory Numconv_Theorems
  imports Numconv
begin

text \<open>
  The number parsers compute the exact value of the digits they consume, clamped to the type; printing a
  number in any base and parsing it back is the identity; the ring behind \<open>rand\<close> implements the
  recurrence \<open>r i = r (i - 31) + r (i - 3)\<close>.
\<close>

section \<open>The digit loop\<close>

definition digit_run :: "int \<Rightarrow> string \<Rightarrow> string" where
  "digit_run base t = takeWhile (\<lambda>c. digit_value (ub c) < base) t"

definition run_from :: "int \<Rightarrow> int \<Rightarrow> string \<Rightarrow> int" where
  "run_from base acc ds = foldl (\<lambda>a c. a * base + digit_value (ub c)) acc ds"

abbreviation run_value :: "int \<Rightarrow> string \<Rightarrow> int" where
  "run_value base ds \<equiv> run_from base 0 ds"

lemma run_from_simps [simp]:
  "run_from base acc [] = acc"
  "run_from base acc (c # cs) = run_from base (acc * base + digit_value (ub c)) cs"
  by (simp_all add: run_from_def)

lemma digit_run_simps [simp]:
  "digit_run base [] = []"
  "digit_run base (c # cs) = (if digit_value (ub c) < base then c # digit_run base cs else [])"
  by (simp_all add: digit_run_def)

lemma digit_value_nonneg [simp]: "0 \<le> digit_value (ub c)"
  by (simp add: digit_value_def)

lemma run_from_ge: "2 \<le> base \<Longrightarrow> 0 \<le> acc \<Longrightarrow> acc \<le> run_from base acc ds"
proof (induction ds arbitrary: acc)
  case (Cons c cs)
  have "acc * 1 \<le> acc * base" using Cons.prems by (intro mult_left_mono) simp_all
  then have "acc \<le> acc * base + digit_value (ub c)" "0 \<le> acc * base + digit_value (ub c)"
    using digit_value_nonneg [of c] Cons.prems(2) by linarith+
  with Cons.IH [of "acc * base + digit_value (ub c)"] Cons.prems(1) show ?case by simp
qed simp

lemma overflow_test:
  fixes acc base d :: int
  assumes "2 \<le> base" "0 \<le> d" "d < base"
  shows "(acc > M div base \<or> (acc = M div base \<and> d > M mod base)) \<longleftrightarrow> acc * base + d > M"
proof -
  have m: "M = M div base * base + M mod base" "0 \<le> M mod base" "M mod base < base" using assms by simp_all
  consider "acc > M div base" | "acc = M div base" | "acc < M div base" by linarith
  then show ?thesis
  proof cases
    case 1
    then have "(M div base + 1) * base \<le> acc * base" using assms by (intro mult_right_mono) auto
    then have "M div base * base + base \<le> acc * base" by (simp add: distrib_right)
    then have "acc * base + d > M" using m assms by linarith
    with 1 show ?thesis by simp
  next
    case 2
    have "M < M div base * base + d \<longleftrightarrow> M mod base < d" using m(1) by linarith
    with 2 show ?thesis by simp
  next
    case 3
    then have "(acc + 1) * base \<le> M div base * base" using assms by (intro mult_right_mono) auto
    then have "acc * base + base \<le> M div base * base" by (simp add: distrib_right)
    then have "acc * base + d \<le> M" using m assms by linarith
    with 3 show ?thesis by simp
  qed
qed

lemma mag_loop_over:
  "snd (mag_loop base t p acc any True) = (any \<or> digit_run base t \<noteq> [], True, p + length (digit_run base t))"
  by (induction t arbitrary: p acc any) (auto simp: Let_def)

lemma mag_loop_value:
  assumes "2 \<le> base"
  shows "0 \<le> acc \<Longrightarrow> acc \<le> ULLONG_MAX \<Longrightarrow>
    snd (mag_loop base t p acc any False) =
      (any \<or> digit_run base t \<noteq> [], run_from base acc (digit_run base t) > ULLONG_MAX, p + length (digit_run base t)) \<and>
    (run_from base acc (digit_run base t) \<le> ULLONG_MAX \<longrightarrow>
       fst (mag_loop base t p acc any False) = run_from base acc (digit_run base t))"
proof (induction t arbitrary: p acc any)
  case (Cons c cs)
  let ?d = "digit_value (ub c)"
  show ?case
  proof (cases "?d < base")
    case True
    have test: "(acc > ULLONG_MAX div base \<or> (acc = ULLONG_MAX div base \<and> ?d > ULLONG_MAX mod base)) \<longleftrightarrow>
        acc * base + ?d > ULLONG_MAX" by (rule overflow_test) (use assms True in auto)
    have nn: "0 \<le> acc * base + ?d" using Cons.prems assms by simp
    show ?thesis
    proof (cases "acc * base + ?d > ULLONG_MAX")
      case over: True
      then have "run_from base (acc * base + ?d) (digit_run base cs) > ULLONG_MAX"
        using run_from_ge [OF assms nn, of "digit_run base cs"] by linarith
      then show ?thesis using True over test mag_loop_over [of base cs "p + 1" acc True] by (auto simp: Let_def)
    next
      case False
      then show ?thesis using True test Cons.IH [OF nn, of "p + 1" True] by (auto simp: Let_def)
    qed
  qed (use Cons.prems in auto)
qed simp

lemma number_start_base: "base_valid base \<Longrightarrow> number_start s base = (neg, p, b) \<Longrightarrow> 2 \<le> b \<and> b \<le> 36"
  by (auto simp: number_start_def base_valid_def Let_def split: if_splits)

lemma parse_magnitude_value:
  assumes "base_valid base" "number_start s base = (neg, p, b)"
  defines "ds \<equiv> digit_run b (drop p s)"
  obtains acc where "parse_magnitude s base =
      (acc, neg, run_value b ds > ULLONG_MAX, if ds = [] then -1 else int (p + length ds))"
    "run_value b ds \<le> ULLONG_MAX \<Longrightarrow> acc = run_value b ds" "0 \<le> run_value b ds"
proof -
  have b: "2 \<le> b" using number_start_base [OF assms(1,2)] by simp
  obtain acc any over q where m: "mag_loop b (drop p s) p 0 False False = (acc, any, over, q)"
    by (metis prod.exhaust)
  from mag_loop_value [OF b, of 0 "drop p s" p False]
  have r: "any = (ds \<noteq> [])" "over = (run_value b ds > ULLONG_MAX)" "q = p + length ds"
    "run_value b ds \<le> ULLONG_MAX \<Longrightarrow> acc = run_value b ds" by (simp_all add: m ds_def)
  have "parse_magnitude s base =
      (acc, neg, run_value b ds > ULLONG_MAX, if ds = [] then -1 else int (p + length ds))"
    unfolding parse_magnitude_def assms(2) Let_def prod.case m r(1-3) by simp
  with r(4) run_from_ge [OF b, of 0 ds] that show thesis by simp
qed

section \<open>Conversions\<close>

definition clamp_i64 :: "int \<Rightarrow> int" where
  "clamp_i64 v = (if v > LLONG_MAX then LLONG_MAX else if v < - LLONG_MAX - 1 then - LLONG_MAX - 1 else v)"

lemma strto_eq:
  assumes "number_start s base = (neg, p, b)" "base_valid base"
  defines "ds \<equiv> digit_run b (drop p s)"
  defines "m \<equiv> run_value b ds" and "e \<equiv> (if ds = [] then 0 else p + length ds)"
  shows "strtoll s base = (clamp_i64 (if neg then - m else m), Some e,
       if in_i64 (if neg then - m else m) then None else Some ERANGE)"
    "strtoull s base =
      (if m > ULLONG_MAX then (ULLONG_MAX, Some e, Some ERANGE)
       else (to_u64 (if neg then - m else m), Some e, None))"
proof -
  obtain acc where pm: "parse_magnitude s base = (acc, neg, m > ULLONG_MAX, if ds = [] then -1 else int (p + length ds))"
    "m \<le> ULLONG_MAX \<Longrightarrow> acc = m" "0 \<le> m"
    using parse_magnitude_value [OF assms(2,1)] unfolding ds_def m_def by blast
  have e: "(if (if ds = [] then -1 else int (p + length ds)) < 0 then 0
      else nat (if ds = [] then -1 else int (p + length ds))) = e" by (simp add: nat_add_distrib e_def)
  have neg64: "to_i64 (to_u64 (- m)) = - m" if "m \<le> LLONG_MAX + 1"
    using that pm(3) by (simp add: to_i64_id in_i64_def)
  show "strtoll s base = (clamp_i64 (if neg then - m else m), Some e,
       if in_i64 (if neg then - m else m) then None else Some ERANGE)"
  proof (cases "m \<le> ULLONG_MAX")
    case True
    with pm(2) have "acc = m" by blast
    with True pm(3) neg64 assms(2) show ?thesis unfolding strtoll_def pm(1) Let_def prod.case e
      by (cases neg) (auto simp: clamp_i64_def in_i64_def to_i64_id)
  next
    case False
    then show ?thesis unfolding strtoll_def pm(1) Let_def prod.case e using assms(2)
      by (auto simp: clamp_i64_def in_i64_def)
  qed
  show "strtoull s base =
      (if m > ULLONG_MAX then (ULLONG_MAX, Some e, Some ERANGE)
       else (to_u64 (if neg then - m else m), Some e, None))"
    unfolding strtoull_def pm(1) Let_def prod.case e using assms(2) pm(2,3)
    by (auto simp: to_u64_id)
qed



section \<open>Printing and parsing back\<close>

definition digit_char :: "nat \<Rightarrow> char" where
  "digit_char d = char_of (if d < 10 then 48 + d else 87 + d)"

definition base_text :: "nat \<Rightarrow> nat \<Rightarrow> string" where
  "base_text b v = rev (map digit_char (digits_rev b v))"

lemma digit_value_digit_char: "d < 36 \<Longrightarrow> digit_value (ub (digit_char d)) = int d"
  by (auto simp: digit_char_def digit_value_def)

lemma run_from_append: "run_from b acc (xs @ ys) = run_from b (run_from b acc xs) ys"
  by (simp add: run_from_def)

lemma run_value_rev_digits:
  "\<forall>d \<in> set ds. d < 36 \<Longrightarrow> run_value (int b) (rev (map digit_char ds)) = int (digits_val b ds)"
  by (induction ds) (simp_all add: run_from_append digit_value_digit_char mult.commute)

lemma digits_rev_last_pos: "2 \<le> b \<Longrightarrow> 0 < v \<Longrightarrow> last (digits_rev b v) \<noteq> 0"
proof (induction b v rule: digits_rev.induct)
  case (1 b v)
  show ?case
  proof (cases "v div b = 0")
    case True
    then have "v < b" using 1 by (simp add: div_eq_0_iff)
    with True 1 show ?thesis by (simp add: digits_rev.simps [of b v])
  next
    case False
    with 1 show ?thesis by (simp add: digits_rev.simps [of b v])
  qed
qed

lemma base_text_props:
  assumes "2 \<le> b" "b \<le> 36"
  shows "base_text b v \<noteq> []" "run_value (int b) (base_text b v) = int v"
    "\<forall>c \<in> set (base_text b v). digit_value (ub c) < int b"
    "hd (base_text b v) = CHR ''0'' \<longrightarrow> base_text b v = ''0''"
proof -
  have lt: "\<forall>d \<in> set (digits_rev b v). d < 36" using digits_rev_less [of b] assms by fastforce
  show "base_text b v \<noteq> []" by (simp add: base_text_def)
  show "run_value (int b) (base_text b v) = int v"
    unfolding base_text_def run_value_rev_digits [OF lt] using assms by (simp add: digits_val_rev)
  show "\<forall>c \<in> set (base_text b v). digit_value (ub c) < int b"
    using lt digits_rev_less [of b _ v] assms by (auto simp: base_text_def digit_value_digit_char)
  show "hd (base_text b v) = CHR ''0'' \<longrightarrow> base_text b v = ''0''"
  proof (cases "v = 0")
    case True
    then show ?thesis using assms by (simp add: base_text_def digits_rev.simps digit_char_def)
  next
    case False
    let ?d = "last (digits_rev b v)"
    have "?d \<noteq> 0" "?d < 36" using digits_rev_last_pos [of b v] lt assms False by auto
    then have "digit_value (ub (digit_char ?d)) \<noteq> digit_value (ub (CHR ''0''))"
      by (simp add: digit_value_digit_char) (simp add: digit_value_def ub_def)
    then have "digit_char ?d \<noteq> CHR ''0''" by metis
    moreover have "hd (base_text b v) = digit_char ?d"
      by (simp add: base_text_def hd_rev last_map)
    ultimately show ?thesis by simp
  qed
qed

definition int_text :: "nat \<Rightarrow> int \<Rightarrow> string" where
  "int_text b v = (if v < 0 then CHR ''-'' # base_text b (nat (- v)) else base_text b (nat v))"

lemma digit_not_space: "digit_value (ub c) < 36 \<Longrightarrow> \<not> is_space_c (ub c) \<and> c \<noteq> CHR ''-'' \<and> c \<noteq> CHR ''+''"
  by (auto simp: digit_value_def is_space_c_def ub_def split: if_splits)

lemma number_start_text:
  assumes "2 \<le> b" "b \<le> 36" "sg = [] \<or> sg = ''-''"
  shows "number_start (sg @ base_text b v) (int b) = (sg = ''-'', length sg, int b)"
proof -
  obtain c cs where t: "base_text b v = c # cs" using base_text_props(1) [OF assms(1,2)] by (cases "base_text b v") auto
  have d: "digit_value (ub c) < 36" using base_text_props(3) [OF assms(1,2), of v] assms(2) t by fastforce
  note ns = digit_not_space [OF d]
  have z: "c = CHR ''0'' \<Longrightarrow> cs = []" using base_text_props(4) [OF assms(1,2), of v] t by simp
  have no: "\<not> (c = CHR ''0'' \<and> (char_at cs 0 = x \<or> char_at cs 0 = y) \<and> R)" if "x \<noteq> NUL" "y \<noteq> NUL" for x y R
    using z that by (auto simp: char_at_def)
  have w: "takeWhile (\<lambda>c. is_space_c (ub c)) (sg @ c # cs) = []" using assms(3) ns by (auto simp: is_space_c_def ub_def)
  from assms(3) show ?thesis
  proof
    assume "sg = []"
    then show ?thesis unfolding t number_start_def Let_def using w ns no assms(1,2) by simp
  next
    assume "sg = ''-''"
    then show ?thesis unfolding t number_start_def Let_def using w no assms(1,2) by (simp add: numeral_2_eq_2)
  qed
qed

text \<open>C23. For every base from 2 to 36, printing a number and reading it back is the identity: strtoll returns
  every 64-bit signed number from its text, strtoull every unsigned one, with the end pointer at the
  end of the text and errno untouched.\<close>

theorem print_parse_roundtrip:
  assumes "2 \<le> b" "b \<le> 36"
  shows "(in_i64 v \<longrightarrow> strtoll (int_text b v) (int b) = (v, Some (length (int_text b v)), None)) \<and>
    (int u \<le> ULLONG_MAX \<longrightarrow> strtoull (base_text b u) (int b) = (int u, Some (length (base_text b u)), None))"
proof -
  have bv: "base_valid (int b)" using assms by (simp add: base_valid_def)
  have run: "digit_run (int b) (base_text b n) = base_text b n" for n
    using base_text_props(3) [OF assms] by (simp add: digit_run_def takeWhile_eq_all_conv)
  have ne: "base_text b n \<noteq> []" and val: "run_value (int b) (base_text b n) = int n" for n
    using base_text_props(1,2) [OF assms] by blast+
  have signed: "strtoll (int_text b v) (int b) = (v, Some (length (int_text b v)), None)" if "in_i64 v"
  proof (cases "v < 0")
    case True
    have "number_start (''-'' @ base_text b (nat (- v))) (int b) = (True, 1, int b)"
      using number_start_text [OF assms, of "''-''"] by simp
    from strto_eq(1) [OF this bv] True that show ?thesis
      by (simp add: run ne val int_text_def clamp_i64_def in_i64_def)
  next
    case False
    have "number_start (base_text b (nat v)) (int b) = (False, 0, int b)"
      using number_start_text [OF assms, of "[]"] by simp
    from strto_eq(1) [OF this bv] False that show ?thesis
      by (simp add: run ne val int_text_def clamp_i64_def in_i64_def)
  qed
  have "number_start (base_text b u) (int b) = (False, 0, int b)"
    using number_start_text [OF assms, of "[]"] by simp
  from strto_eq(2) [OF this bv] signed show ?thesis by (simp add: run ne val to_u64_id)
qed

theorem print_parse_roundtrip_witness:
  "strtoll (int_text 16 (-255)) 16 = (-255, Some 3, None)"
proof -
  have "digit_char 15 = CHR ''f''" by code_simp
  then have "int_text 16 (-255) = ''-ff''"
    by (simp add: int_text_def base_text_def digits_rev.simps)
  then show ?thesis using print_parse_roundtrip [of 16 "-255" 0] by (simp add: in_i64_def)
qed

section \<open>The generator\<close>

text \<open>The recurrence that the comment at the generator states, over the seeding words.\<close>

function rand_seq :: "32 word \<Rightarrow> nat \<Rightarrow> 32 word" where
  "rand_seq seed i =
     (if i < 34 then word_of_int (seed_words seed ! i) else rand_seq seed (i - 31) + rand_seq seed (i - 3))"
  by pat_completeness auto
termination
  by (relation "measure snd") auto

declare rand_seq.simps [simp del]

text \<open>The ring holds the 34 words from index \<open>n\<close> on, the oldest at the head.\<close>

definition ring_at :: "(nat \<Rightarrow> 32 word) \<Rightarrow> nat \<Rightarrow> rand_state \<Rightarrow> bool" where
  "ring_at f n st \<longleftrightarrow> rand_seeded st \<and> length (rand_ring st) = 34 \<and> rand_head st < 34 \<and>
     (\<forall>k < 34. rand_ring st ! ((rand_head st + k) mod 34) = f (n + k))"

lemma ring_at_next:
  assumes "ring_at (rand_seq seed) n st"
  shows "fst (rand_next_word st) = rand_seq seed (n + 34)"
    "ring_at (rand_seq seed) (n + 1) (snd (rand_next_word st))"
proof -
  let ?h = "rand_head st"
  have r: "length (rand_ring st) = 34" "?h < 34" "\<And>k. k < 34 \<Longrightarrow> rand_ring st ! ((?h + k) mod 34) = rand_seq seed (n + k)"
    using assms by (auto simp: ring_at_def)
  show w: "fst (rand_next_word st) = rand_seq seed (n + 34)"
    using r(3) [of 3] r(3) [of 31] by (subst rand_seq.simps) (simp add: rand_next_word_def Let_def add.commute)
  have "(rand_ring st)[?h := fst (rand_next_word st)] ! (((?h + 1) mod 34 + k) mod 34) = rand_seq seed (n + 1 + k)"
    if k: "k < 34" for k
  proof (cases "k = 33")
    case True
    have "((?h + 1) mod 34 + 33) mod 34 = (?h + 34) mod 34" by (simp only: mod_add_left_eq) (simp add: ac_simps)
    then have "((?h + 1) mod 34 + 33) mod 34 = ?h" using r(2) by simp
    with True w r(1,2) show ?thesis by (simp add: add.commute)
  next
    case False
    have "((?h + 1) mod 34 + k) mod 34 = (?h + (k + 1)) mod 34" by (simp only: mod_add_left_eq) (simp add: ac_simps)
    moreover have "(?h + (k + 1)) mod 34 \<noteq> ?h"
    proof (cases "?h + (k + 1) < 34")
      case l: False
      then have "(?h + (k + 1)) mod 34 = ?h + (k + 1) - 34" using r(2) k by (simp add: mod_if)
      then show ?thesis using r(2) k False l by linarith
    qed simp
    ultimately show ?thesis using r(1,2) r(3) [of "k + 1"] k False by simp
  qed
  then show "ring_at (rand_seq seed) (n + 1) (snd (rand_next_word st))"
    using assms by (simp add: ring_at_def rand_next_word_def Let_def)
qed

lemma length_seed_words [simp]: "length (seed_words seed) = 34"
proof -
  have "length (fold (\<lambda>_ ws. seed_step (hd ws) # ws) is [x]) = Suc (length is)" for "is" :: "nat list" and x
    by (induction "is" rule: rev_induct) auto
  then show ?thesis by (simp add: seed_words_def Let_def)
qed

lemma srand_ring: "ring_at (rand_seq seed) 310 (srand seed st)"
proof -
  let ?st = "\<lparr>rand_ring = map word_of_int (seed_words seed), rand_head = 0, rand_seeded = True\<rparr> :: rand_state"
  have "ring_at (rand_seq seed) 0 ?st" by (simp add: ring_at_def rand_seq.simps)
  then have "ring_at (rand_seq seed) k (((\<lambda>st. snd (rand_next_word st)) ^^ k) ?st)" for k
    by (induction k) (use ring_at_next(2) in auto)
  then show ?thesis by (simp add: srand_def)
qed

fun rands :: "nat \<Rightarrow> rand_state \<Rightarrow> int list" where
  "rands 0 st = []"
| "rands (Suc n) st = (let (r, st') = rand st in r # rands n st')"

lemma rands_ring:
  "ring_at (rand_seq seed) m st \<Longrightarrow>
     rands n st = map (\<lambda>j. sint (drop_bit 1 (rand_seq seed (m + 34 + j)))) [0..<n]"
proof (induction n arbitrary: m st)
  case (Suc n)
  obtain w st' where n: "rand_next_word st = (w, st')" by force
  have w: "w = rand_seq seed (m + 34)" "ring_at (rand_seq seed) (m + 1) st'"
    using ring_at_next [OF Suc.prems] n by simp_all
  have "rand st = (sint (drop_bit 1 w), st')" using Suc.prems n by (simp add: rand_def ring_at_def)
  then have "rands (Suc n) st = sint (drop_bit 1 (rand_seq seed (m + 34))) # rands n st'" by (simp add: w(1))
  also have "rands n st' = map (\<lambda>j. sint (drop_bit 1 (rand_seq seed (m + 34 + Suc j)))) [0..<n]"
    using Suc.IH [OF w(2)] by (simp add: ac_simps)
  also have "\<dots> = map (\<lambda>j. sint (drop_bit 1 (rand_seq seed (m + 34 + j)))) [1..<Suc n]"
    by (simp add: map_Suc_upt [symmetric] comp_def del: upt_Suc)
  finally show ?case by (simp add: upt_rec [of 0] del: upt_Suc)
qed simp

lemma sint_half: "0 \<le> sint (drop_bit 1 (w :: 32 word)) \<and> sint (drop_bit 1 w) \<le> 2147483647"
proof -
  have lt: "uint w < 4294967296" using uint_lt2p [of w] by simp
  then have "take_bit 32 (uint w) = uint w" by (intro take_bit_int_eq_self) simp_all
  then have "uint (drop_bit 1 w) = uint w div 2" unfolding unsigned_drop_bit_eq by (simp add: drop_bit_eq_div)
  moreover note lt
  ultimately have u: "0 \<le> uint (drop_bit 1 w)" "uint (drop_bit 1 w) < 2147483648" by simp_all
  then have "- 2147483648 \<le> uint (drop_bit 1 w)" by linarith
  with u have "sint (drop_bit 1 w) = uint (drop_bit 1 w)"
    unfolding sint_uint by (intro signed_take_bit_int_eq_self) simp_all
  with u show ?thesis by simp
qed

text \<open>C25. rand implements the documented recurrence. After srand(seed), from any earlier state, and after no
  seeding at all with the seed 1, the \<open>j\<close>-th result is the word with index \<open>344 + j\<close> of the sequence
  \<open>r i = r (i - 31) + r (i - 3)\<close> shifted right by one, and it lies between 0 and RAND_MAX.\<close>

theorem rand_recurrence:
  "rands n (srand seed st) = map (\<lambda>j. sint (drop_bit 1 (rand_seq seed (344 + j)))) [0..<n] \<and>
   rands n rand_init = map (\<lambda>j. sint (drop_bit 1 (rand_seq 1 (344 + j)))) [0..<n] \<and>
   list_all (\<lambda>r. 0 \<le> r \<and> r \<le> 2147483647) (rands n (srand seed st))"
proof -
  have a: "rands n (srand seed st) = map (\<lambda>j. sint (drop_bit 1 (rand_seq seed (344 + j)))) [0..<n]" for seed st
    using rands_ring [OF srand_ring, where n = n] by (simp add: add.assoc)
  have "rand rand_init = rand (srand 1 rand_init)"
    using srand_ring [of 1 rand_init] by (simp add: rand_def rand_init_def ring_at_def)
  then have "rands n rand_init = rands n (srand 1 rand_init)" by (cases n) simp_all
  with a sint_half show ?thesis by (simp add: list_all_iff)
qed

text \<open>The seeding words are the Lehmer generator's: the split of the product into a quotient and a remainder
  by 127773 neither overflows nor changes the value.\<close>

lemma seed_step_mod:
  assumes "0 < w" "w < 2147483647"
  shows "seed_step w = 16807 * w mod 2147483647"
proof -
  let ?hi = "w div 127773" and ?lo = "w mod 127773"
  have s: "w sdiv 127773 = ?hi" "w smod 127773 = ?lo"
    using assms by (simp_all add: signed_divide_int_def signed_modulo_int_def sgn_mult)
  have b: "0 \<le> ?lo" "?lo < 127773" "0 \<le> ?hi" "?hi \<le> 16807" "w = 127773 * ?hi + ?lo" using assms by simp_all
  define r where "r = 16807 * ?lo - 2836 * ?hi"
  have r: "r = 16807 * w - ?hi * 2147483647" unfolding r_def using b(5) by linarith
  have rb: "- 2147483647 < r" "r < 2147483647" unfolding r_def using b by linarith+
  define q where "q = (if r < 0 then r + 2147483647 else r)"
  have q: "0 \<le> q" "q < 2147483647" unfolding q_def using rb by auto
  have "q = 16807 * w - (if r < 0 then ?hi - 1 else ?hi) * 2147483647"
    unfolding q_def using r by (simp add: left_diff_distrib)
  then have "q mod 2147483647 = 16807 * w mod 2147483647" by (metis mod_diff_right_eq mod_mult_self2_is_0 diff_zero)
  with q have "q = 16807 * w mod 2147483647" by simp
  moreover have "seed_step w = to_i32 q"
    unfolding seed_step_def s Let_def q_def r_def ..
  moreover have "to_i32 q = q" using q by (intro to_i32_id) (simp add: in_i32_def)
  ultimately show ?thesis by simp
qed

end
