(* ===== verification/Supervisor.thy ===== *)
theory Supervisor
  imports Prelude
begin

text \<open>
  The service supervisor of process 1: \<open>servers/init/spawn_report.h\<close> and \<open>servers/init/supervisor.h\<close>.
  The table of four services is a list of records; a NULL name is \<open>None\<close>. A pointer compared with
  itself has equal text, so the test for identical pointers is the comparison of the texts. The operations that the
  supervisor is given (spawning a program, the two reporters) are arguments that transform a world.
\<close>

section \<open>The table\<close>

datatype init_service_state = UNUSED | REGISTERED | RUNNING | STOPPED | DISABLED

datatype init_supervisor_result = R_IGNORED | R_RESTARTED | R_CLEAN_STOP | R_DISABLED

abbreviation CAPACITY :: nat where "CAPACITY \<equiv> 4"
abbreviation RESTART_BUDGET :: nat where "RESTART_BUDGET \<equiv> 3"

record 'w init_supervisor_ops =
  op_spawn :: "string option \<Rightarrow> 'w \<Rightarrow> int \<times> 'w"
  op_failure :: "string option \<Rightarrow> 'w \<Rightarrow> 'w"
  op_disabled :: "(string option \<Rightarrow> 'w \<Rightarrow> 'w) option"

record init_supervisor_service =
  svc_name :: "string option"
  svc_tid :: int
  restarts_used :: nat
  svc_state :: init_service_state

definition init_spawn_created :: "'w init_supervisor_ops \<Rightarrow> int \<Rightarrow> string option \<Rightarrow> 'w \<Rightarrow> bool \<times> 'w" where
  "init_spawn_created ops tid name w = (if tid < 0 then (False, op_failure ops name w) else (True, w))"

fun same_text :: "string \<Rightarrow> string \<Rightarrow> bool" where
  "same_text (a # s) t = (if t \<noteq> [] \<and> a = hd t then same_text s (tl t) else False)"
| "same_text [] t = (t = [])"

definition init_supervisor_name_equal :: "string option \<Rightarrow> string option \<Rightarrow> bool" where
  "init_supervisor_name_equal l r =
     (case (l, r) of (None, None) \<Rightarrow> True | (Some s, Some t) \<Rightarrow> same_text s t | _ \<Rightarrow> False)"

definition init_supervisor_valid_slot :: "int \<Rightarrow> bool" where
  "init_supervisor_valid_slot slot \<longleftrightarrow> slot \<ge> 0 \<and> slot < int CAPACITY"

definition unused_service :: init_supervisor_service where
  "unused_service = \<lparr>svc_name = None, svc_tid = -1, restarts_used = 0, svc_state = UNUSED\<rparr>"

definition init_supervisor_init :: "init_supervisor_service list" where
  "init_supervisor_init = replicate CAPACITY unused_service"

section \<open>Operations\<close>

definition init_supervisor_register ::
    "init_supervisor_service list \<Rightarrow> string option \<Rightarrow> int \<times> init_supervisor_service list" where
  "init_supervisor_register tab name =
     (if name = None \<or> name = Some [] then (-1, tab)
      else if \<exists>slot \<in> {0..<CAPACITY}. svc_state (tab ! slot) \<noteq> UNUSED \<and>
                init_supervisor_name_equal (svc_name (tab ! slot)) name then (-1, tab)
      else case List.find (\<lambda>slot. svc_state (tab ! slot) = UNUSED) [0..<CAPACITY] of
          Some slot \<Rightarrow>
            (int slot, tab[slot := \<lparr>svc_name = name, svc_tid = -1, restarts_used = 0, svc_state = REGISTERED\<rparr>])
        | None \<Rightarrow> (-1, tab))"

definition init_supervisor_disable ::
    "'w init_supervisor_ops \<Rightarrow> init_supervisor_service \<Rightarrow> 'w \<Rightarrow> init_supervisor_service \<times> 'w" where
  "init_supervisor_disable ops svc w =
     (let svc' = svc\<lparr>svc_tid := -1, svc_state := DISABLED\<rparr>
      in (svc', case op_disabled ops of None \<Rightarrow> w | Some f \<Rightarrow> f (svc_name svc') w))"

function init_supervisor_spawn_until_running ::
    "'w init_supervisor_ops \<Rightarrow> bool \<Rightarrow> init_supervisor_service \<Rightarrow> 'w \<Rightarrow> bool \<times> init_supervisor_service \<times> 'w" where
  "init_supervisor_spawn_until_running ops is_restart svc w =
     (if is_restart \<and> restarts_used svc \<ge> RESTART_BUDGET
      then (False, init_supervisor_disable ops svc w)
      else let svc1 = (if is_restart then svc\<lparr>restarts_used := restarts_used svc + 1\<rparr> else svc);
               (tid, w1) = op_spawn ops (svc_name svc1) w;
               (created, w2) = init_spawn_created ops tid (svc_name svc1) w1
           in if created then (True, svc1\<lparr>svc_tid := tid, svc_state := RUNNING\<rparr>, w2)
              else init_supervisor_spawn_until_running ops True svc1 w2)"
  by pat_completeness auto
termination
  by (relation "measure (\<lambda>(ops, is_restart, svc, w).
        2 * (RESTART_BUDGET - restarts_used svc) + (if is_restart then 0 else 1))") auto

declare init_supervisor_spawn_until_running.simps [simp del]

definition init_supervisor_start ::
    "'w init_supervisor_ops \<Rightarrow> init_supervisor_service list \<Rightarrow> int \<Rightarrow> 'w \<Rightarrow> init_supervisor_service list \<times> 'w" where
  "init_supervisor_start ops tab slot w =
     (if \<not> init_supervisor_valid_slot slot then (tab, w)
      else if svc_state (tab ! nat slot) \<noteq> REGISTERED then (tab, w)
      else let (_, svc, w') = init_supervisor_spawn_until_running ops False (tab ! nat slot) w
           in (tab[nat slot := svc], w'))"

definition init_supervisor_find_tid :: "init_supervisor_service list \<Rightarrow> int \<Rightarrow> int" where
  "init_supervisor_find_tid tab tid =
     (case List.find (\<lambda>slot. svc_state (tab ! slot) = RUNNING \<and> svc_tid (tab ! slot) = tid) [0..<CAPACITY] of
        Some slot \<Rightarrow> int slot
      | None \<Rightarrow> -1)"

definition init_supervisor_child_exit ::
    "'w init_supervisor_ops \<Rightarrow> init_supervisor_service list \<Rightarrow> int \<Rightarrow> int \<Rightarrow> 'w \<Rightarrow>
     init_supervisor_result \<times> init_supervisor_service list \<times> 'w" where
  "init_supervisor_child_exit ops tab tid status w =
     (let slot = init_supervisor_find_tid tab tid in
      if slot < 0 then (R_IGNORED, tab, w)
      else let svc = (tab ! nat slot)\<lparr>svc_tid := -1\<rparr> in
        if status = 0 then (R_CLEAN_STOP, tab[nat slot := svc\<lparr>svc_state := STOPPED\<rparr>], w)
        else let (running, svc', w') = init_supervisor_spawn_until_running ops True svc w
             in (if running then R_RESTARTED else R_DISABLED, tab[nat slot := svc'], w'))"

section \<open>Spawning until a service runs\<close>

text \<open>The outcome of the loop, with the number of spawn attempts it made.\<close>

lemma spawn_until_running_outcome:
  assumes "init_supervisor_spawn_until_running ops is_restart svc w = (running, svc', w')"
    and "restarts_used svc \<le> RESTART_BUDGET"
  shows "svc_name svc' = svc_name svc" "restarts_used svc \<le> restarts_used svc'"
    "restarts_used svc' \<le> RESTART_BUDGET"
    "if running then svc_state svc' = RUNNING \<and> 0 \<le> svc_tid svc' else svc_state svc' = DISABLED \<and> svc_tid svc' = -1"
    "is_restart \<and> running \<Longrightarrow> restarts_used svc < restarts_used svc'"
proof -
  have "svc_name svc' = svc_name svc \<and> restarts_used svc \<le> restarts_used svc' \<and> restarts_used svc' \<le> RESTART_BUDGET \<and>
    (if running then svc_state svc' = RUNNING \<and> 0 \<le> svc_tid svc' else svc_state svc' = DISABLED \<and> svc_tid svc' = -1) \<and>
    (is_restart \<and> running \<longrightarrow> restarts_used svc < restarts_used svc')"
    using assms
  proof (induction ops is_restart svc w rule: init_supervisor_spawn_until_running.induct)
    case (1 ops is_restart svc w)
    show ?case
    proof (cases "is_restart \<and> restarts_used svc \<ge> RESTART_BUDGET")
      case True
      then show ?thesis using 1(2,3)
        by (subst (asm) init_supervisor_spawn_until_running.simps) (auto simp: init_supervisor_disable_def Let_def)
    next
      case False
      let ?svc1 = "if is_restart then svc\<lparr>restarts_used := restarts_used svc + 1\<rparr> else svc"
      obtain tid w1 where s: "op_spawn ops (svc_name ?svc1) w = (tid, w1)" by force
      obtain created w2 where c: "init_spawn_created ops tid (svc_name ?svc1) w1 = (created, w2)" by force
      have b: "restarts_used ?svc1 \<le> RESTART_BUDGET" using False 1(3) by auto
      have eq: "init_supervisor_spawn_until_running ops is_restart svc w =
         (if created then (True, ?svc1\<lparr>svc_tid := tid, svc_state := RUNNING\<rparr>, w2)
          else init_supervisor_spawn_until_running ops True ?svc1 w2)"
        using False s c by (subst init_supervisor_spawn_until_running.simps) (simp only: Let_def prod.case if_False)
      show ?thesis
      proof (cases created)
        case True
        then have "0 \<le> tid" using c by (auto simp: init_spawn_created_def split: if_splits)
        then show ?thesis using True eq 1(2) b by (auto split: if_splits)
      next
        case f: False
        then show ?thesis using 1(1) [OF False refl s [symmetric] refl c [symmetric] refl f] eq 1(2) b
          by (auto split: if_splits)
      qed
    qed
  qed
  then show "svc_name svc' = svc_name svc" "restarts_used svc \<le> restarts_used svc'" "restarts_used svc' \<le> RESTART_BUDGET"
    "if running then svc_state svc' = RUNNING \<and> 0 \<le> svc_tid svc' else svc_state svc' = DISABLED \<and> svc_tid svc' = -1"
    "is_restart \<and> running \<Longrightarrow> restarts_used svc < restarts_used svc'" by auto
qed

text \<open>Counting the spawn attempts of given operations.\<close>

definition counted :: "'w init_supervisor_ops \<Rightarrow> ('w \<times> nat) init_supervisor_ops" where
  "counted ops =
     \<lparr>op_spawn = (\<lambda>n (w, k). let (t, w') = op_spawn ops n w in (t, (w', k + 1))),
      op_failure = (\<lambda>n (w, k). (op_failure ops n w, k)),
      op_disabled = map_option (\<lambda>f n (w, k). (f n w, k)) (op_disabled ops)\<rparr>"

lemma spawn_attempts:
  "init_supervisor_spawn_until_running (counted ops) is_restart svc (w, k) = (running, svc', (w', k')) \<Longrightarrow>
   restarts_used svc \<le> RESTART_BUDGET \<Longrightarrow>
   k' + restarts_used svc = k + restarts_used svc' + (if is_restart then 0 else 1)"
proof (induction "2 * (RESTART_BUDGET - restarts_used svc) + (if is_restart then 0 else 1)"
    arbitrary: is_restart svc w k rule: less_induct)
  case less
  show ?case
  proof (cases "is_restart \<and> restarts_used svc \<ge> RESTART_BUDGET")
    case True
    then show ?thesis using less.prems(1)
      by (subst (asm) init_supervisor_spawn_until_running.simps)
        (auto simp: init_supervisor_disable_def counted_def Let_def split: option.splits)
  next
    case False
    let ?svc1 = "if is_restart then svc\<lparr>restarts_used := restarts_used svc + 1\<rparr> else svc"
    obtain tid w1 where s: "op_spawn ops (svc_name ?svc1) w = (tid, w1)" by force
    then have cs: "op_spawn (counted ops) (svc_name ?svc1) (w, k) = (tid, w1, k + 1)"
      by (simp add: counted_def)
    define w2 where "w2 = (if tid < 0 then op_failure ops (svc_name ?svc1) w1 else w1)"
    have c: "init_spawn_created (counted ops) tid (svc_name ?svc1) (w1, k + 1) = (\<not> tid < 0, w2, k + 1)"
      by (simp add: init_spawn_created_def counted_def w2_def)
    have b: "restarts_used ?svc1 \<le> RESTART_BUDGET" using False less.prems(2) by auto
    have eq: "init_supervisor_spawn_until_running (counted ops) is_restart svc (w, k) =
       (if \<not> tid < 0 then (True, ?svc1\<lparr>svc_tid := tid, svc_state := RUNNING\<rparr>, w2, k + 1)
        else init_supervisor_spawn_until_running (counted ops) True ?svc1 (w2, k + 1))"
      using False cs c by (subst init_supervisor_spawn_until_running.simps) (simp only: Let_def prod.case if_False)
    show ?thesis
    proof (cases "tid < 0")
      case True
      have m: "2 * (RESTART_BUDGET - restarts_used ?svc1) + (if True then 0 else 1) <
          2 * (RESTART_BUDGET - restarts_used svc) + (if is_restart then 0 else 1)" using False by auto
      from less.hyps [OF m _ b, of w2 "k + 1"] eq True less.prems(1)
      show ?thesis by (auto split: if_splits)
    next
      case f: False
      then show ?thesis using eq less.prems(1) by (auto split: if_splits)
    qed
  qed
qed

section \<open>All histories\<close>

inductive sup_step ::
    "'w init_supervisor_ops \<Rightarrow> init_supervisor_service list \<times> 'w \<Rightarrow> init_supervisor_service list \<times> 'w \<Rightarrow> bool" for ops where
  step_register: "sup_step ops (tab, w) (snd (init_supervisor_register tab name), w)"
| step_start: "sup_step ops (tab, w) (init_supervisor_start ops tab slot w)"
| step_exit: "sup_step ops (tab, w) (snd (init_supervisor_child_exit ops tab tid status w))"

inductive sup_reach :: "'w init_supervisor_ops \<Rightarrow> 'w \<Rightarrow> init_supervisor_service list \<times> 'w \<Rightarrow> bool" for ops w0 where
  reach_init: "sup_reach ops w0 (init_supervisor_init, w0)"
| reach_step: "sup_reach ops w0 s \<Longrightarrow> sup_step ops s s' \<Longrightarrow> sup_reach ops w0 s'"

definition service_ok :: "init_supervisor_service \<Rightarrow> bool" where
  "service_ok s \<longleftrightarrow> restarts_used s \<le> RESTART_BUDGET \<and>
     (if svc_state s = RUNNING then 0 \<le> svc_tid s else svc_tid s = -1) \<and>
     (svc_state s = UNUSED \<longrightarrow> svc_name s = None \<and> restarts_used s = 0) \<and>
     (svc_state s = REGISTERED \<longrightarrow> restarts_used s = 0) \<and>
     (svc_state s \<noteq> UNUSED \<longrightarrow> svc_name s \<noteq> None \<and> svc_name s \<noteq> Some [])"

text \<open>Attempts made for a service so far: one for the start, one for each restart.\<close>

definition attempts :: "init_supervisor_service \<Rightarrow> nat" where
  "attempts s = (if svc_state s = UNUSED \<or> svc_state s = REGISTERED then 0 else 1 + restarts_used s)"

definition sup_ok :: "init_supervisor_service list \<times> 'w \<times> nat \<Rightarrow> bool" where
  "sup_ok = (\<lambda>(tab, _, k). length tab = CAPACITY \<and> list_all service_ok tab \<and>
     distinct (map svc_name (filter (\<lambda>s. svc_state s \<noteq> UNUSED) tab)) \<and> k = sum_list (map attempts tab))"

lemma same_text_eq: "same_text s t \<longleftrightarrow> s = t"
proof (induction s arbitrary: t)
  case (Cons a s)
  then show ?case by (cases t) auto
qed auto

lemma name_equal_eq: "init_supervisor_name_equal l r \<longleftrightarrow> l = r"
  by (auto simp: init_supervisor_name_equal_def same_text_eq split: option.splits)

lemma find_slot:
  "List.find P [0..<n] = Some i \<Longrightarrow> i < n \<and> P i"
  by (auto simp: find_Some_iff)

lemma sum_list_update_attempts:
  "i < length tab \<Longrightarrow> sum_list (map attempts (tab[i := s])) + attempts (tab ! i) = sum_list (map attempts tab) + attempts s"
  by (induction tab arbitrary: i) (auto split: nat.splits)

text \<open>Replacing a service by one of the same name keeps the table well formed.\<close>

lemma names_update:
  assumes "i < length tab" "svc_name s = svc_name (tab ! i)" "svc_state s \<noteq> UNUSED" "svc_state (tab ! i) \<noteq> UNUSED"
  shows "map svc_name (filter (\<lambda>s. svc_state s \<noteq> UNUSED) (tab[i := s])) =
    map svc_name (filter (\<lambda>s. svc_state s \<noteq> UNUSED) tab)"
proof -
  obtain pre x post where t: "tab = pre @ x # post" "length pre = i"
    using id_take_nth_drop [OF assms(1)] assms(1) by (metis length_take min.absorb4)
  then show ?thesis using assms(2-4) by (auto simp: nth_append)
qed

lemma sup_ok_update:
  assumes "sup_ok (tab, w, k)" "i < CAPACITY" "svc_name s = svc_name (tab ! i)" "svc_state s \<noteq> UNUSED"
    "svc_state (tab ! i) \<noteq> UNUSED" "service_ok s" "k' + attempts (tab ! i) = k + attempts s"
  shows "sup_ok (tab[i := s], w', k')"
proof -
  have t: "length tab = CAPACITY" "list_all service_ok tab" "k = sum_list (map attempts tab)"
    "distinct (map svc_name (filter (\<lambda>s. svc_state s \<noteq> UNUSED) tab))" using assms(1) by (auto simp: sup_ok_def)
  have i: "i < length tab" using assms(2) t(1) by simp
  have "list_all service_ok (tab[i := s])"
    using t(2) assms(6) set_update_subset_insert [of tab i s] by (auto simp: list_all_iff)
  moreover have "k' = sum_list (map attempts (tab[i := s]))"
    using sum_list_update_attempts [OF i, of s] assms(7) t(3) by simp
  ultimately show ?thesis using t(1,4) names_update [OF i assms(3-5)] by (simp add: sup_ok_def)
qed

lemma service_okD:
  "sup_ok (tab, w, k) \<Longrightarrow> i < CAPACITY \<Longrightarrow> service_ok (tab ! i)"
  by (auto simp: sup_ok_def list_all_iff)

lemma register_cases:
  obtains (refused) "init_supervisor_register tab name = (-1, tab)"
  | (slot) i where "i < CAPACITY" "svc_state (tab ! i) = UNUSED" "name \<noteq> None" "name \<noteq> Some []"
      "\<And>j. j < CAPACITY \<Longrightarrow> svc_state (tab ! j) \<noteq> UNUSED \<Longrightarrow> svc_name (tab ! j) \<noteq> name"
      "init_supervisor_register tab name =
        (int i, tab[i := \<lparr>svc_name = name, svc_tid = -1, restarts_used = 0, svc_state = REGISTERED\<rparr>])"
proof (cases "init_supervisor_register tab name = (-1, tab)")
  case False
  then have n: "name \<noteq> None" "name \<noteq> Some []"
    and fr: "\<not> (\<exists>slot\<in>{0..<CAPACITY}. svc_state (tab ! slot) \<noteq> UNUSED \<and> init_supervisor_name_equal (svc_name (tab ! slot)) name)"
    by (auto simp: init_supervisor_register_def split: if_splits)
  obtain i where i: "List.find (\<lambda>slot. svc_state (tab ! slot) = UNUSED) [0..<CAPACITY] = Some i"
    using False n fr by (fastforce simp: init_supervisor_register_def split: if_splits option.splits)
  show ?thesis
  proof (rule slot)
    show "i < CAPACITY" "svc_state (tab ! i) = UNUSED" using find_slot [OF i] by auto
    show "svc_name (tab ! j) \<noteq> name" if "j < CAPACITY" "svc_state (tab ! j) \<noteq> UNUSED" for j
      using fr that by (auto simp: name_equal_eq)
    show "init_supervisor_register tab name =
        (int i, tab[i := \<lparr>svc_name = name, svc_tid = -1, restarts_used = 0, svc_state = REGISTERED\<rparr>])"
      using n fr i by (auto simp: init_supervisor_register_def simp del: upt_conv_Cons split: option.splits)
  qed (use n in auto)
qed (use that in blast)

lemma register_ok:
  assumes "sup_ok (tab, w, k)"
  shows "sup_ok (snd (init_supervisor_register tab name), w, k)"
proof (cases rule: register_cases [of tab name])
  case refused
  with assms show ?thesis by simp
next
  case (slot i)
  let ?new = "\<lparr>svc_name = name, svc_tid = -1, restarts_used = 0, svc_state = REGISTERED\<rparr>"
  have len: "length tab = CAPACITY" "list_all service_ok tab" "k = sum_list (map attempts tab)"
    "distinct (map svc_name (filter (\<lambda>s. svc_state s \<noteq> UNUSED) tab))" using assms by (auto simp: sup_ok_def)
  obtain pre x post where t: "tab = pre @ x # post" "length pre = i"
    using id_take_nth_drop [of i tab] slot(1) len(1) by (metis length_take min.absorb4)
  have x: "svc_state x = UNUSED" using slot(2) t by (simp add: nth_append)
  have up: "tab[i := ?new] = pre @ ?new # post" using t by auto
  have fresh: "svc_name s \<noteq> name" if "s \<in> set tab" "svc_state s \<noteq> UNUSED" for s
    using slot(5) that len(1) by (auto simp: in_set_conv_nth)
  have "distinct (map svc_name (filter (\<lambda>s. svc_state s \<noteq> UNUSED) (pre @ ?new # post)))"
    using len(4) x fresh unfolding t(1) by auto
  moreover have "list_all service_ok (pre @ ?new # post)"
    using len(2) slot(3,4) unfolding t(1) by (auto simp: service_ok_def)
  moreover have "sum_list (map attempts (pre @ ?new # post)) = sum_list (map attempts tab)"
    using x unfolding t(1) by (simp add: attempts_def)
  ultimately show ?thesis using len(1,3) slot(6) up unfolding sup_ok_def t(1) by simp
qed

lemma start_ok:
  assumes "sup_ok (tab, w, k)"
  shows "sup_ok (init_supervisor_start (counted ops) tab slot (w, k))"
proof (cases "init_supervisor_valid_slot slot \<and> svc_state (tab ! nat slot) = REGISTERED")
  case True
  let ?i = "nat slot"
  have i: "?i < CAPACITY" using True by (auto simp: init_supervisor_valid_slot_def)
  have ok: "service_ok (tab ! ?i)" "restarts_used (tab ! ?i) = 0"
    using service_okD [OF assms i] True by (auto simp: service_ok_def)
  obtain running svc w' k' where r: "init_supervisor_spawn_until_running (counted ops) False (tab ! ?i) (w, k) = (running, svc, w', k')"
    by (metis prod.exhaust)
  note out = spawn_until_running_outcome [OF r] and cnt = spawn_attempts [OF r]
  have "init_supervisor_start (counted ops) tab slot (w, k) = (tab[?i := svc], w', k')"
    using True r by (simp add: init_supervisor_start_def)
  moreover have "sup_ok (tab[?i := svc], w', k')"
    using out cnt ok True assms i
    by (intro sup_ok_update [OF assms i]) (auto simp: service_ok_def attempts_def split: if_splits)
  ultimately show ?thesis by simp
next
  case False
  then show ?thesis using assms by (auto simp: init_supervisor_start_def)
qed

lemma find_tid_slot:
  assumes "\<not> init_supervisor_find_tid tab tid < 0"
  shows "nat (init_supervisor_find_tid tab tid) < CAPACITY" "svc_state (tab ! nat (init_supervisor_find_tid tab tid)) = RUNNING"
    "svc_tid (tab ! nat (init_supervisor_find_tid tab tid)) = tid"
  using assms by (auto simp: init_supervisor_find_tid_def split: option.splits dest!: find_slot)

lemma exit_ok:
  assumes "sup_ok (tab, w, k)"
  shows "sup_ok (snd (init_supervisor_child_exit (counted ops) tab tid status (w, k)))"
proof (cases "init_supervisor_find_tid tab tid < 0")
  case True
  then show ?thesis using assms by (simp add: init_supervisor_child_exit_def)
next
  case False
  let ?i = "nat (init_supervisor_find_tid tab tid)"
  note slot = find_tid_slot [OF False]
  have ok: "service_ok (tab ! ?i)" by (rule service_okD [OF assms slot(1)])
  let ?svc = "(tab ! ?i)\<lparr>svc_tid := -1\<rparr>"
  show ?thesis
  proof (cases "status = 0")
    case True
    have "sup_ok (tab[?i := ?svc\<lparr>svc_state := STOPPED\<rparr>], w, k)"
      using ok slot(2) by (intro sup_ok_update [OF assms slot(1)]) (auto simp: service_ok_def attempts_def)
    then show ?thesis using True False by (simp add: init_supervisor_child_exit_def Let_def)
  next
    case s: False
    obtain running svc w' k' where r: "init_supervisor_spawn_until_running (counted ops) True ?svc (w, k) = (running, svc, w', k')"
      by (metis prod.exhaust)
    note out = spawn_until_running_outcome [OF r] and cnt = spawn_attempts [OF r]
    have "snd (init_supervisor_child_exit (counted ops) tab tid status (w, k)) = (tab[?i := svc], w', k')"
      using False s r by (simp add: init_supervisor_child_exit_def)
    moreover have "sup_ok (tab[?i := svc], w', k')"
      using out cnt ok slot
      by (intro sup_ok_update [OF assms slot(1)]) (auto simp: service_ok_def attempts_def split: if_splits)
    ultimately show ?thesis by simp
  qed
qed

lemma sup_ok_init: "sup_ok (init_supervisor_init, w, 0)"
  by (simp add: sup_ok_def init_supervisor_init_def unused_service_def service_ok_def attempts_def numeral_eq_Suc)

lemma sup_reach_ok: "sup_reach (counted ops) (w0, 0) s \<Longrightarrow> sup_ok s"
proof (induction rule: sup_reach.induct)
  case reach_init
  then show ?case by (rule sup_ok_init)
next
  case (reach_step s s')
  from reach_step.hyps(2) reach_step.IH show ?case
    by cases (auto intro: register_ok start_ok exit_ok)
qed

lemma attempts_le: "service_ok s \<Longrightarrow> attempts s \<le> 4"
  by (auto simp: service_ok_def attempts_def)

lemma sum_attempts_le: "list_all service_ok tab \<Longrightarrow> sum_list (map attempts tab) \<le> 4 * length tab"
  by (induction tab) (auto dest: attempts_le)

text \<open>C10. The supervisor over every history of registrations, starts and child exits, whatever the spawn calls
  return: the table keeps four entries, a restart count never exceeds the budget, a tid is stored exactly
  for running services, registered names are different and not empty, and the spawn attempts made so far
  are one per started service plus its restarts, so at most sixteen in the whole life of the system.\<close>

theorem supervisor_invariant:
  assumes "sup_reach (counted ops) (w0, 0) (tab, w, k)"
  shows "length tab = CAPACITY \<and>
    list_all (\<lambda>s. restarts_used s \<le> RESTART_BUDGET \<and>
      (if svc_state s = RUNNING then 0 \<le> svc_tid s else svc_tid s = -1) \<and>
      (svc_state s \<noteq> UNUSED \<longrightarrow> svc_name s \<noteq> None \<and> svc_name s \<noteq> Some [])) tab \<and>
    distinct (map svc_name (filter (\<lambda>s. svc_state s \<noteq> UNUSED) tab)) \<and>
    k = sum_list (map attempts tab) \<and> k \<le> 16"
proof -
  have ok: "length tab = CAPACITY" "list_all service_ok tab" "k = sum_list (map attempts tab)"
    "distinct (map svc_name (filter (\<lambda>s. svc_state s \<noteq> UNUSED) tab))"
    using sup_reach_ok [OF assms] by (auto simp: sup_ok_def)
  with sum_attempts_le [OF ok(2)] show ?thesis by (auto simp: list_all_iff service_ok_def)
qed

definition failing_ops :: "unit init_supervisor_ops" where
  "failing_ops = \<lparr>op_spawn = \<lambda>_ w. (-11, w), op_failure = \<lambda>_ w. w, op_disabled = None\<rparr>"

lemma failing_start:
  "init_supervisor_start (counted failing_ops) (snd (init_supervisor_register init_supervisor_init (Some ''sh''))) 0 ((), 0) =
    (init_supervisor_init[0 := \<lparr>svc_name = Some ''sh'', svc_tid = -1, restarts_used = 3, svc_state = DISABLED\<rparr>], (), 4)"
  by code_simp

theorem supervisor_invariant_witness:
  "\<exists>tab. sup_reach (counted failing_ops) ((), 0) (tab, (), 4) \<and> sum_list (map attempts tab) = 4"
proof -
  let ?tab = "init_supervisor_init[0 := \<lparr>svc_name = Some ''sh'', svc_tid = -1, restarts_used = 3, svc_state = DISABLED\<rparr>]"
  have "sup_reach (counted failing_ops) ((), 0) (?tab, (), 4)"
    using reach_step [OF reach_step [OF reach_init step_register] step_start] failing_start by metis
  from supervisor_invariant [OF this] this show ?thesis by metis
qed

end
