(* ===== verification/Init.thy ===== *)
theory Init
  imports Supervisor
begin

text \<open>
  Process 1, \<open>servers/init/main.c\<close>. The kernel is a parameter: its calls transform a world. The state of
  the program is the world with the text printed so far, and the supervisor's table. Reaping loops while
  the children it gets are supervised services, so it is an option (\<open>None\<close> when it does not return).
\<close>

section \<open>The kernel and the state\<close>

record 'w kernel =
  k_spawn :: "string \<Rightarrow> 'w \<Rightarrow> int \<times> 'w"
  k_waitpid :: "'w \<Rightarrow> int \<times> int \<times> 'w"
  k_mq_open :: "string \<Rightarrow> int \<Rightarrow> int \<Rightarrow> 'w \<Rightarrow> int \<times> 'w"
  k_close :: "int \<Rightarrow> 'w \<Rightarrow> 'w"
  k_getpid :: "'w \<Rightarrow> int"
  k_nanosleep :: "int \<Rightarrow> int \<Rightarrow> 'w \<Rightarrow> 'w"

type_synonym 'w console = "'w \<times> string"
type_synonym 'w init_state = "init_supervisor_service list \<times> 'w console"

abbreviation newline :: string where "newline \<equiv> [CHR 0x0A]"

definition print :: "string \<Rightarrow> 'w console \<Rightarrow> 'w console" where
  "print s c = (fst c, snd c @ s)"

definition name_text :: "string option \<Rightarrow> string" where
  "name_text name = (case name of Some s \<Rightarrow> s | None \<Rightarrow> ''(null)'')"

definition persistent_services :: "string list" where
  "persistent_services = [''syslogd'', ''devmgr'']"

section \<open>Spawning\<close>

definition spawn :: "'w kernel \<Rightarrow> string \<Rightarrow> 'w console \<Rightarrow> int \<times> 'w console" where
  "spawn k name c = (let (tid, w) = k_spawn k name (fst c) in (tid, w, snd c))"

definition report_spawn_failure :: "string option \<Rightarrow> 'w console \<Rightarrow> 'w console" where
  "report_spawn_failure name c = print (''spawn failed '' @ name_text name @ newline) c"

definition report_service_disabled :: "string option \<Rightarrow> 'w console \<Rightarrow> 'w console" where
  "report_service_disabled name c = print (''service disabled '' @ name_text name @ newline) c"

definition supervisor_ops :: "'w kernel \<Rightarrow> 'w console init_supervisor_ops" where
  "supervisor_ops k = \<lparr>op_spawn = (\<lambda>name. spawn k (name_text name)), op_failure = report_spawn_failure,
     op_disabled = Some report_service_disabled\<rparr>"

definition spawn_created :: "'w kernel \<Rightarrow> string \<Rightarrow> 'w console \<Rightarrow> bool \<times> 'w console" where
  "spawn_created k name c =
     (let (tid, c') = spawn k name c in init_spawn_created (supervisor_ops k) tid (Some name) c')"

definition spawn_child :: "'w kernel \<Rightarrow> string \<Rightarrow> 'w console \<Rightarrow> int \<times> 'w console" where
  "spawn_child k name c =
     (let (tid, c1) = spawn k name c; (created, c2) = init_spawn_created (supervisor_ops k) tid (Some name) c1
      in if \<not> created then (-1, c2) else (tid, c2))"

section \<open>Reaping\<close>

partial_function (option) reap_child :: "'w kernel \<Rightarrow> 'w init_state \<Rightarrow> (int \<times> int \<times> 'w init_state) option" where
  "reap_child k st =
     (let (tab, c) = st; (tid, status, w) = k_waitpid k (fst c); c1 = (w, snd c) in
      if tid < 0 then Some (tid, status, tab, c1)
      else let (r, tab', c2) = init_supervisor_child_exit (supervisor_ops k) tab tid status c1
           in if r = R_IGNORED then Some (tid, status, tab', c2) else reap_child k (tab', c2))"

declare reap_child.simps [code]

definition run_test :: "'w kernel \<Rightarrow> string \<Rightarrow> 'w init_state \<Rightarrow> 'w init_state option" where
  "run_test k name st =
     (let (tab, c) = st; (tid, c1) = spawn_child k name c in
      if tid = -1 then Some (tab, c1)
      else (case reap_child k (tab, print (''spawned '' @ name @ newline) c1) of
              None \<Rightarrow> None
            | Some (_, _, tab', c2) \<Rightarrow> Some (tab', print (name @ '' done'' @ newline) c2)))"

definition run_test_quiet :: "'w kernel \<Rightarrow> string \<Rightarrow> 'w init_state \<Rightarrow> 'w init_state option" where
  "run_test_quiet k name st =
     (let (tab, c) = st; (tid, c1) = spawn_child k name c in
      if tid = -1 then Some (tab, c1)
      else (case reap_child k (tab, print (''spawned '' @ name @ newline) c1) of
              None \<Rightarrow> None
            | Some (_, _, st') \<Rightarrow> Some st'))"

definition start_service :: "'w kernel \<Rightarrow> string \<Rightarrow> 'w init_state \<Rightarrow> 'w init_state" where
  "start_service k name st =
     (let (tab, c) = st; (slot, tab') = init_supervisor_register tab (Some name)
      in if slot \<ge> 0 then init_supervisor_start (supervisor_ops k) tab' slot c else (tab', c))"

definition start_persistent_services :: "'w kernel \<Rightarrow> 'w init_state \<Rightarrow> 'w init_state" where
  "start_persistent_services k st = fold (start_service k) persistent_services (init_supervisor_init, snd st)"

section \<open>The start-up sequence\<close>

datatype test = Run string | Quiet string

definition tests_base :: "test list" where
  "tests_base =
     [Run ''hello3'', Run ''hello4'', Run ''hello5'', Run ''hello7'', Run ''hello8'', Run ''hello12'',
      Quiet ''hello13'', Quiet ''hello14'', Quiet ''hello15'', Quiet ''hello16'', Run ''hello17'', Run ''hello18'',
      Run ''hello19'', Run ''hello20'', Run ''hello22'', Run ''hello26'', Run ''hello27'', Run ''hello23'',
      Run ''hello24'', Run ''hello25'', Run ''hello29'', Run ''hello30'', Run ''hello31'', Run ''hello32'',
      Run ''hello33'', Run ''hello34'', Run ''hello35'', Run ''hello36'', Run ''hello37'', Run ''hello38'',
      Run ''hello40'', Run ''hello39'', Run ''hello41'', Run ''hello42'', Run ''hello43'', Run ''hello44'',
      Run ''hello45'', Run ''hello46'', Run ''hello47'', Run ''hello48'', Run ''hello49'', Run ''hello50'',
      Run ''hello51'', Run ''hello52'', Run ''hello53'', Run ''hello54'', Run ''hello56'', Run ''hello57'',
      Run ''hello58'', Run ''hello59'', Run ''hello60'', Run ''hello61'', Run ''hello62'', Run ''hello63'',
      Run ''hello64'', Run ''hello65'', Run ''hello66'', Run ''hello67'', Run ''hello68'', Run ''hello69'',
      Run ''hello70'', Run ''hello71'', Run ''hello72'', Run ''hello73'', Run ''hello74'', Run ''hello75'',
      Run ''hello76'', Run ''hello77'', Run ''hello78'', Run ''hello79'']"

definition tests_syscalls :: "test list" where
  "tests_syscalls =
     [Run ''hello80'', Run ''hello81'', Run ''hello82'', Run ''hello83'', Run ''hello84'', Run ''hello85'',
      Run ''hello86'', Run ''hello87'', Run ''hello88'', Run ''hello89'', Run ''hello90'', Run ''hello91'',
      Run ''hello92'', Run ''hello93'', Run ''hello94'', Run ''hello95'', Run ''hello96'', Run ''hello97'',
      Run ''hello98'', Run ''hello99'', Run ''hello100'', Run ''hello101'', Run ''hello102'', Run ''hello103'',
      Run ''hello104'', Run ''hello105'', Run ''hello106'', Run ''hello107'', Run ''hello108'', Run ''hello109'',
      Run ''hello110'', Run ''hello111'', Run ''hello112'', Run ''hello113'', Run ''hello114'', Run ''hello115'',
      Run ''hello117'', Run ''hello118'', Run ''hello119'', Run ''hello120'', Run ''hello121'', Run ''hello122'',
      Run ''hello123'', Run ''hello124'', Run ''hello125'', Run ''hello126'', Run ''hello127'', Run ''hello128'',
      Run ''hello129'', Run ''hello130'', Run ''hello131'', Run ''hello132'', Run ''hello133'', Run ''hello134'',
      Run ''hello135'', Run ''hello136'', Run ''hello137'', Run ''hello138'', Run ''hello139'', Run ''hello140'',
      Run ''hello141'', Run ''hello142'', Run ''hello143'', Run ''hello144'', Run ''hello145'', Run ''hello146'',
      Run ''hello147'', Run ''hello148'', Run ''hello150'', Run ''hello151'', Run ''hello152'', Run ''hello153'',
      Run ''hello154'', Run ''hello155'', Run ''hello156'', Run ''hello157'', Run ''hello158'', Run ''hello159'',
      Run ''hello160'', Run ''hello161'', Run ''hello162'', Run ''hello163'', Run ''hello164'', Run ''hello165'',
      Run ''hello166'', Run ''hello167'', Run ''hello168'', Run ''hello169'', Run ''hello170'', Run ''hello171'']"

definition tests_libc :: "test list" where
  "tests_libc =
     [Run ''hello172'', Run ''hello173'', Run ''hello174'', Run ''hello175'', Run ''hello176'', Run ''hello177'',
      Run ''hello178'', Run ''hello179'', Run ''hello180'', Run ''hello181'', Run ''hello182'', Run ''hello183'',
      Run ''hello184'', Run ''hello185'', Run ''hello186'', Run ''hello187'', Run ''hello188'', Run ''hello189'',
      Run ''hello195'', Run ''hello196'', Run ''hello197'', Run ''hello198'', Run ''hello199'', Run ''hello200'',
      Run ''hello201'', Run ''hello202'', Run ''hello203'', Run ''hello204'', Run ''hello205'', Run ''hello206'',
      Run ''hello207'', Run ''hello208'', Run ''hello209'', Run ''hello210'', Run ''hello211'', Run ''hello212'',
      Run ''hello213'', Run ''hello214'', Run ''hello215'', Run ''hello216'', Run ''hello217'', Run ''hello218'',
      Run ''hello219'', Run ''hello220'', Run ''hello221'', Run ''hello222'', Run ''hello223'', Run ''hello224'',
      Run ''hello225'', Run ''hello226'', Run ''hello227'', Run ''hello228'', Run ''hello229'', Run ''hello234'',
      Run ''hello235'', Run ''hello236'', Run ''hello237'', Run ''hello238'', Run ''hello239'', Run ''hello240'',
      Run ''hello241'', Run ''hello242'', Run ''hello243'', Run ''hello244'', Run ''hello245'', Run ''hello246'',
      Run ''hello248'', Run ''hello249'', Run ''hello250'', Run ''hello251'', Run ''hello252'', Run ''hello253'',
      Run ''hello254'', Run ''hello255'', Run ''hello256'', Run ''hello257'', Run ''hello190'', Run ''hello191'',
      Run ''hello192'', Run ''hello193'']"

fun run_tests :: "'w kernel \<Rightarrow> test list \<Rightarrow> 'w init_state \<Rightarrow> 'w init_state option" where
  "run_tests k [] st = Some st"
| "run_tests k (t # ts) st =
     (case (case t of Run name \<Rightarrow> run_test k name st | Quiet name \<Rightarrow> run_test_quiet k name st) of
        None \<Rightarrow> None | Some st' \<Rightarrow> run_tests k ts st')"

definition run_hello2 :: "'w kernel \<Rightarrow> 'w init_state \<Rightarrow> 'w init_state option" where
  "run_hello2 k st =
     (let (tab, c) = st; (tid, c1) = spawn_child k ''hello2'' c in
      if tid = -1 then Some (tab, c1)
      else (case reap_child k (tab, print (''spawned hello2'' @ newline) c1) of
              None \<Rightarrow> None
            | Some (_, _, tab', c2) \<Rightarrow> Some (tab', print (''child exited'' @ newline) c2)))"

definition mq_create :: "'w kernel \<Rightarrow> string \<Rightarrow> int \<Rightarrow> 'w console \<Rightarrow> 'w console" where
  "mq_create k name mode c =
     (let (q, w) = k_mq_open k name 66 mode (fst c) in (if q \<ge> 0 then k_close k q w else w, snd c))"

definition mq_fixture :: "'w kernel \<Rightarrow> 'w console \<Rightarrow> 'w console" where
  "mq_fixture k c = mq_create k ''/h80-open'' 438 (mq_create k ''/h80-root'' 384 c)"

definition long_text :: "int \<Rightarrow> string" where
  "long_text v = (if v < 0 then ''-'' @ dec_text (nat (- v)) else dec_text (nat v))"

text \<open>Everything before the supervised services start, the rest up to the shell, and one round of the final loop.\<close>

definition main_tests :: "'w kernel \<Rightarrow> 'w init_state \<Rightarrow> 'w init_state option" where
  "main_tests k st =
     (let (tab, c) = st;
          c1 = print (''Hello from init!'' @ newline) (print (''init (pid '' @ long_text (k_getpid k (fst c)) @ '') started'' @ newline) c)
      in Option.bind (run_hello2 k (tab, c1)) (\<lambda>st1.
         Option.bind (run_tests k tests_base st1) (\<lambda>st2.
         Option.bind (run_tests k tests_syscalls (fst st2, mq_fixture k (snd st2))) (\<lambda>st3.
         run_tests k tests_libc st3))))"

definition main_services :: "'w kernel \<Rightarrow> 'w init_state \<Rightarrow> 'w init_state option" where
  "main_services k st =
     Option.bind (run_tests k [Run ''hello9'', Run ''hello10'', Run ''hello21''] (start_persistent_services k st))
       (\<lambda>st1. Some (fst st1, snd (spawn_created k ''sh'' (snd st1))))"

definition main_round :: "'w kernel \<Rightarrow> 'w init_state \<Rightarrow> 'w init_state option" where
  "main_round k st =
     (case reap_child k st of
        None \<Rightarrow> None
      | Some (tid, _, tab, c) \<Rightarrow> Some (tab, if tid < 0 then (k_nanosleep k 1 0 (fst c), snd c) else c))"

text \<open>The table is in zeroed storage until the services start.\<close>

definition zero_table :: "init_supervisor_service list" where
  "zero_table = replicate CAPACITY \<lparr>svc_name = None, svc_tid = 0, restarts_used = 0, svc_state = UNUSED\<rparr>"

primrec main_rounds :: "'w kernel \<Rightarrow> nat \<Rightarrow> 'w init_state \<Rightarrow> 'w init_state option" where
  "main_rounds k 0 st = Some st"
| "main_rounds k (Suc n) st = Option.bind (main_rounds k n st) (main_round k)"

definition init_main :: "'w kernel \<Rightarrow> nat \<Rightarrow> 'w \<Rightarrow> 'w init_state option" where
  "init_main k n w =
     Option.bind (main_tests k (zero_table, w, [])) (\<lambda>st1. Option.bind (main_services k st1) (main_rounds k n))"

section \<open>Reaping always comes to an end\<close>

definition table_fine :: "init_supervisor_service list \<Rightarrow> bool" where
  "table_fine tab \<longleftrightarrow> length tab = CAPACITY \<and> list_all (\<lambda>s. restarts_used s \<le> RESTART_BUDGET) tab"

text \<open>How many more exits of a service the supervisor can answer.\<close>

definition lives :: "init_supervisor_service \<Rightarrow> nat" where
  "lives s = (if svc_state s = RUNNING then Suc (RESTART_BUDGET - restarts_used s) else 0)"

lemma lives_update:
  "i < length tab \<Longrightarrow> sum_list (map lives (tab[i := s])) + lives (tab ! i) = sum_list (map lives tab) + lives s"
  by (induction tab arbitrary: i) (auto split: nat.splits)

lemma table_fine_update:
  "table_fine tab \<Longrightarrow> restarts_used s \<le> RESTART_BUDGET \<Longrightarrow> table_fine (tab[i := s])"
  using set_update_subset_insert [of tab i s] by (auto simp: table_fine_def list_all_iff)

lemma table_fine_nth: "table_fine tab \<Longrightarrow> i < CAPACITY \<Longrightarrow> restarts_used (tab ! i) \<le> RESTART_BUDGET"
  by (simp add: table_fine_def list_all_length)

lemma child_exit_progress:
  assumes t: "table_fine tab" and e: "init_supervisor_child_exit ops tab tid status w = (r, tab', w')"
  shows "table_fine tab'" "r = R_IGNORED \<Longrightarrow> tab' = tab \<and> w' = w"
    "r \<noteq> R_IGNORED \<Longrightarrow> sum_list (map lives tab') < sum_list (map lives tab)"
proof -
  let ?i = "init_supervisor_find_tid tab tid"
  have "table_fine tab' \<and> (if r = R_IGNORED then tab' = tab \<and> w' = w else sum_list (map lives tab') < sum_list (map lives tab))"
  proof (cases "?i < 0")
    case True
    then show ?thesis using e t by (simp add: init_supervisor_child_exit_def)
  next
    case False
    note slot = find_tid_slot [OF False]
    let ?s = "(tab ! nat ?i)\<lparr>svc_tid := -1\<rparr>"
    have i: "nat ?i < length tab" using slot(1) t by (simp add: table_fine_def)
    have b: "restarts_used ?s \<le> RESTART_BUDGET" using table_fine_nth [OF t slot(1)] by simp
    have new: "table_fine (tab[nat ?i := s]) \<and> sum_list (map lives (tab[nat ?i := s])) < sum_list (map lives tab)"
      if "restarts_used s \<le> RESTART_BUDGET" "lives s < lives (tab ! nat ?i)" for s
      using table_fine_update [OF t that(1)] lives_update [OF i, of s] that(2) by simp
    show ?thesis
    proof (cases "status = 0")
      case True
      then show ?thesis
        using e False new [of "?s\<lparr>svc_state := STOPPED\<rparr>"] b slot(2)
        by (auto simp: init_supervisor_child_exit_def Let_def lives_def)
    next
      case s: False
      obtain running svc w1 where sp: "init_supervisor_spawn_until_running ops True ?s w = (running, svc, w1)"
        by (rule prod_cases3)
      note o = spawn_until_running_outcome [OF sp b]
      have "lives svc < lives (tab ! nat ?i)"
        using o slot(2) b by (cases running) (auto simp: lives_def)
      with new [OF o(3)] show ?thesis
        using e False s sp by (auto simp: init_supervisor_child_exit_def Let_def split: if_splits)
    qed
  qed
  then show "table_fine tab'" "r = R_IGNORED \<Longrightarrow> tab' = tab \<and> w' = w"
    "r \<noteq> R_IGNORED \<Longrightarrow> sum_list (map lives tab') < sum_list (map lives tab)" by (auto split: if_splits)
qed

lemma reap_child_returns:
  "table_fine tab \<Longrightarrow> \<exists>tid status tab' c'. reap_child k (tab, c) = Some (tid, status, tab', c') \<and> table_fine tab'"
proof (induction "sum_list (map lives tab)" arbitrary: tab c rule: less_induct)
  case less
  obtain tid status w where wp: "k_waitpid k (fst c) = (tid, status, w)" by (rule prod_cases3)
  obtain r tab' c2 where e: "init_supervisor_child_exit (supervisor_ops k) tab tid status (w, snd c) = (r, tab', c2)"
    by (rule prod_cases3)
  note p = child_exit_progress [OF less.prems e]
  have eq: "reap_child k (tab, c) = (if tid < 0 then Some (tid, status, tab, w, snd c)
      else if r = R_IGNORED then Some (tid, status, tab', c2) else reap_child k (tab', c2))"
    by (subst reap_child.simps) (simp add: wp e)
  consider "tid < 0" | "\<not> tid < 0" "r = R_IGNORED" | "\<not> tid < 0" "r \<noteq> R_IGNORED" by blast
  then show ?case
  proof cases
    case 3
    then show ?thesis using less.hyps [OF p(3) [OF 3(2)] p(1), of c2] eq by simp
  qed (use less.prems p(1) eq in auto)
qed

lemma fine_returns:
  assumes "table_fine (fst st)"
  shows "\<exists>st'. run_test k name st = Some st' \<and> table_fine (fst st')"
    "\<exists>st'. run_test_quiet k name st = Some st' \<and> table_fine (fst st')"
    "\<exists>st'. run_hello2 k st = Some st' \<and> table_fine (fst st')"
    "\<exists>st'. main_round k st = Some st' \<and> table_fine (fst st')"
proof -
  obtain tab c where st: "st = (tab, c)" by (cases st)
  have R: "\<exists>tid status tab' c2. reap_child k (tab, c') = Some (tid, status, tab', c2) \<and> table_fine tab'" for c'
    using reap_child_returns assms st by simp
  show "\<exists>st'. run_test k name st = Some st' \<and> table_fine (fst st')"
    "\<exists>st'. run_test_quiet k name st = Some st' \<and> table_fine (fst st')"
    "\<exists>st'. run_hello2 k st = Some st' \<and> table_fine (fst st')"
  proof -
    obtain tid c1 where s: "spawn_child k name c = (tid, c1)" by (rule prod.exhaust)
    show "\<exists>st'. run_test k name st = Some st' \<and> table_fine (fst st')"
      using R [of "print (''spawned '' @ name @ newline) c1"] assms by (auto simp: run_test_def st s)
    show "\<exists>st'. run_test_quiet k name st = Some st' \<and> table_fine (fst st')"
      using R [of "print (''spawned '' @ name @ newline) c1"] assms by (auto simp: run_test_quiet_def st s)
    obtain tid' c2 where s2: "spawn_child k ''hello2'' c = (tid', c2)" by (rule prod.exhaust)
    show "\<exists>st'. run_hello2 k st = Some st' \<and> table_fine (fst st')"
      using R [of "print (''spawned hello2'' @ newline) c2"] assms by (auto simp: run_hello2_def st s2)
  qed
  show "\<exists>st'. main_round k st = Some st' \<and> table_fine (fst st')"
    using R [of c] by (auto simp: main_round_def st)
qed

lemma run_tests_returns:
  "table_fine (fst st) \<Longrightarrow> \<exists>st'. run_tests k ts st = Some st' \<and> table_fine (fst st')"
proof (induction ts arbitrary: st)
  case (Cons t ts)
  obtain st1 where "(case t of Run name \<Rightarrow> run_test k name st | Quiet name \<Rightarrow> run_test_quiet k name st) = Some st1"
    "table_fine (fst st1)"
    using fine_returns(1,2) [OF Cons.prems] by (cases t) fastforce+
  with Cons.IH [of st1] show ?case by simp
qed simp

lemma table_fine_register:
  "table_fine tab \<Longrightarrow> table_fine (snd (init_supervisor_register tab name))"
  by (cases rule: register_cases [of tab name]) (auto intro: table_fine_update)

lemma table_fine_start:
  assumes "table_fine tab"
  shows "table_fine (fst (init_supervisor_start ops tab slot w))"
proof (cases "init_supervisor_valid_slot slot \<and> svc_state (tab ! nat slot) = REGISTERED")
  case True
  then have "restarts_used (tab ! nat slot) \<le> RESTART_BUDGET"
    using table_fine_nth [OF assms, of "nat slot"] by (auto simp: init_supervisor_valid_slot_def)
  moreover obtain running svc w1 where
      sp: "init_supervisor_spawn_until_running ops False (tab ! nat slot) w = (running, svc, w1)" by (rule prod_cases3)
  ultimately show ?thesis
    using True spawn_until_running_outcome(3) [OF sp] table_fine_update [OF assms]
    by (simp add: init_supervisor_start_def)
qed (use assms in \<open>auto simp: init_supervisor_start_def\<close>)

lemma table_fine_services: "table_fine (fst (start_persistent_services k st))"
proof -
  have s: "table_fine (fst st) \<Longrightarrow> table_fine (fst (start_service k name st))" for name and st :: "'a init_state"
    using table_fine_register [of "fst st" "Some name"] table_fine_start
    by (auto simp: start_service_def Let_def split: prod.splits)
  have f: "table_fine (fst st) \<Longrightarrow> table_fine (fst (fold (start_service k) ns st))" for ns and st :: "'a init_state"
    by (induction ns arbitrary: st) (simp_all add: s)
  have "table_fine init_supervisor_init"
    by (simp add: table_fine_def init_supervisor_init_def unused_service_def list_all_iff)
  then show ?thesis unfolding start_persistent_services_def by (intro f) simp
qed

lemma main_services_returns: "\<exists>st'. main_services k st = Some st' \<and> table_fine (fst st')"
proof -
  obtain st1 where "run_tests k [Run ''hello9'', Run ''hello10'', Run ''hello21''] (start_persistent_services k st) = Some st1"
    "table_fine (fst st1)" using run_tests_returns [OF table_fine_services] by blast
  then show ?thesis by (simp add: main_services_def)
qed

lemma main_rounds_returns:
  "table_fine (fst st) \<Longrightarrow> \<exists>st'. main_rounds k n st = Some st' \<and> table_fine (fst st')"
proof (induction n)
  case (Suc n)
  then obtain st1 where "main_rounds k n st = Some st1" "table_fine (fst st1)" by blast
  with fine_returns(4) show ?case by simp
qed simp

section \<open>The transcript of the tests\<close>











lemma table_fine_zero: "table_fine zero_table"
  by (simp add: table_fine_def zero_table_def list_all_iff)

lemma main_tests_returns: "table_fine (fst st) \<Longrightarrow> \<exists>st'. main_tests k st = Some st'"
proof -
  assume f: "table_fine (fst st)"
  obtain tab c where st: "st = (tab, c)" by (rule prod.exhaust)
  let ?c = "print (''Hello from init!'' @ newline) (print (''init (pid '' @ long_text (k_getpid k (fst c)) @ '') started'' @ newline) c)"
  obtain st1 where 1: "run_hello2 k (tab, ?c) = Some st1" "table_fine (fst st1)"
    using fine_returns(3) [of "(tab, ?c)" k] f st by auto
  obtain st2 where 2: "run_tests k tests_base st1 = Some st2" "table_fine (fst st2)"
    using run_tests_returns [OF 1(2)] by blast
  obtain st3 where 3: "run_tests k tests_syscalls (fst st2, mq_fixture k (snd st2)) = Some st3" "table_fine (fst st3)"
    using run_tests_returns [of "(fst st2, mq_fixture k (snd st2))" k tests_syscalls] 2(2) by auto
  obtain st4 where "run_tests k tests_libc st3 = Some st4" using run_tests_returns [OF 3(2)] by blast
  then have "main_tests k st = Some st4" using 1 2 3 st by (simp add: main_tests_def Let_def)
  then show ?thesis by blast
qed

text \<open>C15. Process 1 gets through its whole start-up sequence and through any number of rounds of its final loop, whatever
  the kernel answers: reaping always comes to an end, because every supervised exit uses up one of the lives of a
  service.\<close>

theorem init_never_stuck: "\<exists>st'. init_main k n w = Some st'"
proof -
  obtain st1 where 1: "main_tests k (zero_table, w, []) = Some st1" 
    using main_tests_returns [of "(zero_table, w, [])" k] table_fine_zero by auto
  obtain st2 where 2: "main_services k st1 = Some st2" "table_fine (fst st2)" using main_services_returns by blast
  obtain st3 where "main_rounds k n st2 = Some st3" using main_rounds_returns [OF 2(2)] by blast
  with 1 2 have "init_main k n w = Some st3" by (simp add: init_main_def)
  then show ?thesis by blast
qed


end
