(* ===== verification/Calendar.thy ===== *)
theory Calendar
  imports Prelude
begin

text \<open>
  Calendar conversion: the first part of \<open>lib/moqi_libc/src/timeconv.c\<close>. Times are integers (a
  \<open>time_t\<close> where a statement says so), a broken-down time is the record \<open>tm\<close> with the fields of
  the struct; the zone is a string value or \<open>None\<close> for a null pointer. A call returns whether it gave a
  result, the struct afterwards and the errno value it sets, if any. The 64-bit intermediates of the day
  arithmetic stay far inside their type for the arguments the callers pass and are plain integers; the
  places where the code tests for overflow are tests here.
\<close>

section \<open>Days and dates\<close>

record tm =
  tm_sec :: int
  tm_min :: int
  tm_hour :: int
  tm_mday :: int
  tm_mon :: int
  tm_year :: int
  tm_wday :: int
  tm_yday :: int
  tm_isdst :: int
  tm_gmtoff :: int
  tm_zone :: "string option"

abbreviation SECS_PER_DAY :: int where "SECS_PER_DAY \<equiv> 86400"
abbreviation EOVERFLOW :: int where "EOVERFLOW \<equiv> 75"

definition days_from_civil :: "int \<Rightarrow> int \<Rightarrow> int \<Rightarrow> int" where
  "days_from_civil y0 m d =
     (let y = y0 - (if m \<le> 2 then 1 else 0);
          era = (if y \<ge> 0 then y else y - 399) sdiv 400;
          yoe = y - era * 400;
          doy = (153 * (m + (if m > 2 then -3 else 9)) + 2) sdiv 5 + d - 1;
          doe = yoe * 365 + yoe sdiv 4 - yoe sdiv 100 + doy
      in era * 146097 + doe - 719468)"

definition civil_from_days :: "int \<Rightarrow> int \<times> int \<times> int" where
  "civil_from_days z0 =
     (let z = z0 + 719468;
          era = (if z \<ge> 0 then z else z - 146096) sdiv 146097;
          doe = z - era * 146097;
          yoe = (doe - doe sdiv 1460 + doe sdiv 36524 - doe sdiv 146096) sdiv 365;
          yy = yoe + era * 400;
          doy = doe - (365 * yoe + yoe sdiv 4 - yoe sdiv 100);
          mp = (5 * doy + 2) sdiv 153;
          d = to_i32 (doy - (153 * mp + 2) sdiv 5 + 1);
          m = to_i32 (if mp < 10 then mp + 3 else mp - 9)
      in (yy + (if m \<le> 2 then 1 else 0), m, d))"

definition floor_div :: "int \<Rightarrow> int \<Rightarrow> int" where
  "floor_div a b =
     (let q = a sdiv b in if a smod b \<noteq> 0 \<and> (a < 0) \<noteq> (b < 0) then q - 1 else q)"

definition floor_mod :: "int \<Rightarrow> int \<Rightarrow> int" where
  "floor_mod a b = a - floor_div a b * b"

definition break_down :: "int \<Rightarrow> tm \<Rightarrow> string \<Rightarrow> bool \<times> tm" where
  "break_down t out zone =
     (let days = floor_div t SECS_PER_DAY;
          rem = t - days * SECS_PER_DAY;
          (y, m, d) = civil_from_days days;
          out1 = out\<lparr>tm_isdst := 0, tm_gmtoff := 0, tm_zone := Some zone,
                     tm_hour := to_i32 (rem sdiv 3600), tm_min := to_i32 (rem smod 3600 sdiv 60),
                     tm_sec := to_i32 (rem smod 60), tm_wday := to_i32 (floor_mod (days + 4) 7),
                     tm_year := to_i32 (y - 1900)\<rparr>
      in if y - 1900 > 2147483647 \<or> y - 1900 < -2147483648 then (False, out1)
         else (True, out1\<lparr>tm_yday := to_i32 (days - days_from_civil y 1 1), tm_mon := m - 1, tm_mday := d\<rparr>))"

section \<open>From seconds\<close>

definition gmtime_r :: "int \<Rightarrow> tm \<Rightarrow> bool \<times> tm \<times> int option" where
  "gmtime_r t out =
     (let (ok, out') = break_down t out ''GMT'' in (ok, out', if ok then None else Some EOVERFLOW))"

definition gmtime :: "int \<Rightarrow> tm \<Rightarrow> bool \<times> tm \<times> int option" where
  "gmtime t static_tm = gmtime_r t static_tm"

definition localtime_r :: "int \<Rightarrow> tm \<Rightarrow> bool \<times> tm \<times> int option" where
  "localtime_r t out =
     (let (ok, out') = break_down t out ''UTC'' in (ok, out', if ok then None else Some EOVERFLOW))"

definition localtime :: "int \<Rightarrow> tm \<Rightarrow> bool \<times> tm \<times> int option" where
  "localtime t static_tm = localtime_r t static_tm"

section \<open>To seconds\<close>

text \<open>\<open>normalised\<close> and \<open>probe\<close> are locals that start with no particular contents.\<close>

definition tm_any :: tm where
  "tm_any = \<lparr>tm_sec = 0, tm_min = 0, tm_hour = 0, tm_mday = 0, tm_mon = 0, tm_year = 0, tm_wday = 0, tm_yday = 0,
     tm_isdst = 0, tm_gmtoff = 0, tm_zone = None\<rparr>"

definition to_seconds_hm :: "tm \<Rightarrow> int option" where
  "to_seconds_hm t =
     (let year = (tm_year t + 1900) + floor_div (tm_mon t) 12;
          mon = floor_mod (tm_mon t) 12;
          days = days_from_civil year (to_i32 mon + 1) 1;
          total_days = days + (tm_mday t - 1);
          result = total_days * SECS_PER_DAY
      in if \<not> in_i64 result then None
         else let hm = tm_hour t * 3600 + tm_min t * 60 in
           if \<not> in_i64 (result + hm) then None
           else if \<not> fst (break_down (result + hm) tm_any ''GMT'') then None
           else Some (result + hm))"

definition to_seconds :: "tm \<Rightarrow> int option" where
  "to_seconds t =
     (case to_seconds_hm t of
        None \<Rightarrow> None
      | Some result \<Rightarrow> if \<not> in_i64 (result + tm_sec t) then None else Some (result + tm_sec t))"

definition timegm :: "tm \<Rightarrow> int \<times> tm \<times> int option" where
  "timegm t =
     (case to_seconds t of
        None \<Rightarrow> (-1, t\<lparr>tm_isdst := 0\<rparr>, Some EOVERFLOW)
      | Some secs \<Rightarrow>
          (let (ok, normalised) = break_down secs tm_any ''GMT'' in
           if \<not> ok then (-1, t\<lparr>tm_isdst := 0\<rparr>, Some EOVERFLOW) else (secs, normalised, None)))"

definition to_epoch :: "tm \<Rightarrow> int option" where
  "to_epoch t =
     (case to_seconds_hm t of
        None \<Rightarrow> None
      | Some secs0 \<Rightarrow>
          (let dst = tm_isdst t > 0; secs1 = (if dst then secs0 - 3600 else secs0) in
           if dst \<and> (\<not> in_i64 secs1 \<or> \<not> fst (break_down secs1 tm_any ''UTC'')) then None
           else let secs = secs1 + tm_sec t in
             if \<not> in_i64 secs then None
             else if \<not> fst (break_down secs tm_any ''UTC'') then None
             else Some secs))"

definition mktime :: "tm \<Rightarrow> int \<times> tm \<times> int option" where
  "mktime t =
     (case to_epoch t of
        None \<Rightarrow> (-1, t, Some EOVERFLOW)
      | Some secs \<Rightarrow>
          (let (ok, normalised) = break_down secs tm_any ''UTC'' in
           if \<not> ok then (-1, t, Some EOVERFLOW) else (secs, normalised, None)))"

section \<open>Truncating and flooring division\<close>

lemma sdiv_nonneg: "0 \<le> a \<Longrightarrow> 0 < b \<Longrightarrow> a sdiv b = a div (b::int)"
  by (cases "a = 0") (simp_all add: signed_divide_int_def sgn_if)

lemma smod_nonneg: "0 \<le> a \<Longrightarrow> 0 < b \<Longrightarrow> a smod b = a mod (b::int)"
  by (cases "a = 0") (simp_all add: signed_modulo_int_def sgn_if)

lemma div_eqI: "0 < k \<Longrightarrow> k * v \<le> x \<Longrightarrow> x < k * v + k \<Longrightarrow> x div k = (v::int)"
  by (rule int_div_pos_eq [where r = "x - k * v"]) auto

lemma div_bounds: "0 < k \<Longrightarrow> k * (x div k) \<le> x" "0 < k \<Longrightarrow> x < k * (x div k) + (k::int)"
proof -
  assume "0 < k"
  then have "0 \<le> x mod k" "x mod k < k" "x = k * (x div k) + x mod k" by simp_all
  then show "k * (x div k) \<le> x" "x < k * (x div k) + k" by linarith+
qed

lemma sdiv_floor:
  assumes "0 < (k::int)" "j = k - 1"
  shows "(if y \<ge> 0 then y else y - j) sdiv k = y div k"
proof (cases "0 \<le> y")
  case False
  have r: "0 \<le> y mod k" "y mod k < k" "k * (y div k) + y mod k = y" using assms(1) by simp_all
  have "(k - 1 - y) div k = - (y div k)"
    by (rule div_eqI [OF assms(1)], unfold mult_minus_right) (use r in linarith)+
  moreover have "(y - j) sdiv k = - ((k - 1 - y) div k)"
    unfolding assms(2) using False assms(1) by (simp add: signed_divide_int_def sgn_if algebra_simps)
  ultimately show ?thesis using False by simp
qed (use assms in \<open>simp add: sdiv_nonneg\<close>)

lemma floor_div_eq [simp]: "0 < b \<Longrightarrow> floor_div a b = a div b"
proof (cases "0 \<le> a")
  case True
  then show "0 < b \<Longrightarrow> ?thesis" by (simp add: floor_div_def sdiv_nonneg Let_def)
next
  case False
  assume b: "0 < b"
  have q: "a sdiv b = - ((- a) div b)" using False b by (simp add: signed_divide_int_def sgn_if)
  have m: "a smod b = - ((- a) mod b)"
    using False b by (simp add: signed_modulo_int_def sgn_if)
  show ?thesis
    using b False unfolding floor_div_def Let_def q m by (simp add: zdiv_zminus1_eq_if zmod_zminus1_eq_if less_imp_neq [OF pos_mod_bound [OF b], THEN not_sym])
qed

lemma floor_mod_eq [simp]: "0 < b \<Longrightarrow> floor_mod a b = a mod b"
  by (simp add: floor_mod_def minus_div_mult_eq_mod)

section \<open>The proleptic Gregorian calendar\<close>

text \<open>The calendar as a rule for the next day; everything below is measured against it.\<close>

definition leap :: "int \<Rightarrow> bool" where
  "leap y \<longleftrightarrow> 4 dvd y \<and> (\<not> 100 dvd y \<or> 400 dvd y)"

definition days_in_month :: "int \<Rightarrow> int \<Rightarrow> int" where
  "days_in_month y m =
     (if m = 2 then (if leap y then 29 else 28) else if m = 4 \<or> m = 6 \<or> m = 9 \<or> m = 11 then 30 else 31)"

fun valid_date :: "int \<times> int \<times> int \<Rightarrow> bool" where
  "valid_date (y, m, d) \<longleftrightarrow> 1 \<le> m \<and> m \<le> 12 \<and> 1 \<le> d \<and> d \<le> days_in_month y m"

fun next_day :: "int \<times> int \<times> int \<Rightarrow> int \<times> int \<times> int" where
  "next_day (y, m, d) =
     (if d < days_in_month y m then (y, m, d + 1) else if m < 12 then (y, m + 1, 1) else (y + 1, 1, 1))"

text \<open>Months counted from March, and the days before each of them.\<close>

definition march_month :: "int \<Rightarrow> int" where
  "march_month m = (if m > 2 then m - 3 else m + 9)"

definition march_year :: "int \<Rightarrow> int \<Rightarrow> int" where
  "march_year y m = y - (if m \<le> 2 then 1 else 0)"

lemma div_nested:
  assumes "0 < a" "0 < b" "k = a * b"
  shows "y div a = b * (y div k) + y mod k div (a::int)"
  unfolding assms(3)
proof (rule div_eqI [OF assms(1)])
  let ?r = "y mod (a * b)"
  have y: "y = a * b * (y div (a * b)) + ?r" by simp
  have r: "?r = a * (?r div a) + ?r mod a" "0 \<le> ?r mod a" "?r mod a < a" using assms(1) by simp_all
  show "a * (b * (y div (a * b)) + ?r div a) \<le> y" "y < a * (b * (y div (a * b)) + ?r div a) + a"
    using y r by (simp_all only: distrib_left mult.assoc)
qed

lemma div_pred:
  assumes "0 < (k::int)"
  shows "y div k = (y - 1) div k + (if k dvd y then 1 else 0)"
proof -
  have r: "y = k * (y div k) + y mod k" "0 \<le> y mod k" "y mod k < k" using assms by simp_all
  show ?thesis
  proof (cases "k dvd y")
    case True
    then have "k * (y div k) = y" by simp
    then have "(y - 1) div k = y div k - 1"
      using assms by (intro div_eqI [OF assms]) (simp_all add: right_diff_distrib)
    with True show ?thesis by simp
  next
    case False
    then have "1 \<le> y mod k" using r(2) by (simp add: dvd_eq_mod_eq_0)
    with r have "(y - 1) div k = y div k" by (intro div_eqI [OF assms]) linarith+
    with False show ?thesis by simp
  qed
qed

text \<open>The leap days up to a year, from the year 0 on.\<close>

definition leap_days :: "int \<Rightarrow> int" where
  "leap_days y = y div 4 - y div 100 + y div 400"

lemma days_from_civil_floor:
  assumes "1 \<le> m" "m \<le> 12"
  shows "days_from_civil y m d =
    365 * march_year y m + leap_days (march_year y m) + (153 * march_month m + 2) div 5 + d - 719469"
proof -
  let ?y = "march_year y m"
  have era: "(if ?y \<ge> 0 then ?y else ?y - 399) sdiv 400 = ?y div 400"
    by (rule sdiv_floor) simp_all
  have yoe: "?y - ?y div 400 * 400 = ?y mod 400" by (simp add: minus_div_mult_eq_mod)
  have mm: "m + (if m > 2 then -3 else 9) = march_month m" "0 \<le> march_month m"
    using assms by (auto simp: march_month_def)
  have q: "?y div 4 = 100 * (?y div 400) + ?y mod 400 div 4" "?y div 100 = 4 * (?y div 400) + ?y mod 400 div 100"
    by (rule div_nested, simp_all)+
  have split: "?y = 400 * (?y div 400) + ?y mod 400" by simp
  have d: "?y mod 400 sdiv 4 = ?y mod 400 div 4" "?y mod 400 sdiv 100 = ?y mod 400 div 100"
    "(153 * march_month m + 2) sdiv 5 = (153 * march_month m + 2) div 5"
    using mm(2) by (simp_all add: sdiv_nonneg)
  show ?thesis
    unfolding days_from_civil_def Let_def march_year_def [symmetric] era yoe mm(1) d leap_days_def
    using q split by linarith
qed

lemma dvd_400: "400 dvd (y::int) \<Longrightarrow> 100 dvd y" by (erule dvd_trans [rotated]) simp
lemma dvd_100: "100 dvd (y::int) \<Longrightarrow> 4 dvd y" by (erule dvd_trans [rotated]) simp
lemma leap_count:
  fixes a b c a' b' c' :: int
  assumes "a = a' + (if 4 dvd y then 1 else 0)" "b = b' + (if 100 dvd y then 1 else 0)"
    "c = c' + (if 400 dvd y then 1 else 0)"
  shows "a - b + c = a' - b' + c' + (if leap y then 1 else 0)"
proof -
  have "leap y \<longleftrightarrow> 4 dvd y \<and> (100 dvd y \<longrightarrow> 400 dvd y)" by (auto simp: leap_def)
  then show ?thesis using assms dvd_400 [of y] dvd_100 [of y]
    by (cases "4 dvd y"; cases "100 dvd y"; cases "400 dvd y") (simp_all only: simp_thms if_True if_False)
qed
lemma leap_days_step: "leap_days y = leap_days (y - 1) + (if leap y then 1 else 0)"
  unfolding leap_days_def by (rule leap_count) (rule div_pred, simp)+

lemma month_cases:
  assumes "1 \<le> m" "m \<le> 12"
  obtains "m = 1" | "m = 2" | "m = 3" | "m = 4" | "m = 5" | "m = 6" | "m = 7" | "m = 8" | "m = 9" | "m = 10"
    | "m = 11" | "m = (12::int)"
proof -
  have "m = 1 \<or> m = 2 \<or> m = 3 \<or> m = 4 \<or> m = 5 \<or> m = 6 \<or> m = 7 \<or> m = 8 \<or> m = 9 \<or> m = 10 \<or> m = 11 \<or> m = 12"
    using assms by presburger
  then show ?thesis using that by blast
qed

lemma days_from_civil_next:
  assumes "valid_date (y, m, d)"
  shows "(case next_day (y, m, d) of (y', m', d') \<Rightarrow> days_from_civil y' m' d') = days_from_civil y m d + 1"
proof -
  have m: "1 \<le> m" "m \<le> 12" using assms by auto
  show ?thesis
  proof (cases "m = 2")
    case True
    with assms leap_days_step [of y] show ?thesis
      by (auto simp: days_from_civil_floor march_month_def march_year_def days_in_month_def split: if_splits)
  next
    case False
    with assms show ?thesis
      by (cases rule: month_cases [OF m])
        (auto simp: days_from_civil_floor march_month_def march_year_def days_in_month_def)
  qed
qed

lemma next_day_valid: "valid_date dt \<Longrightarrow> valid_date (next_day dt)"
proof -
  assume v: "valid_date dt"
  obtain y m d where dt: "dt = (y, m, d)" by (cases dt)
  with v have m: "1 \<le> m" "m \<le> 12" by auto
  with v dt show ?thesis by (cases rule: month_cases [OF m]) (auto simp: days_in_month_def)
qed

text \<open>The year inside its 400-year era is recovered from the day: the corrections make each leap day the
  last day of its March year.\<close>

lemma year_of_era:
  fixes c q r doy doe :: int
  assumes "0 \<le> c" "c \<le> 3" "0 \<le> q" "q \<le> 24" "0 \<le> r" "r \<le> 3" "0 \<le> doy" "doy \<le> 365"
    and last: "doy = 365 \<Longrightarrow> r = 3 \<and> (q < 24 \<or> c = 3)"
    and doe: "doe = 36524 * c + 1461 * q + 365 * r + doy"
  shows "(doe - doe div 1460 + doe div 36524 - doe div 146096) div 365 = 100 * c + 4 * q + r"
    "0 \<le> doe" "doe < 146097"
proof -
  define e where "e = (if 24 * c + q + 365 * r + doy \<ge> 1460 then 1 else (0::int))"
  define l where "l = (if doe = 146096 then 1 else (0::int))"
  have e: "0 \<le> e" "e \<le> 1" by (auto simp: e_def)
  have d1: "doe div 1460 = 25 * c + q + e"
    by (rule div_eqI) (use assms in \<open>auto simp: e_def\<close>)
  have top: "1461 * q + 365 * r + doy < 36524 \<or> (c = 3 \<and> q = 24 \<and> r = 3 \<and> doy = 365)"
  proof (cases "q = 24 \<and> r = 3 \<and> doy = 365")
    case False
    then show ?thesis using assms(3-8) by auto
  qed (use last in auto)
  have l: "l = 1 \<longleftrightarrow> (c = 3 \<and> q = 24 \<and> r = 3 \<and> doy = 365)" "l = 0 \<or> l = 1"
    using top assms(1,2) doe by (auto simp: l_def)
  have d2: "doe div 36524 = c + l"
    by (rule div_eqI) (use top l doe assms(1-8) in auto)
  show "0 \<le> doe" "doe < 146097" using top assms(1-8) doe by auto
  have d3: "doe div 146096 = l"
    using \<open>0 \<le> doe\<close> \<open>doe < 146097\<close> by (intro div_eqI) (auto simp: l_def)
  have ey: "0 \<le> doy - e" "doy - e < 365"
    using assms by (cases "doy = 365"; auto simp: e_def)+
  show "(doe - doe div 1460 + doe div 36524 - doe div 146096) div 365 = 100 * c + 4 * q + r"
    unfolding d1 d2 d3 by (rule div_eqI) (use ey doe in auto)
qed

lemma month_of_year:
  assumes "valid_date (y, m, d)" "doy = (153 * march_month m + 2) div 5 + d - 1"
  shows "0 \<le> doy" "doy \<le> 365" "(5 * doy + 2) div 153 = march_month m" "doy = 365 \<Longrightarrow> leap (march_year y m + 1)"
proof -
  have m: "1 \<le> m" "m \<le> 12" using assms by auto
  have d: "1 \<le> d" "d \<le> days_in_month y m" using assms by auto
  show "0 \<le> doy" "doy \<le> 365" "doy = 365 \<Longrightarrow> leap (march_year y m + 1)"
    using d assms(2) by (cases rule: month_cases [OF m];
      auto simp: march_month_def march_year_def days_in_month_def split: if_splits)+
  have "153 * march_month m \<le> 5 * doy + 2 \<and> 5 * doy + 2 < 153 * march_month m + 153"
    using d assms(2) by (cases rule: month_cases [OF m];
      auto simp: march_month_def days_in_month_def split: if_splits)
  then show "(5 * doy + 2) div 153 = march_month m" by (intro div_eqI) auto
qed

lemma mod_pred: "0 < k \<Longrightarrow> k dvd y + 1 \<Longrightarrow> y mod k = k - (1::int)"
proof -
  assume k: "0 < k" and d: "k dvd y + 1"
  then obtain j where "y + 1 = k * j" by (elim dvdE)
  then have "y = k * (j - 1) + (k - 1)" by (simp add: algebra_simps)
  with k show ?thesis by (metis add.commute diff_ge_0_iff_ge int_one_le_iff_zero_less less_add_same_cancel1
      mod_mult_self2 mod_pos_pos_trivial zle_diff1_eq order_refl)
qed

lemma leap_of_era:
  assumes "leap (y + 1)" "yoe = y mod 400" "c = yoe div 100" "t = yoe mod 100"
  shows "t mod 4 = 3 \<and> (t div 4 < 24 \<or> c = 3)"
proof -
  have "y mod 4 = 3" using mod_pred [of 4 y] assms(1) by (simp add: leap_def)
  moreover have "t mod 4 = y mod 4" by (simp add: assms mod_mod_cancel)
  ultimately have t4: "t mod 4 = 3" by simp
  have t: "t = y mod 100" "0 \<le> t" "t < 100" by (simp_all add: assms mod_mod_cancel)
  show ?thesis
  proof (cases "400 dvd y + 1")
    case True
    then have "yoe = 399" using mod_pred [of 400 y] assms(2) by simp
    then show ?thesis using assms(3) t4 by simp
  next
    case False
    then have n: "\<not> 100 dvd y + 1" using assms(1) by (simp add: leap_def)
    have "t \<noteq> 99"
    proof
      assume "t = 99"
      then have "(y + 1) mod 100 = 0" using t(1) mod_add_left_eq [of y 100 1] by simp
      with n show False by (simp add: dvd_eq_mod_eq_0)
    qed
    moreover have "t = 4 * (t div 4) + 3" using t4 mult_div_mod_eq [of 4 t] by simp
    ultimately show ?thesis using t t4 by linarith
  qed
qed

text \<open>The date of the day number of a date is the date.\<close>

lemma civil_from_days_from_civil:
  assumes v: "valid_date (y, m, d)"
  shows "civil_from_days (days_from_civil y m d) = (y, m, d)"
proof -
  have m: "1 \<le> m" "m \<le> 12" using v by auto
  define yy where "yy = march_year y m"
  define mp where "mp = march_month m"
  define doy where "doy = (153 * mp + 2) div 5 + d - 1"
  define yoe where "yoe = yy mod 400"
  define c where "c = yoe div 100"
  define t where "t = yoe mod 100"
  define q where "q = t div 4"
  define r where "r = t mod 4"
  define doe where "doe = 36524 * c + 1461 * q + 365 * r + doy"
  note doy = month_of_year [OF v doy_def [unfolded mp_def], folded yy_def mp_def]
  have yoe: "0 \<le> yoe" "yoe < 400" by (simp_all add: yoe_def)
  have t: "0 \<le> t" "t < 100" "yoe = 100 * c + t" "t = 4 * q + r" by (simp_all add: t_def c_def q_def r_def)
  have q: "0 \<le> c" "c \<le> 3" "0 \<le> q" "q \<le> 24" "0 \<le> r" "r \<le> 3"
    using yoe t(1,2) unfolding c_def q_def r_def by simp_all
  have "doy = 365 \<Longrightarrow> r = 3 \<and> (q < 24 \<or> c = 3)"
    using doy(4) leap_of_era [OF _ yoe_def c_def t_def] unfolding q_def r_def by blast
  note era = year_of_era [OF q doy(1,2) this doe_def]
  have y4: "yoe div 4 = 25 * c + q" using t(3,4) q(5,6) by (intro div_eqI) simp_all
  have z: "days_from_civil y m d + 719468 = 146097 * (yy div 400) + doe"
  proof -
    define e where "e = yy div 400"
    define k where "k = (153 * mp + 2) div 5"
    have "yy div 4 = 100 * e + yoe div 4" "yy div 100 = 4 * e + c"
      unfolding e_def yoe_def c_def by (rule div_nested, simp_all)+
    then have "leap_days yy = 97 * e + (25 * c + q) - c"
      unfolding leap_days_def e_def [symmetric] y4 by (simp only:)
    moreover have "yy = 400 * e + yoe" by (simp add: yoe_def e_def)
    ultimately show ?thesis
      unfolding days_from_civil_floor [OF m] yy_def [symmetric] mp_def [symmetric] doe_def doy_def y4
        e_def [symmetric] k_def [symmetric] using t(3,4) by (simp only:) (simp add: algebra_simps)
  qed
  have d1: "(146097 * (yy div 400) + doe) div 146097 = yy div 400" by (rule div_eqI) (use era(2,3) in auto)
  have sd: "(if (x::int) \<ge> 0 then x else x - 146096) sdiv 146097 = x div 146097" for x by (rule sdiv_floor) simp_all
  have pos: "0 \<le> doe - doe div 1460 + doe div 36524 - doe div 146096"
  proof -
    have "365 * yoe \<le> doe - doe div 1460 + doe div 36524 - doe div 146096"
      using div_bounds(1) [of 365 "doe - doe div 1460 + doe div 36524 - doe div 146096"] era(1) t(3,4) by simp
    then show ?thesis using yoe by linarith
  qed
  have sd2: "doe sdiv k = doe div k" "yoe sdiv k = yoe div k" if "0 < k" for k
    using era(2) yoe(1) that by (simp_all add: sdiv_nonneg)
  have yo: "(doe - doe sdiv 1460 + doe sdiv 36524 - doe sdiv 146096) sdiv 365 = yoe"
    using sdiv_nonneg [OF pos, of 365] era(1) t(3,4) by (simp only: sd2 zero_less_numeral)
  have do: "doe - (365 * yoe + yoe sdiv 4 - yoe sdiv 100) = doy"
  proof -
    have "yoe sdiv 4 = 25 * c + q" "yoe sdiv 100 = c" by (simp_all only: sd2 zero_less_numeral y4 c_def)
    with t(3,4) show ?thesis unfolding doe_def by linarith
  qed
  have mp: "(5 * doy + 2) sdiv 153 = mp" "(153 * mp + 2) sdiv 5 = (153 * mp + 2) div 5"
    using doy m by (simp_all add: sdiv_nonneg mp_def march_month_def)
  have d: "doy - (153 * mp + 2) div 5 + 1 = d" by (simp add: doy_def)
  have mon: "(if mp < 10 then mp + 3 else mp - 9) = m" using m by (auto simp: mp_def march_month_def)
  have i32: "to_i32 d = d" "to_i32 m = m" using v by (auto simp: in_i32_def days_in_month_def split: if_splits)
  have yback: "yoe + yy div 400 * 400 + (if m \<le> 2 then 1 else 0) = y"
  proof -
    have "yoe + yy div 400 * 400 = yy" by (simp add: yoe_def)
    moreover have "yy + (if m \<le> 2 then 1 else 0) = y" by (simp add: yy_def march_year_def)
    ultimately show ?thesis by (simp only:)
  qed
  have dd: "146097 * (yy div 400) + doe - yy div 400 * 146097 = doe" by simp
  show ?thesis
    unfolding civil_from_days_def Let_def z sd d1 dd yo do mp d mon i32 yback ..
qed

text \<open>Every day number is the number of a date: walk up from the start of its era.\<close>

lemma days_from_civil_surj: "\<exists>y m d. valid_date (y, m, d) \<and> days_from_civil y m d = z"
proof -
  define k where "k = (z + 719468) div 146097"
  have base: "days_from_civil (400 * k) 3 1 = 146097 * k - 719468"
    by (simp add: days_from_civil_floor march_year_def march_month_def leap_days_def)
  have le: "146097 * k - 719468 \<le> z"
    using div_bounds(1) [of 146097 "z + 719468"] by (simp add: k_def [symmetric])
  have "\<exists>dt. valid_date dt \<and> (case dt of (y, m, d) \<Rightarrow> days_from_civil y m d) = 146097 * k - 719468 + int n" for n
  proof (induction n)
    case 0
    then show ?case using base by (intro exI [of _ "(400 * k, 3, 1)"]) (simp add: days_in_month_def)
  next
    case (Suc n)
    then obtain y m d where "valid_date (y, m, d)" "days_from_civil y m d = 146097 * k - 719468 + int n" by auto
    then show ?case
      using days_from_civil_next [of y m d] next_day_valid [of "(y, m, d)"] by (intro exI [of _ "next_day (y, m, d)"]) simp
  qed
  from this [of "nat (z - (146097 * k - 719468))"] le show ?thesis by auto
qed

lemma civil_from_days_cases:
  obtains y m d where "civil_from_days z = (y, m, d)" "valid_date (y, m, d)" "days_from_civil y m d = z"
  using days_from_civil_surj [of z] civil_from_days_from_civil by metis

lemma civil_from_days_next: "civil_from_days (z + 1) = next_day (civil_from_days z)"
proof (cases z rule: civil_from_days_cases)
  case (1 y m d)
  obtain y' m' d' where n: "next_day (y, m, d) = (y', m', d')" by (cases "next_day (y, m, d)")
  have "days_from_civil y' m' d' = z + 1" using days_from_civil_next [OF 1(2)] n 1(3) by simp
  moreover have "valid_date (y', m', d')" using next_day_valid [OF 1(2)] n by simp
  ultimately show ?thesis using civil_from_days_from_civil [of y' m' d'] n 1(1) by simp
qed

text \<open>C26. The calendar: day 0 is 1 January 1970, the day after a date is the next day of the proleptic Gregorian
  calendar, and the two conversions are inverse to each other on all days and all dates of the calendar.\<close>

theorem civil_calendar:
  "civil_from_days 0 = (1970, 1, 1) \<and>
   (\<forall>z. civil_from_days (z + 1) = next_day (civil_from_days z)) \<and>
   (\<forall>z. valid_date (civil_from_days z)) \<and>
   (\<forall>z. (case civil_from_days z of (y, m, d) \<Rightarrow> days_from_civil y m d) = z) \<and>
   (\<forall>y m d. valid_date (y, m, d) \<longrightarrow> civil_from_days (days_from_civil y m d) = (y, m, d))"
proof (intro conjI allI impI)
  show "civil_from_days 0 = (1970, 1, 1)" by code_simp
  show "valid_date (civil_from_days z)" "(case civil_from_days z of (y, m, d) \<Rightarrow> days_from_civil y m d) = z" for z
    by (cases z rule: civil_from_days_cases; simp)+
qed (simp_all only: civil_from_days_next civil_from_days_from_civil)

theorem civil_calendar_witness:
  "valid_date (2024, 2, 29) \<and> civil_from_days (days_from_civil 2024 2 29) = (2024, 2, 29)"
proof -
  have "valid_date (2024, 2, 29)" by code_simp
  then show ?thesis using civil_calendar by blast
qed

section \<open>Broken-down times\<close>

text \<open>What a time breaks down to when its year fits, and whether it does.\<close>

definition year_of :: "int \<Rightarrow> int" where
  "year_of t = fst (civil_from_days (t div SECS_PER_DAY))"

definition year_fits :: "int \<Rightarrow> bool" where
  "year_fits t \<longleftrightarrow> in_i32 (year_of t - 1900)"

definition tm_of :: "int \<Rightarrow> string \<Rightarrow> tm" where
  "tm_of t zone =
     (let days = t div SECS_PER_DAY; (y, m, d) = civil_from_days days
      in \<lparr>tm_sec = t mod 60, tm_min = t mod 3600 div 60, tm_hour = t mod SECS_PER_DAY div 3600,
          tm_mday = d, tm_mon = m - 1, tm_year = y - 1900, tm_wday = (days + 4) mod 7,
          tm_yday = days - days_from_civil y 1 1, tm_isdst = 0, tm_gmtoff = 0, tm_zone = Some zone\<rparr>)"

lemma tm_of_simps [simp]:
  "tm_sec (tm_of t zone) = t mod 60" "tm_min (tm_of t zone) = t mod 3600 div 60"
  "tm_hour (tm_of t zone) = t mod SECS_PER_DAY div 3600" "tm_wday (tm_of t zone) = (t div SECS_PER_DAY + 4) mod 7"
  "tm_isdst (tm_of t zone) = 0" "tm_gmtoff (tm_of t zone) = 0" "tm_zone (tm_of t zone) = Some zone"
  by (simp_all add: tm_of_def Let_def split: prod.splits)

lemma yday_range:
  assumes "valid_date (y, m, d)"
  shows "0 \<le> days_from_civil y m d - days_from_civil y 1 1"
    "days_from_civil y m d - days_from_civil y 1 1 \<le> (if leap y then 365 else 364)"
proof -
  have m: "1 \<le> m" "m \<le> 12" using assms by auto
  show "0 \<le> days_from_civil y m d - days_from_civil y 1 1"
    "days_from_civil y m d - days_from_civil y 1 1 \<le> (if leap y then 365 else 364)"
    using assms leap_days_step [of y]
    by (cases rule: month_cases [OF m];
      auto simp: days_from_civil_floor march_month_def march_year_def days_in_month_def split: if_splits)+
qed

lemma time_parts:
  fixes t :: int
  shows "t mod SECS_PER_DAY mod 3600 = t mod 3600" "t mod SECS_PER_DAY mod 60 = t mod 60"
    "t mod 3600 mod 60 = t mod 60"
    "t = SECS_PER_DAY * (t div SECS_PER_DAY) + 3600 * (t mod SECS_PER_DAY div 3600) + 60 * (t mod 3600 div 60) + t mod 60"
proof -
  show a: "t mod SECS_PER_DAY mod 3600 = t mod 3600" "t mod SECS_PER_DAY mod 60 = t mod 60" "t mod 3600 mod 60 = t mod 60"
    by (simp_all add: mod_mod_cancel)
  define h where "h = t mod SECS_PER_DAY div 3600"
  define mi where "mi = t mod 3600 div 60"
  define s where "s = t mod 60"
  have "t = SECS_PER_DAY * (t div SECS_PER_DAY) + t mod SECS_PER_DAY" by simp
  moreover have "t mod SECS_PER_DAY = 3600 * h + t mod 3600"
    unfolding h_def a(1) [symmetric] by simp
  moreover have "t mod 3600 = 60 * mi + s" unfolding mi_def s_def a(3) [symmetric] by simp
  ultimately show "t = SECS_PER_DAY * (t div SECS_PER_DAY) + 3600 * h + 60 * mi + s" by (simp only: add.assoc)
qed

lemma part_ranges:
  fixes t :: int
  shows "0 \<le> t mod 60" "t mod 60 < 60" "0 \<le> t mod 3600 div 60" "t mod 3600 div 60 < 60"
    "0 \<le> t mod SECS_PER_DAY div 3600" "t mod SECS_PER_DAY div 3600 < 24"
proof -
  have "0 \<le> t mod 3600" "t mod 3600 < 60 * 60" "0 \<le> t mod SECS_PER_DAY" "t mod SECS_PER_DAY < 24 * 3600" by simp_all
  then show "0 \<le> t mod 60" "t mod 60 < 60" "0 \<le> t mod 3600 div 60" "t mod 3600 div 60 < 60"
    "0 \<le> t mod SECS_PER_DAY div 3600" "t mod SECS_PER_DAY div 3600 < 24"
    by (simp_all add: less_mult_imp_div_less pos_imp_zdiv_nonneg_iff)
qed

lemma in_i32_small: "0 \<le> x \<Longrightarrow> x < 1000 \<Longrightarrow> in_i32 x"
  by (simp add: in_i32_def)

lemma break_down_eq:
  "break_down t out zone =
     (if year_fits t then (True, tm_of t zone)
      else (False, out\<lparr>tm_isdst := 0, tm_gmtoff := 0, tm_zone := Some zone,
              tm_hour := t mod SECS_PER_DAY div 3600, tm_min := t mod 3600 div 60, tm_sec := t mod 60,
              tm_wday := (t div SECS_PER_DAY + 4) mod 7, tm_year := to_i32 (year_of t - 1900)\<rparr>))"
proof -
  let ?days = "t div SECS_PER_DAY"
  obtain y m d where c: "civil_from_days ?days = (y, m, d)" and v: "valid_date (y, m, d)"
    and n: "days_from_civil y m d = ?days" by (rule civil_from_days_cases)
  have yo: "year_of t = y" by (simp add: year_of_def c)
  have rem: "t - ?days * SECS_PER_DAY = t mod SECS_PER_DAY" by (simp add: minus_div_mult_eq_mod)
  have part: "(t mod SECS_PER_DAY) sdiv 3600 = t mod SECS_PER_DAY div 3600"
    "(t mod SECS_PER_DAY) smod 3600 sdiv 60 = t mod 3600 div 60" "(t mod SECS_PER_DAY) smod 60 = t mod 60"
    by (simp_all add: sdiv_nonneg smod_nonneg time_parts)
  have w: "0 \<le> (?days + 4) mod 7" "(?days + 4) mod 7 < 7" by simp_all
  have yd: "in_i32 (?days - days_from_civil y 1 1)"
    using yday_range [OF v] n by (auto simp: in_i32_def split: if_splits)
  have fit: "in_i32 (t mod SECS_PER_DAY div 3600)" "in_i32 (t mod 3600 div 60)" "in_i32 (t mod 60)" "in_i32 ((?days + 4) mod 7)"
    by (rule in_i32_small, rule part_ranges w, rule less_trans, rule part_ranges w, simp)+
  have cond: "y - 1900 > 2147483647 \<or> y - 1900 < -2147483648 \<longleftrightarrow> \<not> year_fits t"
    unfolding year_fits_def yo in_i32_def by linarith
  show ?thesis
  proof (cases "year_fits t")
    case True
    then have "to_i32 (y - 1900) = y - 1900" by (simp add: year_fits_def yo)
    then show ?thesis
      unfolding break_down_def Let_def floor_div_eq [OF zero_less_numeral] c prod.case rem part cond
      using True yd fit by (simp add: tm_of_def c Let_def)
  next
    case False
    then show ?thesis
      unfolding break_down_def Let_def floor_div_eq [OF zero_less_numeral] c prod.case rem part cond
      using fit by (simp add: yo)
  qed
qed

section \<open>The seconds of the fields\<close>

definition tm_fits :: "tm \<Rightarrow> bool" where
  "tm_fits t \<longleftrightarrow> in_i32 (tm_sec t) \<and> in_i32 (tm_min t) \<and> in_i32 (tm_hour t) \<and> in_i32 (tm_mday t) \<and>
     in_i32 (tm_mon t) \<and> in_i32 (tm_year t)"

definition field_days :: "tm \<Rightarrow> int" where
  "field_days t = days_from_civil (tm_year t + 1900 + tm_mon t div 12) (tm_mon t mod 12 + 1) 1 + (tm_mday t - 1)"

definition hm_seconds :: "tm \<Rightarrow> int" where
  "hm_seconds t = field_days t * SECS_PER_DAY + (tm_hour t * 3600 + tm_min t * 60)"

lemma leap_days_bound: "\<bar>leap_days y\<bar> \<le> \<bar>y\<bar> + 2"
proof -
  define a b c where "a = y div 4" and "b = y div 100" and "c = y div 400"
  have "4 * a \<le> y" "y < 4 * a + 4" "100 * b \<le> y" "y < 100 * b + 100" "400 * c \<le> y" "y < 400 * c + 400"
    unfolding a_def b_def c_def by (rule div_bounds, simp)+
  then show ?thesis unfolding leap_days_def a_def [symmetric] b_def [symmetric] c_def [symmetric] by linarith
qed

lemma days_from_civil_bound:
  assumes "\<bar>y\<bar> \<le> 4000000000" "1 \<le> m" "m \<le> 12"
  shows "\<bar>days_from_civil y m d - d\<bar> \<le> 1600000000000"
proof -
  have "0 \<le> (153 * march_month m + 2) div 5" "(153 * march_month m + 2) div 5 \<le> 400"
    using assms(2,3) by (auto simp: march_month_def)
  moreover have "\<bar>march_year y m\<bar> \<le> 4000000001" using assms(1) by (auto simp: march_year_def)
  moreover note leap_days_bound [of "march_year y m"]
  ultimately show ?thesis unfolding days_from_civil_floor [OF assms(2,3)] by linarith
qed

lemma month_norm: "1 \<le> m mod 12 + 1" "m mod 12 + 1 \<le> (12::int)"
proof -
  have "0 \<le> m mod 12" "m mod 12 < 12" by simp_all
  then show "1 \<le> m mod 12 + 1" "m mod 12 + 1 \<le> 12" by linarith+
qed

lemma field_days_bound:
  assumes "tm_fits t"
  shows "\<bar>field_days t\<bar> \<le> 1700000000000"
proof -
  define q where "q = tm_mon t div 12"
  have "12 * q \<le> tm_mon t" "tm_mon t < 12 * q + 12" unfolding q_def by (rule div_bounds, simp)+
  then have "\<bar>tm_year t + 1900 + q\<bar> \<le> 4000000000" using assms by (auto simp: tm_fits_def in_i32_def)
  then have "\<bar>days_from_civil (tm_year t + 1900 + q) (tm_mon t mod 12 + 1) 1 - 1\<bar> \<le> 1600000000000"
    by (rule days_from_civil_bound) (rule month_norm)+
  then show ?thesis using assms unfolding field_days_def q_def [symmetric] by (auto simp: tm_fits_def in_i32_def)
qed

lemma hm_seconds_bound:
  assumes "tm_fits t"
  shows "\<bar>hm_seconds t\<bar> \<le> 200000000000000000" "in_i64 (field_days t * SECS_PER_DAY)"
  using field_days_bound [OF assms] assms unfolding hm_seconds_def tm_fits_def in_i32_def in_i64_def by linarith+

lemma to_seconds_hm_eq:
  assumes "tm_fits t"
  shows "to_seconds_hm t = (if year_fits (hm_seconds t) then Some (hm_seconds t) else None)"
proof -
  have "0 \<le> tm_mon t mod 12" "tm_mon t mod 12 < 12" by simp_all
  then have m: "to_i32 (tm_mon t mod 12) = tm_mon t mod 12" by (intro to_i32_id in_i32_small) linarith+
  have i: "in_i64 (hm_seconds t)" using hm_seconds_bound(1) [OF assms] unfolding in_i64_def by linarith
  show ?thesis
    using i hm_seconds_bound(2) [OF assms]
    unfolding to_seconds_hm_def Let_def floor_div_eq [OF zero_less_numeral] floor_mod_eq [OF zero_less_numeral] m
      field_days_def [symmetric] hm_seconds_def [symmetric]
    by (simp add: break_down_eq)
qed

lemma to_seconds_eq:
  assumes "tm_fits t"
  shows "to_seconds t = (if year_fits (hm_seconds t) then Some (hm_seconds t + tm_sec t) else None)"
proof -
  have "in_i64 (hm_seconds t + tm_sec t)"
    using hm_seconds_bound(1) [OF assms] assms unfolding in_i64_def tm_fits_def in_i32_def by linarith
  then show ?thesis by (simp add: to_seconds_def to_seconds_hm_eq [OF assms])
qed

text \<open>C30. timegm, whatever the fields hold: they are normalised exactly when both the total of date, hours and
  minutes and the final time have a year that fits; the 64-bit overflow tests never fire. A failure only clears
  the daylight saving flag.\<close>

theorem timegm_correct:
  assumes "tm_fits t"
  shows "timegm t =
    (let s = hm_seconds t + tm_sec t in
     if year_fits (hm_seconds t) \<and> year_fits s then (s, tm_of s ''GMT'', None)
     else (-1, t\<lparr>tm_isdst := 0\<rparr>, Some EOVERFLOW))"
  by (simp add: timegm_def to_seconds_eq [OF assms] break_down_eq Let_def)

text \<open>C31. mktime takes an hour off when the daylight saving flag is positive; otherwise it finds the time timegm
  finds. A failure changes nothing.\<close>

theorem mktime_correct:
  assumes "tm_fits t"
  shows "mktime t =
    (let h = hm_seconds t; h' = (if tm_isdst t > 0 then h - 3600 else h); s = h' + tm_sec t in
     if year_fits h \<and> year_fits h' \<and> year_fits s then (s, tm_of s ''UTC'', None)
     else (-1, t, Some EOVERFLOW))"
proof -
  have i: "in_i64 (hm_seconds t - 3600)" "in_i64 (hm_seconds t + tm_sec t)" "in_i64 (hm_seconds t - 3600 + tm_sec t)"
    using hm_seconds_bound(1) [OF assms] assms unfolding in_i64_def tm_fits_def in_i32_def by linarith+
  show ?thesis
    using i by (simp add: mktime_def to_epoch_def to_seconds_hm_eq [OF assms] break_down_eq Let_def)
qed

definition tm_demo :: tm where
  "tm_demo = \<lparr>tm_sec = -1, tm_min = 60, tm_hour = 12, tm_mday = 30, tm_mon = 13, tm_year = 123, tm_wday = 0, tm_yday = 0,
     tm_isdst = 1, tm_gmtoff = 0, tm_zone = None\<rparr>"

theorem timegm_correct_witness: "tm_fits tm_demo \<and> fst (timegm tm_demo) = 1709297999"
proof -
  have f: "tm_fits tm_demo" by code_simp
  have "year_fits (hm_seconds tm_demo) \<and> year_fits (hm_seconds tm_demo + tm_sec tm_demo)"
    "hm_seconds tm_demo + tm_sec tm_demo = 1709297999" by code_simp+
  then show ?thesis using timegm_correct [OF f] f by (simp add: Let_def)
qed

theorem mktime_correct_witness: "tm_fits tm_demo \<and> fst (mktime tm_demo) = 1709294399"
proof -
  have f: "tm_fits tm_demo" by code_simp
  have "hm_seconds tm_demo = 1709298000" "tm_sec tm_demo = -1" "tm_isdst tm_demo > 0"
    "year_fits 1709298000" "year_fits 1709294400" "year_fits 1709294399" by code_simp+
  then show ?thesis using mktime_correct [OF f] f by (simp add: Let_def)
qed

section \<open>There and back\<close>

lemma year_fits_minute: "year_fits (t - t mod 60) = year_fits t"
proof -
  define D h mi s where "D = t div SECS_PER_DAY" and "h = t mod SECS_PER_DAY div 3600"
    and "mi = t mod 3600 div 60" and "s = t mod 60"
  have t: "t = SECS_PER_DAY * D + 3600 * h + 60 * mi + s"
    unfolding D_def h_def mi_def s_def by (rule time_parts(4))
  have r: "0 \<le> mi" "mi < 60" "0 \<le> h" "h < 24"
    unfolding h_def mi_def by (rule part_ranges)+
  have "(t - s) div SECS_PER_DAY = D" by (rule div_eqI) (use t r in linarith)+
  then show ?thesis unfolding s_def D_def year_fits_def year_of_def by simp
qed

lemma tm_of_seconds:
  "field_days (tm_of t zone) = t div SECS_PER_DAY" "hm_seconds (tm_of t zone) = t - t mod 60"
proof -
  obtain y m d where c: "civil_from_days (t div SECS_PER_DAY) = (y, m, d)" and v: "valid_date (y, m, d)"
    and n: "days_from_civil y m d = t div SECS_PER_DAY" by (rule civil_from_days_cases)
  have m: "1 \<le> m" "m \<le> 12" using v by auto
  then have "(m - 1) div 12 = 0" "(m - 1) mod 12 + 1 = m" by simp_all
  moreover have "days_from_civil y m 1 + (d - 1) = days_from_civil y m d"
    unfolding days_from_civil_floor [OF m] by simp
  ultimately show f: "field_days (tm_of t zone) = t div SECS_PER_DAY"
    using n by (simp add: field_days_def tm_of_def c Let_def)
  define D h mi s where "D = t div SECS_PER_DAY" and "h = t mod SECS_PER_DAY div 3600"
    and "mi = t mod 3600 div 60" and "s = t mod 60"
  have t: "t = SECS_PER_DAY * D + 3600 * h + 60 * mi + s"
    unfolding D_def h_def mi_def s_def by (rule time_parts(4))
  have hm: "tm_hour (tm_of t zone) = h" "tm_min (tm_of t zone) = mi"
    by (simp_all add: h_def mi_def)
  show "hm_seconds (tm_of t zone) = t - t mod 60"
    unfolding hm_seconds_def f hm D_def [symmetric] s_def [symmetric] using t by linarith
qed

lemma tm_of_ranges:
  assumes "year_fits t" and u_def: "u = tm_of t zone"
  shows "0 \<le> tm_sec u \<and> tm_sec u < 60" "0 \<le> tm_min u \<and> tm_min u < 60" "0 \<le> tm_hour u \<and> tm_hour u < 24"
    "valid_date (tm_year u + 1900, tm_mon u + 1, tm_mday u)" "0 \<le> tm_wday u \<and> tm_wday u < 7"
    "0 \<le> tm_yday u \<and> tm_yday u < (if leap (tm_year u + 1900) then 366 else 365)" "tm_fits u"
proof -
  obtain y m d where c: "civil_from_days (t div SECS_PER_DAY) = (y, m, d)" and v: "valid_date (y, m, d)"
    and n: "days_from_civil y m d = t div SECS_PER_DAY" by (rule civil_from_days_cases)
  have u: "tm_sec u = t mod 60" "tm_min u = t mod 3600 div 60" "tm_hour u = t mod SECS_PER_DAY div 3600" "tm_mday u = d"
    "tm_mon u = m - 1" "tm_year u = y - 1900" "tm_wday u = (t div SECS_PER_DAY + 4) mod 7"
    "tm_yday u = t div SECS_PER_DAY - days_from_civil y 1 1" by (simp_all add: u_def tm_of_def c Let_def)
  show r: "0 \<le> tm_sec u \<and> tm_sec u < 60" "0 \<le> tm_min u \<and> tm_min u < 60" "0 \<le> tm_hour u \<and> tm_hour u < 24"
    unfolding u using part_ranges [of t] by blast+
  show "valid_date (tm_year u + 1900, tm_mon u + 1, tm_mday u)" using v u by simp
  show "0 \<le> tm_wday u \<and> tm_wday u < 7" unfolding u by simp
  show "0 \<le> tm_yday u \<and> tm_yday u < (if leap (tm_year u + 1900) then 366 else 365)"
  proof -
    have "tm_yday u = days_from_civil y m d - days_from_civil y 1 1" using u(8) n by simp
    then show ?thesis using yday_range [OF v] by (simp add: u(6) split: if_splits)
  qed
  have "1 \<le> d" "d \<le> 31" "1 \<le> m" "m \<le> 12" using v by (auto simp: days_in_month_def split: if_splits)
  moreover have "in_i32 (y - 1900)" using assms(1) by (simp add: year_fits_def year_of_def c)
  ultimately show "tm_fits u"
    unfolding tm_fits_def u(4-6) using r by (intro conjI) (auto intro!: in_i32_small simp del: u)
qed

text \<open>C27. gmtime_r on every time: it fails, with EOVERFLOW, exactly when the year does not fit an int; otherwise every
  field is in its range, the date is a date of the calendar, and timegm of the result gives the time back and
  leaves the struct as it is.\<close>

theorem gmtime_roundtrip:
  "case gmtime_r t out of (ok, u, e) \<Rightarrow>
     ok = year_fits t \<and> (if ok then e = None else e = Some EOVERFLOW) \<and>
     (if ok then 0 \<le> tm_sec u \<and> tm_sec u < 60 \<and> 0 \<le> tm_min u \<and> tm_min u < 60 \<and> 0 \<le> tm_hour u \<and> tm_hour u < 24 \<and>
        valid_date (tm_year u + 1900, tm_mon u + 1, tm_mday u) \<and> 0 \<le> tm_wday u \<and> tm_wday u < 7 \<and>
        0 \<le> tm_yday u \<and> tm_yday u < (if leap (tm_year u + 1900) then 366 else 365) \<and>
        tm_isdst u = 0 \<and> tm_zone u = Some ''GMT'' \<and>
        timegm u = (t, u, None)
      else True)"
proof (cases "year_fits t")
  case True
  let ?u = "tm_of t ''GMT''"
  note r = tm_of_ranges [OF True refl, of "''GMT''"]
  have "timegm ?u = (t, ?u, None)"
    unfolding timegm_def to_seconds_eq [OF r(7)] tm_of_seconds year_fits_minute
    using True by (simp add: break_down_eq)
  with r True show ?thesis by (simp add: gmtime_r_def break_down_eq)
next
  case False
  then show ?thesis by (simp add: gmtime_r_def break_down_eq)
qed

end
