(* ===== verification/Strftime.thy ===== *)
theory Strftime
  imports Calendar
begin

text \<open>
  The formatting part of \<open>lib/moqi_libc/src/timeconv.c\<close>: strftime, asctime and ctime. The output cursor is
  the text written so far and the size of the buffer; a write that does not fit leaves it as it is and fails.
  Each routine returns whether it succeeded with the cursor it leaves. A format is the characters before its
  terminator. The formatter of the composite conversions is an argument of \<open>convert\<close>; \<open>format\<close>
  ties the knot, to a depth that is enough because no composite expands to another. Plain \<open>int\<close>
  arithmetic on the fields wraps.
\<close>

section \<open>Output\<close>

record sink =
  sk_out :: string
  sk_max :: nat

definition room :: "sink \<Rightarrow> nat \<Rightarrow> bool" where
  "room o' n \<longleftrightarrow> n < sk_max o' - length (sk_out o')"

definition put :: "sink \<Rightarrow> string \<Rightarrow> bool \<times> sink" where
  "put o' s = (if \<not> room o' (length s) then (False, o') else (True, o'\<lparr>sk_out := sk_out o' @ s\<rparr>))"

definition put_fill :: "sink \<Rightarrow> nat \<Rightarrow> char \<Rightarrow> bool \<times> sink" where
  "put_fill o' n c = (if \<not> room o' n then (False, o') else (True, o'\<lparr>sk_out := sk_out o' @ replicate n c\<rparr>))"

definition up :: "char \<Rightarrow> char" where
  "up c = (if ub c \<ge> 97 \<and> ub c \<le> 122 then char_of (ub c - 97 + 65) else c)"

definition low :: "char \<Rightarrow> char" where
  "low c = (if ub c \<ge> 65 \<and> ub c \<le> 90 then char_of (ub c - 65 + 97) else c)"

record spec =
  sp_pad :: char
  sp_upper :: bool
  sp_swap :: bool
  sp_width :: nat
  sp_has_width :: bool

text \<open>\<open>if (!first) return 0;\<close> and go on.\<close>

definition and_then :: "bool \<times> sink \<Rightarrow> (sink \<Rightarrow> bool \<times> sink) \<Rightarrow> bool \<times> sink" where
  "and_then r f = (if fst r then f (snd r) else r)"

definition put_text :: "sink \<Rightarrow> string \<Rightarrow> spec \<Rightarrow> bool \<Rightarrow> bool \<Rightarrow> bool \<times> sink" where
  "put_text o' s sp force_upper force_lower =
     and_then
       (if sp_has_width sp \<and> sp_width sp > length s
        then put_fill o' (sp_width sp - length s) (if sp_pad sp = CHR ''0'' then CHR ''0'' else CHR '' '') else (True, o'))
       (\<lambda>o'. put o' (map (\<lambda>c. if force_lower then low c else if force_upper then up c else c) s))"

definition put_number :: "sink \<Rightarrow> int \<Rightarrow> nat \<Rightarrow> char \<Rightarrow> spec \<Rightarrow> bool \<times> sink" where
  "put_number o' value digits dflt sp =
     (let neg = value < 0;
          mag = (if neg then to_u64 (0 - to_u64 value) else to_u64 value);
          buf = dec_text (nat mag);
          pad = (if sp_pad sp \<noteq> NUL then sp_pad sp else dflt);
          text = length buf + (if neg then 1 else 0);
          target0 = (if sp_has_width sp \<and> sp_width sp > digits then sp_width sp else digits);
          target = (if pad = CHR ''-'' then (if sp_has_width sp then sp_width sp else 0) else target0);
          fill = (if target > text then target - text else 0);
          sign = (\<lambda>o'. if neg then put o' ''-'' else (True, o'))
      in and_then
           (if pad = CHR ''0'' then and_then (sign o') (\<lambda>o'. put_fill o' fill (CHR ''0''))
            else and_then (put_fill o' fill (CHR '' '')) sign)
           (\<lambda>o'. put o' buf))"

definition day_long :: "string list" where
  "day_long = [''Sunday'', ''Monday'', ''Tuesday'', ''Wednesday'', ''Thursday'', ''Friday'', ''Saturday'']"

definition month_long :: "string list" where
  "month_long = [''January'', ''February'', ''March'', ''April'', ''May'', ''June'', ''July'', ''August'',
     ''September'', ''October'', ''November'', ''December'']"

section \<open>Numbers of the calendar\<close>

definition wrap_add :: "int \<Rightarrow> int \<Rightarrow> int" where "wrap_add a b = to_i32 (to_u32 (to_u32 a + to_u32 b))"
definition wrap_sub :: "int \<Rightarrow> int \<Rightarrow> int" where "wrap_sub a b = to_i32 (to_u32 (to_u32 a - to_u32 b))"

definition cal_year :: "tm \<Rightarrow> int" where "cal_year t = wrap_add (tm_year t) 1900"

definition leap_year :: "int \<Rightarrow> bool" where
  "leap_year y \<longleftrightarrow> y smod 4 = 0 \<and> (y smod 100 \<noteq> 0 \<or> y smod 400 = 0)"

definition iso_week_days :: "int \<Rightarrow> int \<Rightarrow> int" where
  "iso_week_days yday wday =
     to_i32 (to_i32 (yday - to_i32 (to_i32 (to_i32 (yday - wday) + 4) + (366 sdiv 7 + 2) * 7) smod 7) + 3)"

definition year_days :: "int \<Rightarrow> int" where
  "year_days y = 365 + (if leap_year y then 1 else 0)"

definition iso_week :: "tm \<Rightarrow> int \<times> int" where
  "iso_week t =
     (let y = cal_year t; days = iso_week_days (tm_yday t) (tm_wday t);
          (y', days') =
            (if days < 0
             then let y1 = wrap_sub y 1 in (y1, iso_week_days (to_i32 (tm_yday t + year_days y1)) (tm_wday t))
             else let d = iso_week_days (to_i32 (tm_yday t - year_days y)) (tm_wday t)
                  in if d \<ge> 0 then (wrap_add y 1, d) else (y, days))
      in (y', days' sdiv 7 + 1))"

definition floor_div_int :: "int \<Rightarrow> int \<Rightarrow> int" where
  "floor_div_int a b = (let q = a sdiv b in if a smod b \<noteq> 0 \<and> (a < 0) \<noteq> (b < 0) then q - 1 else q)"

section \<open>Conversions\<close>

text \<open>A composite is formatted into a buffer of 64 bytes, then written like a text.\<close>

definition put_composite ::
    "(sink \<Rightarrow> string \<Rightarrow> bool \<times> sink) \<Rightarrow> sink \<Rightarrow> string \<Rightarrow> spec \<Rightarrow> bool \<Rightarrow> bool \<times> sink" where
  "put_composite fmt o' sub sp force_upper =
     (let (ok, t) = fmt \<lparr>sk_out = [], sk_max = 64\<rparr> sub in
      if \<not> ok then (False, o') else put_text o' (sk_out t) sp force_upper False)"

definition put_zone_offset :: "sink \<Rightarrow> spec \<Rightarrow> tm \<Rightarrow> bool \<times> sink" where
  "put_zone_offset o' sp t =
     (if tm_isdst t < 0 then (True, o')
      else let off = tm_gmtoff t; neg = off < 0;
        mag = (if neg then to_u64 (0 - to_u64 off) else to_u64 off);
        hhmm = (mag div 3600) * 100 + (mag mod 3600) div 60;
        w = (if sp_has_width sp then sp_width sp else 0);
        pad = (if sp_pad sp \<noteq> NUL then sp_pad sp else CHR ''0'');
        digit_cols = (if pad = CHR ''-'' then w else if w > 4 then w else 4);
        buf = dec_text (nat hhmm)
      in and_then (if w > 1 then put_fill o' (w - 1) (if sp_pad sp = CHR ''0'' then CHR ''0'' else CHR '' '') else (True, o'))
        (\<lambda>o'. and_then (put o' (if neg then ''-'' else ''+''))
        (\<lambda>o'. and_then (if digit_cols > length buf
                then put_fill o' (digit_cols - length buf) (if pad = CHR ''0'' then CHR ''0'' else CHR '' '') else (True, o'))
        (\<lambda>o'. put o' buf))))"

definition epoch_text :: "tm \<Rightarrow> string" where
  "epoch_text t =
     (let secs = (case to_epoch t of Some s \<Rightarrow> s | None \<Rightarrow> -1); neg = secs < 0;
          mag = (if neg then to_u64 (0 - to_u64 secs) else to_u64 secs)
      in (if neg then ''-'' else []) @ dec_text (nat mag))"

definition put_zone_name :: "sink \<Rightarrow> spec \<Rightarrow> tm \<Rightarrow> bool \<times> sink" where
  "put_zone_name o' sp t =
     (case tm_zone t of
        Some (c # z) \<Rightarrow> put_text o' (c # z) sp (sp_upper sp) (sp_swap sp)
      | _ \<Rightarrow> if tm_isdst t < 0 then put_text o' [] sp False False
             else put_text o' (if tm_isdst t > 1 then ''?'' else ''UTC'') sp (sp_upper sp) (sp_swap sp))"

definition hour12 :: "tm \<Rightarrow> int" where
  "hour12 t = (if tm_hour t > 12 then tm_hour t - 12 else if tm_hour t = 0 then 12 else tm_hour t)"

definition ret :: "bool \<times> sink \<Rightarrow> int \<times> sink" where
  "ret r = (if fst r then 1 else 0, snd r)"

definition convert :: "(sink \<Rightarrow> string \<Rightarrow> bool \<times> sink) \<Rightarrow> sink \<Rightarrow> char \<Rightarrow> spec \<Rightarrow> tm \<Rightarrow> int \<times> sink" where
  "convert fmt o' c sp t =
     (let num = (\<lambda>v digits dflt. ret (put_number o' v digits dflt sp));
          comp = (\<lambda>sub force. ret (put_composite fmt o' sub sp force)) in
      if c = CHR ''%'' then ret (put_text o' [CHR ''%''] sp False False)
      else if c = CHR ''n'' then ret (put_text o' [CHR 0x0A] sp False False)
      else if c = CHR ''t'' then ret (put_text o' [CHR 0x09] sp False False)
      else if c = CHR ''a'' \<or> c = CHR ''A'' then
        (let name = (if tm_wday t \<ge> 0 \<and> tm_wday t \<le> 6
           then (if c = CHR ''a'' then take 3 (day_long ! nat (tm_wday t)) else day_long ! nat (tm_wday t)) else ''?'')
         in ret (put_text o' name sp (sp_upper sp \<or> sp_swap sp) False))
      else if c = CHR ''b'' \<or> c = CHR ''B'' \<or> c = CHR ''h'' then
        (let name = (if tm_mon t \<ge> 0 \<and> tm_mon t \<le> 11
           then (if c = CHR ''B'' then month_long ! nat (tm_mon t) else take 3 (month_long ! nat (tm_mon t))) else ''?'')
         in ret (put_text o' name sp (sp_upper sp \<or> sp_swap sp) False))
      else if c = CHR ''p'' \<or> c = CHR ''P'' then
        ret (put_text o' (if tm_hour t > 11 then ''PM'' else ''AM'') sp False (c = CHR ''P'' \<or> sp_swap sp))
      else if c = CHR ''c'' then comp ''%a %b %e %H:%M:%S %Y'' (sp_upper sp)
      else if c = CHR ''x'' \<or> c = CHR ''D'' then comp ''%m/%d/%y'' False
      else if c = CHR ''X'' \<or> c = CHR ''T'' then comp ''%H:%M:%S'' False
      else if c = CHR ''r'' then comp ''%I:%M:%S %p'' False
      else if c = CHR ''R'' then comp ''%H:%M'' False
      else if c = CHR ''F'' then comp ''%Y-%m-%d'' False
      else if c = CHR ''C'' then num (floor_div_int (cal_year t) 100) 1 (CHR ''0'')
      else if c = CHR ''d'' then num (tm_mday t) 2 (CHR ''0'')
      else if c = CHR ''e'' then num (tm_mday t) 2 (CHR ''_'')
      else if c = CHR ''H'' then num (tm_hour t) 2 (CHR ''0'')
      else if c = CHR ''k'' then num (tm_hour t) 2 (CHR ''_'')
      else if c = CHR ''I'' \<or> c = CHR ''l'' then num (hour12 t) 2 (if c = CHR ''I'' then CHR ''0'' else CHR ''_'')
      else if c = CHR ''j'' then num (tm_yday t + 1) 3 (CHR ''0'')
      else if c = CHR ''m'' then num (tm_mon t + 1) 2 (CHR ''0'')
      else if c = CHR ''M'' then num (tm_min t) 2 (CHR ''0'')
      else if c = CHR ''S'' then num (tm_sec t) 2 (CHR ''0'')
      else if c = CHR ''u'' then num ((to_i32 (tm_wday t + 6) smod 7 + 7) smod 7 + 1) 1 (CHR ''0'')
      else if c = CHR ''w'' then num (tm_wday t) 1 (CHR ''0'')
      else if c = CHR ''U'' then num (to_i32 (to_i32 (tm_yday t - tm_wday t) + 7) sdiv 7) 2 (CHR ''0'')
      else if c = CHR ''W'' then
        num (to_i32 (to_i32 (tm_yday t - to_i32 (to_i32 (tm_wday t - 1) + 7) smod 7) + 7) sdiv 7) 2 (CHR ''0'')
      else if c = CHR ''V'' then num (snd (iso_week t)) 2 (CHR ''0'')
      else if c = CHR ''G'' then num (fst (iso_week t)) 1 (CHR ''0'')
      else if c = CHR ''g'' then num ((fst (iso_week t) smod 100 + 100) smod 100) 2 (CHR ''0'')
      else if c = CHR ''y'' then num ((tm_year t smod 100 + 100) smod 100) 2 (CHR ''0'')
      else if c = CHR ''Y'' then num (cal_year t) 1 (CHR ''0'')
      else if c = CHR ''s'' then ret (put_text o' (epoch_text t) sp False False)
      else if c = CHR ''z'' then ret (put_zone_offset o' sp t)
      else if c = CHR ''Z'' then ret (put_zone_name o' sp t)
      else (-1, o'))"

definition modifier_accepts :: "char \<Rightarrow> char \<Rightarrow> bool" where
  "modifier_accepts md c =
     (c \<in> set (if md = CHR ''E'' then ''CPRTXYZcnprstuxyz%'' else ''BCGHIMPRSTUVWZbdeghjklmnprstuwyz%''))"

section \<open>The format loop\<close>

definition spec0 :: spec where
  "spec0 = \<lparr>sp_pad = NUL, sp_upper = False, sp_swap = False, sp_width = 0, sp_has_width = False\<rparr>"

fun parse_flags :: "spec \<Rightarrow> string \<Rightarrow> spec \<times> string" where
  "parse_flags sp [] = (sp, [])"
| "parse_flags sp (c # f) =
     (if c = CHR ''_'' \<or> c = CHR ''-'' \<or> c = CHR ''0'' then parse_flags (sp\<lparr>sp_pad := c\<rparr>) f
      else if c = CHR ''^'' then parse_flags (sp\<lparr>sp_upper := True\<rparr>) f
      else if c = CHR ''#'' then parse_flags (sp\<lparr>sp_swap := True\<rparr>) f
      else (sp, c # f))"

definition is_digit :: "char \<Rightarrow> bool" where
  "is_digit c \<longleftrightarrow> ub c \<ge> 48 \<and> ub c \<le> 57"

fun parse_width :: "nat \<Rightarrow> string \<Rightarrow> nat \<times> string" where
  "parse_width w [] = (w, [])"
| "parse_width w (c # f) =
     (if is_digit c
      then parse_width ((if w > 100000000 then 100000000 else w) * 10 + nat (ub c - 48)) f
      else (w, c # f))"

definition parse_spec :: "string \<Rightarrow> spec \<times> char \<times> string" where
  "parse_spec f =
     (let (sp0, f1) = parse_flags spec0 f;
          (sp, f2) = (if is_digit (char_at f1 0)
            then let (w, f2) = parse_width 0 f1 in (sp0\<lparr>sp_width := w, sp_has_width := True\<rparr>, f2) else (sp0, f1))
      in if char_at f2 0 = CHR ''E'' \<or> char_at f2 0 = CHR ''O'' then (sp, char_at f2 0, tl f2) else (sp, NUL, f2))"

lemma parse_flags_length: "length (snd (parse_flags sp f)) \<le> length f"
  by (induction sp f rule: parse_flags.induct) auto

lemma parse_width_length: "length (snd (parse_width w f)) \<le> length f"
  by (induction w f rule: parse_width.induct) auto

lemma parse_spec_length: "parse_spec f = (sp, md, f') \<Longrightarrow> length f' \<le> length f"
proof -
  assume p: "parse_spec f = (sp, md, f')"
  obtain sp0 f1 where a: "parse_flags spec0 f = (sp0, f1)" by fastforce
  obtain w f2 where b: "parse_width 0 f1 = (w, f2)" by fastforce
  have "length f1 \<le> length f" "length f2 \<le> length f1"
    using parse_flags_length [of spec0 f] parse_width_length [of 0 f1] a b by auto
  then show ?thesis using p by (auto simp: parse_spec_def a b split: if_splits)
qed

definition put_padding :: "sink \<Rightarrow> spec \<Rightarrow> nat \<Rightarrow> bool \<times> sink" where
  "put_padding o' sp n =
     (if sp_has_width sp \<and> sp_width sp > n
      then put_fill o' (sp_width sp - n) (if sp_pad sp = CHR ''0'' then CHR ''0'' else CHR '' '') else (True, o'))"

text \<open>An unknown conversion: the text from the percent sign on is copied.\<close>

definition echo_conversion :: "sink \<Rightarrow> spec \<Rightarrow> char \<Rightarrow> char \<Rightarrow> string \<Rightarrow> nat \<Rightarrow> bool \<times> sink" where
  "echo_conversion o' sp md c start n0 =
     (let n = (if c = CHR ''%'' \<and> md = NUL then 2 else n0);
          shout = sp_upper sp \<or> (sp_swap sp \<and> md = CHR ''E'' \<and> (c = CHR ''b'' \<or> c = CHR ''h''))
      in and_then (put_padding o' sp n) (\<lambda>o'. put o' (map (\<lambda>x. if shout then up x else x) (take n start))))"

function format_loop ::
    "(sink \<Rightarrow> char \<Rightarrow> spec \<Rightarrow> int \<times> sink) \<Rightarrow> sink \<Rightarrow> string \<Rightarrow> bool \<times> sink" where
  "format_loop conv o' [] = (True, o')"
| "format_loop conv o' (x # f) =
     (if x \<noteq> CHR ''%'' then
        (let (ok, o1) = put o' [x] in if \<not> ok then (False, o1) else format_loop conv o1 f)
      else let (sp, md, f3) = parse_spec f in
        if f3 = [] then
          and_then (put_padding o' sp (length (x # f))) (\<lambda>o'. put o' (x # f))
        else let c = hd f3; n = length (x # f) - length f3 + 1;
            (rc, o1) = (if md \<noteq> NUL \<and> \<not> modifier_accepts md c then (-1, o') else conv o' c sp)
          in if rc = 0 then (False, o1)
             else if rc < 0 then
               (let (ok, o2) = echo_conversion o1 sp md c (x # f) n in
                if \<not> ok then (False, o2) else format_loop conv o2 (tl f3))
             else format_loop conv o1 (tl f3))"
  by pat_completeness auto
termination
  by (relation "measure (\<lambda>(conv, o', f). length f)")
    (auto dest!: parse_spec_length [OF sym], (auto simp: neq_Nil_conv)?)

declare format_loop.simps(2) [simp del]

primrec format_depth :: "nat \<Rightarrow> tm \<Rightarrow> sink \<Rightarrow> string \<Rightarrow> bool \<times> sink" where
  "format_depth 0 t = (\<lambda>o' f. (False, o'))"
| "format_depth (Suc d) t =
     (\<lambda>o' f. format_loop (\<lambda>o' c sp. convert (format_depth d t) o' c sp t) o' f)"

definition format :: "sink \<Rightarrow> string \<Rightarrow> tm \<Rightarrow> bool \<times> sink" where
  "format o' f t = format_depth 2 t o' f"

definition strftime :: "mem \<Rightarrow> nat \<Rightarrow> nat \<Rightarrow> string \<Rightarrow> tm \<Rightarrow> nat \<times> mem" where
  "strftime m buf maxn fmt t =
     (if maxn = 0 then (0, m)
      else let (ok, o') = format \<lparr>sk_out = [], sk_max = maxn\<rparr> fmt t;
               m' = store m buf (sk_out o'); i = length (sk_out o')
           in if \<not> ok then (0, m') else (i, m'(buf + i := NUL)))"

section \<open>asctime and ctime\<close>

definition put_int :: "int \<Rightarrow> nat \<Rightarrow> nat \<Rightarrow> string" where
  "put_int value min_digits width =
     (let neg = value < 0;
          mag = (if neg then to_u32 (0 - to_u32 value) else to_u32 value);
          ds = dec_text (nat mag);
          ds' = replicate (min_digits - length ds) (CHR ''0'') @ ds;
          tmp = (if neg then ''-'' @ ds' else ds')
      in replicate (width - length tmp) (CHR '' '') @ tmp)"

definition asctime_text :: "tm \<Rightarrow> string option" where
  "asctime_text t =
     (let year = tm_year t + 1900 in
      if \<not> in_i32 year then None
      else let d = (if tm_wday t \<ge> 0 \<and> tm_wday t \<le> 6
                then [''Sun'', ''Mon'', ''Tue'', ''Wed'', ''Thu'', ''Fri'', ''Sat''] ! nat (tm_wday t) else ''???'');
            m = (if tm_mon t \<ge> 0 \<and> tm_mon t \<le> 11
                then [''Jan'', ''Feb'', ''Mar'', ''Apr'', ''May'', ''Jun'', ''Jul'', ''Aug'', ''Sep'', ''Oct'', ''Nov'', ''Dec'']
                  ! nat (tm_mon t) else ''???'')
        in Some (d @ '' '' @ m @ put_int (tm_mday t) 1 3 @ '' '' @ put_int (tm_hour t) 2 0 @ '':'' @
             put_int (tm_min t) 2 0 @ '':'' @ put_int (tm_sec t) 2 0 @ '' '' @ put_int year 1 0 @ [CHR 0x0A]))"

text \<open>The static forms return their buffer, whose text is the second component.\<close>

definition asctime :: "tm option \<Rightarrow> string \<Rightarrow> bool \<times> string \<times> int option" where
  "asctime t asctime_buf =
     (case t of
        None \<Rightarrow> (False, asctime_buf, Some 22)
      | Some t \<Rightarrow>
          (case asctime_text t of
             None \<Rightarrow> (False, asctime_buf, Some EOVERFLOW)
           | Some s \<Rightarrow> (True, s, None)))"

definition asctime_r :: "tm option \<Rightarrow> nat option \<Rightarrow> mem \<Rightarrow> bool \<times> mem \<times> int option" where
  "asctime_r t buf m =
     (case (t, buf) of
        (Some t, Some p) \<Rightarrow>
          (case asctime_text t of
             None \<Rightarrow> (False, m, Some EOVERFLOW)
           | Some s \<Rightarrow>
               if length s \<ge> 26 then (False, store m p (take 25 s @ [NUL]), Some EOVERFLOW)
               else (True, store m p (s @ [NUL]), None))
      | _ \<Rightarrow> (False, m, Some 22))"

definition ctime :: "int \<Rightarrow> tm \<Rightarrow> string \<Rightarrow> bool \<times> tm \<times> string \<times> int option" where
  "ctime t static_tm asctime_buf =
     (let (ok, g, e) = localtime t static_tm;
          (ok', buf, e') = asctime (if ok then Some g else None) asctime_buf
      in (ok', g, buf, e'))"

definition ctime_r :: "int \<Rightarrow> nat option \<Rightarrow> mem \<Rightarrow> bool \<times> mem \<times> int option" where
  "ctime_r t buf m =
     (let (ok, g, e) = localtime_r t tm_any in asctime_r (if ok then Some g else None) buf m)"

end
