(* ===== verification/Strptime.thy ===== *)
theory Strptime
  imports Strftime
begin

text \<open>
  strptime of \<open>lib/moqi_libc/src/timeconv.c\<close>. The input is a string value, positions are indexes into
  it, and the byte at or after its end is the terminator. Every step returns the next position (\<open>None\<close>
  when the call returns NULL), the struct and the pending state, both as the code leaves them at that point.
  The composite conversions parse their expansion with a parser that is an argument of \<open>parse_conv\<close>.
\<close>

section \<open>Tables\<close>

definition mon_yday_flat_tab :: "int list" where
  "mon_yday_flat_tab =
     [0,
      0, 31, 59, 90, 120, 151, 181, 212, 243, 273, 304, 334, 365,
      0, 31, 60, 91, 121, 152, 182, 213, 244, 274, 305, 335, 366]"

definition mon_yday_flat :: "int \<Rightarrow> int" where
  "mon_yday_flat index =
     (if index < -1 then 0 else if index > 25 then 2147483647 else mon_yday_flat_tab ! nat (index + 1))"

definition mon_yday_at :: "bool \<Rightarrow> int \<Rightarrow> int" where
  "mon_yday_at lp month = mon_yday_flat ((if lp then 1 else 0) * 13 + month)"

definition is_leap_year :: "int \<Rightarrow> bool" where
  "is_leap_year y \<longleftrightarrow> y smod 4 = 0 \<and> (y smod 100 \<noteq> 0 \<or> y smod 400 = 0)"

datatype decided = DECIDED_NOT | DECIDED_ALT | DECIDED_RAW

record pstate =
  have_I :: bool
  is_pm :: bool
  century :: int
  want_century :: bool
  want_era :: bool
  want_xday :: bool
  have_wday :: bool
  have_yday :: bool
  have_mon :: bool
  have_mday :: bool
  have_uweek :: bool
  have_wweek :: bool
  week_no :: int
  decided :: decided

definition is_space :: "char \<Rightarrow> bool" where
  "is_space c \<longleftrightarrow> c = CHR '' '' \<or> c = CHR 0x09 \<or> c = CHR 0x0A \<or> c = CHR 0x0B \<or> c = CHR 0x0C \<or> c = CHR 0x0D"

definition wrap_mul :: "int \<Rightarrow> int \<Rightarrow> int" where
  "wrap_mul a b = to_i32 (to_u32 (to_u32 a * to_u32 b))"

definition day_of_the_week :: "tm \<Rightarrow> tm" where
  "day_of_the_week t =
     (let corr_year = wrap_sub (wrap_add 1900 (tm_year t)) (if tm_mon t < 2 then 1 else 0);
          q = corr_year sdiv 4;
          w = -473;
          w = wrap_add w (wrap_mul 365 (wrap_sub (tm_year t) 70));
          w = wrap_add w q;
          w = wrap_sub w (q sdiv 25);
          w = wrap_add w (if q smod 25 < 0 then 1 else 0);
          w = wrap_add w ((q sdiv 25) sdiv 4);
          w = wrap_add w (mon_yday_flat (tm_mon t));
          w = wrap_add w (wrap_sub (tm_mday t) 1)
      in t\<lparr>tm_wday := (w smod 7 + 7) smod 7\<rparr>)"

definition day_of_the_year :: "tm \<Rightarrow> tm" where
  "day_of_the_year t =
     t\<lparr>tm_yday := to_i32 (mon_yday_at (is_leap_year (to_i32 (1900 + tm_year t))) (tm_mon t) + to_i32 (tm_mday t - 1))\<rparr>"

text \<open>\<open>while (mon_yday_at(leap, t_mon) <= tm->tm_yday) t_mon++;\<close> stops at the latest at the first month past
  the table, whose value is larger than any day of a year.\<close>

definition month_scan :: "bool \<Rightarrow> int \<Rightarrow> nat" where
  "month_scan lp yday = length (takeWhile (\<lambda>k. mon_yday_at lp (int k) \<le> yday) [0..<26])"

definition yday_to_mon_mday :: "tm \<Rightarrow> bool \<Rightarrow> bool \<Rightarrow> tm" where
  "yday_to_mon_mday t set_mon set_mday =
     (let lp = is_leap_year (to_i32 (1900 + tm_year t));
          t_mon = int (month_scan lp (tm_yday t));
          t1 = (if set_mon then t\<lparr>tm_mon := t_mon - 1\<rparr> else t)
      in if set_mday then t1\<lparr>tm_mday := tm_yday t1 - mon_yday_at lp (t_mon - 1) + 1\<rparr> else t1)"

section \<open>Scanning\<close>

fun match_name :: "string \<Rightarrow> nat \<Rightarrow> string \<Rightarrow> nat option" where
  "match_name buf a [] = Some a"
| "match_name buf a (b # bs) = (if low (char_at buf a) \<noteq> low b then None else match_name buf (a + 1) bs)"

definition match_abbr :: "string \<Rightarrow> nat \<Rightarrow> string \<Rightarrow> nat option" where
  "match_abbr buf a name = match_name buf a (take 3 name)"

definition skip_while :: "(char \<Rightarrow> bool) \<Rightarrow> string \<Rightarrow> nat \<Rightarrow> nat" where
  "skip_while P buf rp = rp + length (takeWhile P (drop rp buf))"

text \<open>The digit loop of \<open>NUMBER\<close>, with the count of digits still allowed.\<close>

fun number_loop :: "string \<Rightarrow> int \<Rightarrow> nat \<Rightarrow> int \<Rightarrow> nat \<Rightarrow> int \<times> nat" where
  "number_loop buf hi 0 val rp = (val, rp)"
| "number_loop buf hi (Suc n) val rp =
     (let v = val * 10 + (ub (char_at buf rp) - 48); rp' = rp + 1 in
      if n > 0 \<and> v * 10 \<le> hi \<and> is_digit (char_at buf rp') then number_loop buf hi n v rp' else (v, rp'))"

definition NUMBER :: "string \<Rightarrow> int \<Rightarrow> int \<Rightarrow> nat \<Rightarrow> nat \<Rightarrow> (int \<times> nat) option" where
  "NUMBER buf from hi n rp0 =
     (let rp = skip_while is_space buf rp0 in
      if \<not> is_digit (char_at buf rp) then None
      else let (val, rp') = number_loop buf hi n 0 rp in
        if val < from \<or> val > hi then None else Some (val, rp'))"

type_synonym parse = "nat option \<times> tm \<times> pstate"

text \<open>A number, then what the conversion does with it.\<close>

definition with_number ::
    "string \<Rightarrow> int \<Rightarrow> int \<Rightarrow> nat \<Rightarrow> nat \<Rightarrow> tm \<Rightarrow> pstate \<Rightarrow> (int \<Rightarrow> tm \<times> pstate) \<Rightarrow> parse" where
  "with_number buf from hi n rp t s f =
     (case NUMBER buf from hi n rp of None \<Rightarrow> (None, t, s) | Some (val, rp') \<Rightarrow> (Some rp', f val))"

section \<open>Names\<close>

definition further :: "nat \<Rightarrow> nat option \<Rightarrow> bool" where
  "further p longest = (case longest of None \<Rightarrow> True | Some l \<Rightarrow> p > l)"

definition try_name :: "nat option \<Rightarrow> nat \<Rightarrow> nat option \<times> int \<Rightarrow> nat option \<times> int" where
  "try_name trp cnt best =
     (case trp of Some p \<Rightarrow> if further p (fst best) then (Some p, int cnt) else best | None \<Rightarrow> best)"

text \<open>One day or month of the search: the input position, the longest match with its number, and the state.
  In the plain pass for the days the abbreviation moves the input position itself; for the months it does not.\<close>

definition name_pass ::
    "bool \<Rightarrow> string \<Rightarrow> string list \<Rightarrow> nat \<Rightarrow> nat \<times> (nat option \<times> int) \<times> decided \<Rightarrow>
     nat \<times> (nat option \<times> int) \<times> decided" where
  "name_pass days buf names cnt st =
     (let (rp, best0, dec) = st; name = names ! cnt;
          best = (if dec \<noteq> DECIDED_RAW
            then try_name (match_abbr buf rp name) cnt (try_name (match_name buf rp name) cnt best0) else best0)
      in if dec \<noteq> DECIDED_ALT then
           (case (case match_name buf rp name of Some p \<Rightarrow> if further p (fst best) then Some p else None | None \<Rightarrow> None) of
              Some p \<Rightarrow> (rp, (Some p, int cnt), DECIDED_RAW)
            | None \<Rightarrow>
                (case match_abbr buf rp name of
                   None \<Rightarrow> (rp, best, dec)
                 | Some p \<Rightarrow>
                     let rp' = (if days then p else rp); trp = (if days then rp else p)
                     in if further trp (fst best) then (rp', (Some trp, int cnt), DECIDED_RAW) else (rp', best, dec)))
         else (rp, best, dec))"

definition find_name :: "bool \<Rightarrow> string \<Rightarrow> string list \<Rightarrow> nat \<Rightarrow> decided \<Rightarrow> (nat option \<times> int) \<times> decided" where
  "find_name days buf names rp dec =
     snd (fold (name_pass days buf names) [0..<length names] (rp, (None, -1), dec))"

section \<open>Conversions\<close>

fun zone_digits :: "string \<Rightarrow> nat \<Rightarrow> nat \<Rightarrow> int \<Rightarrow> nat \<Rightarrow> nat \<times> int \<times> nat" where
  "zone_digits buf 0 n val rp = (n, val, rp)"
| "zone_digits buf (Suc k) n val rp =
     (if is_digit (char_at buf rp)
      then let val' = val * 10 + ub (char_at buf rp) - 48; rp1 = rp + 1; n' = n + 1;
               rp2 = (if char_at buf rp1 = CHR '':'' \<and> n' = 2 \<and> is_digit (char_at buf (rp1 + 1)) then rp1 + 1 else rp1)
           in zone_digits buf k n' val' rp2
      else (n, val, rp))"

definition parse_zone :: "string \<Rightarrow> nat \<Rightarrow> tm \<Rightarrow> pstate \<Rightarrow> parse" where
  "parse_zone buf rp0 t s =
     (let rp = skip_while is_space buf rp0; c = char_at buf rp in
      if c = CHR ''Z'' then (Some (rp + 1), t\<lparr>tm_gmtoff := 0\<rparr>, s)
      else if c \<noteq> CHR ''+'' \<and> c \<noteq> CHR ''-'' then (None, t, s)
      else let neg = c = CHR ''-''; (n, val, rp') = zone_digits buf 4 0 0 (rp + 1) in
        if n \<noteq> 2 \<and> n \<noteq> 4 then (None, t, s)
        else if n = 4 \<and> val smod 100 \<ge> 60 then (None, t, s)
        else let v = (if n = 2 then val * 100 else val);
                 off = (v sdiv 100) * 3600 + (v smod 100) * 60
             in (Some rp', t\<lparr>tm_gmtoff := if neg then - off else off\<rparr>, s))"

definition parse_seconds :: "string \<Rightarrow> nat \<Rightarrow> tm \<Rightarrow> pstate \<Rightarrow> parse" where
  "parse_seconds buf rp t s =
     (let ds = takeWhile is_digit (drop rp buf) in
      if ds = [] then (None, t, s)
      else let secs = foldl (\<lambda>v c. to_u64 (v * 10 + (ub c - 48))) 0 ds;
               (ok, t', _) = localtime_r (to_i64 secs) t
           in if \<not> ok then (None, t', s) else (Some (rp + length ds), t', s))"

definition parse_two_digit_year :: "string \<Rightarrow> bool \<Rightarrow> nat \<Rightarrow> tm \<Rightarrow> pstate \<Rightarrow> parse" where
  "parse_two_digit_year buf is_O rp t s =
     with_number buf 0 99 2 rp t s
       (\<lambda>val. (t\<lparr>tm_year := if val \<ge> 69 then val else val + 100\<rparr>,
               s\<lparr>want_century := \<not> is_O \<or> want_century s, want_xday := True\<rparr>))"

text \<open>The conversions themselves, after their flags, width and modifier (NUL when there is none).\<close>

definition parse_conv ::
    "(nat \<Rightarrow> string \<Rightarrow> tm \<Rightarrow> pstate \<Rightarrow> parse) \<Rightarrow> string \<Rightarrow> char \<Rightarrow> char \<Rightarrow> nat \<Rightarrow> tm \<Rightarrow> pstate \<Rightarrow> parse" where
  "parse_conv rec buf md c rp t s =
     (let num = (\<lambda>from hi n. with_number buf from hi n rp t s);
          fail = (None, t, s);
          recurse = (\<lambda>sub xday. case rec rp sub t s of
             (None, _, _) \<Rightarrow> fail
           | (Some next, t', s') \<Rightarrow> (Some next, t', if xday then s'\<lparr>want_xday := True\<rparr> else s')) in
      if c = CHR ''%'' then (if char_at buf rp \<noteq> CHR ''%'' then fail else (Some (rp + 1), t, s))
      else if c = CHR ''a'' \<or> c = CHR ''A'' then
        (case find_name True buf day_long rp (decided s) of
           ((None, _), dec) \<Rightarrow> (None, t, s\<lparr>decided := dec\<rparr>)
         | ((Some longest, cnt), dec) \<Rightarrow>
             (Some longest, t\<lparr>tm_wday := cnt\<rparr>, s\<lparr>have_wday := True, decided := dec\<rparr>))
      else if c = CHR ''b'' \<or> c = CHR ''B'' \<or> c = CHR ''h'' then
        (case find_name False buf month_long rp (decided s) of
           ((None, _), dec) \<Rightarrow> (None, t, s\<lparr>decided := dec\<rparr>)
         | ((Some longest, cnt), dec) \<Rightarrow>
             (Some longest, t\<lparr>tm_mon := cnt\<rparr>, s\<lparr>have_mon := True, want_xday := True, decided := dec\<rparr>))
      else if c = CHR ''c'' then recurse ''%a %b %e %H:%M:%S %Y'' True
      else if c = CHR ''C'' then
        (if md = CHR ''E'' \<and> decided s = DECIDED_ALT then fail
         else let s1 = (if md = CHR ''E'' then s\<lparr>decided := DECIDED_RAW\<rparr> else s)
              in with_number buf 0 99 2 rp t s1 (\<lambda>val. (t, s1\<lparr>century := val, want_xday := True\<rparr>)))
      else if c = CHR ''d'' \<or> c = CHR ''e'' then
        num 1 31 2 (\<lambda>val. (t\<lparr>tm_mday := val\<rparr>, s\<lparr>have_mday := True, want_xday := True\<rparr>))
      else if c = CHR ''F'' then recurse ''%Y-%m-%d'' True
      else if c = CHR ''x'' \<or> c = CHR ''D'' then recurse ''%m/%d/%y'' True
      else if c = CHR ''k'' \<or> c = CHR ''H'' then
        num 0 23 2 (\<lambda>val. (t\<lparr>tm_hour := val\<rparr>, s\<lparr>have_I := False\<rparr>))
      else if c = CHR ''I'' \<or> c = CHR ''l'' then
        num 1 12 2 (\<lambda>val. (t\<lparr>tm_hour := val smod 12\<rparr>, s\<lparr>have_I := True\<rparr>))
      else if c = CHR ''j'' then num 1 366 3 (\<lambda>val. (t\<lparr>tm_yday := val - 1\<rparr>, s\<lparr>have_yday := True\<rparr>))
      else if c = CHR ''m'' then
        num 1 12 2 (\<lambda>val. (t\<lparr>tm_mon := val - 1\<rparr>, s\<lparr>have_mon := True, want_xday := True\<rparr>))
      else if c = CHR ''M'' then num 0 59 2 (\<lambda>val. (t\<lparr>tm_min := val\<rparr>, s))
      else if c = CHR ''n'' \<or> c = CHR ''t'' then (Some (skip_while is_space buf rp), t, s)
      else if c = CHR ''p'' then
        (case match_name buf rp ''AM'' of
           Some rp' \<Rightarrow> (Some rp', t, s\<lparr>is_pm := False\<rparr>)
         | None \<Rightarrow>
             (case match_name buf rp ''PM'' of
                Some rp' \<Rightarrow> (Some rp', t, s\<lparr>is_pm := True\<rparr>)
              | None \<Rightarrow> fail))
      else if c = CHR ''r'' then recurse ''%I:%M:%S %p'' False
      else if c = CHR ''R'' then recurse ''%H:%M'' False
      else if c = CHR ''s'' then parse_seconds buf rp t s
      else if c = CHR ''S'' then num 0 61 2 (\<lambda>val. (t\<lparr>tm_sec := val\<rparr>, s))
      else if c = CHR ''X'' \<or> c = CHR ''T'' then recurse ''%H:%M:%S'' False
      else if c = CHR ''u'' then num 1 7 1 (\<lambda>val. (t\<lparr>tm_wday := val smod 7\<rparr>, s\<lparr>have_wday := True\<rparr>))
      else if c = CHR ''g'' then num 0 99 2 (\<lambda>val. (t, s))
      else if c = CHR ''G'' then
        (if \<not> is_digit (char_at buf rp) then fail else (Some (skip_while is_digit buf rp), t, s))
      else if c = CHR ''U'' then num 0 53 2 (\<lambda>val. (t, s\<lparr>week_no := val, have_uweek := True\<rparr>))
      else if c = CHR ''W'' then num 0 53 2 (\<lambda>val. (t, s\<lparr>week_no := val, have_wweek := True\<rparr>))
      else if c = CHR ''V'' then num 0 53 2 (\<lambda>val. (t, s))
      else if c = CHR ''w'' then num 0 6 1 (\<lambda>val. (t\<lparr>tm_wday := val\<rparr>, s\<lparr>have_wday := True\<rparr>))
      else if c = CHR ''y'' then
        (if md = CHR ''E'' \<and> decided s \<noteq> DECIDED_RAW then
           (case NUMBER buf 0 9999 4 rp of
              None \<Rightarrow> fail
            | Some (val, rp1) \<Rightarrow>
                (let t1 = t\<lparr>tm_year := val\<rparr>;
                     s1 = s\<lparr>want_era := True, want_xday := True, want_century := True\<rparr>
                 in if decided s = DECIDED_ALT then (None, t1, s1)
                    else parse_two_digit_year buf False rp1 t1 (s1\<lparr>decided := DECIDED_RAW\<rparr>)))
         else parse_two_digit_year buf (md = CHR ''O'') rp t s)
      else if c = CHR ''Y'' then
        (if md = CHR ''E'' \<and> decided s = DECIDED_ALT then fail
         else let s1 = (if md = CHR ''E'' then s\<lparr>decided := DECIDED_RAW\<rparr> else s)
              in with_number buf 0 9999 4 rp t s1
                   (\<lambda>val. (t\<lparr>tm_year := val - 1900\<rparr>, s1\<lparr>want_century := False, want_xday := True\<rparr>)))
      else if c = CHR ''Z'' then
        (Some (skip_while (\<lambda>x. \<not> is_space x) buf (skip_while is_space buf rp)), t, s)
      else if c = CHR ''z'' then parse_zone buf rp t s
      else fail)"

section \<open>The format loop\<close>

definition skip_spec :: "string \<Rightarrow> string" where
  "skip_spec f = dropWhile is_digit (dropWhile (\<lambda>c. c \<in> set ''-_0^#'') f)"

text \<open>The modifier: whether the conversion accepts it, and the state a numeric %O leaves.\<close>

definition modifier_step :: "char \<Rightarrow> char \<Rightarrow> pstate \<Rightarrow> pstate option" where
  "modifier_step md c s =
     (if c \<notin> set (if md = CHR ''E'' then ''CXYcxy'' else ''BHIMSUVWbdehmwy'') then None
      else if md = CHR ''O'' \<and> c \<noteq> CHR ''B'' \<and> c \<noteq> CHR ''b'' \<and> c \<noteq> CHR ''h'' then
        (if decided s = DECIDED_ALT then None
         else if decided s = DECIDED_NOT then Some (s\<lparr>decided := DECIDED_ALT\<rparr>) else Some s)
      else Some s)"

lemma skip_spec_length: "length (skip_spec f) \<le> length f"
  unfolding skip_spec_def by (meson length_dropWhile_le le_trans)

function parse_loop ::
    "(char \<Rightarrow> char \<Rightarrow> nat \<Rightarrow> tm \<Rightarrow> pstate \<Rightarrow> parse) \<Rightarrow> string \<Rightarrow> nat \<Rightarrow> string \<Rightarrow> tm \<Rightarrow> pstate \<Rightarrow> parse" where
  "parse_loop conv buf rp [] t s = (Some rp, t, s)"
| "parse_loop conv buf rp (x # f) t s =
     (if is_space x then parse_loop conv buf (skip_while is_space buf rp) f t s
      else if x \<noteq> CHR ''%'' then
        (if x \<noteq> char_at buf rp then (None, t, s) else parse_loop conv buf (rp + 1) f t s)
      else let g = skip_spec f; c0 = char_at g 0; g1 = tl g;
               has_mod = c0 = CHR ''E'' \<or> c0 = CHR ''O'';
               md = (if has_mod then c0 else NUL);
               c = (if has_mod then char_at g1 0 else c0);
               rest = (if has_mod then tl g1 else g1)
           in case (if has_mod then modifier_step md c s else Some s) of
                None \<Rightarrow> (None, t, s)
              | Some s1 \<Rightarrow>
                  (case conv md c rp t s1 of
                     (None, t', s') \<Rightarrow> (None, t', s')
                   | (Some rp', t', s') \<Rightarrow> parse_loop conv buf rp' rest t' s'))"
  by pat_completeness auto
termination
proof (relation "measure (\<lambda>(conv, buf, rp, f, t, s). length f)", goal_cases)
  case (4 conv buf rp x f t s g c0 g1 has_mod md c rest)
  have "length rest \<le> length g" using 4 by auto
  moreover have "length g \<le> length f" using 4 skip_spec_length [of f] by simp
  ultimately show ?case by simp
qed auto

declare parse_loop.simps(2) [simp del]

primrec parse_depth :: "nat \<Rightarrow> string \<Rightarrow> nat \<Rightarrow> string \<Rightarrow> tm \<Rightarrow> pstate \<Rightarrow> parse" where
  "parse_depth 0 buf = (\<lambda>rp f t s. (None, t, s))"
| "parse_depth (Suc d) buf = (\<lambda>rp f t s. parse_loop (parse_conv (parse_depth d buf) buf) buf rp f t s)"

section \<open>Completing the date\<close>

definition finish_year :: "tm \<Rightarrow> pstate \<Rightarrow> tm" where
  "finish_year t s =
     (let t1 = (if have_I s \<and> is_pm s then t\<lparr>tm_hour := tm_hour t + 12\<rparr> else t) in
      if century s \<noteq> -1 then
        (if want_century s then t1\<lparr>tm_year := tm_year t1 smod 100 + (century s - 19) * 100\<rparr>
         else t1\<lparr>tm_year := (century s - 19) * 100\<rparr>)
      else if want_era s \<and> want_century s \<and> tm_year t1 < 69 then t1\<lparr>tm_year := tm_year t1 + 100\<rparr>
      else t1)"

definition mon_known :: "tm \<Rightarrow> pstate \<Rightarrow> bool" where
  "mon_known t s \<longleftrightarrow> have_mon s \<or> to_u32 (tm_mon t) \<le> 11"

definition finish_days :: "tm \<Rightarrow> pstate \<Rightarrow> tm \<times> pstate" where
  "finish_days t s =
     (let (t1, s1) =
        (if want_xday s \<and> \<not> have_wday s then
           (let (t', s') = (if \<not> (have_mon s \<and> have_mday s) \<and> have_yday s
                then (yday_to_mon_mday t (\<not> have_mon s) (\<not> have_mday s), s\<lparr>have_mon := True, have_mday := True\<rparr>)
                else (t, s))
            in (if mon_known t' s' then day_of_the_week t' else t', s'))
         else (t, s))
      in (if want_xday s1 \<and> \<not> have_yday s1 \<and> mon_known t1 s1 then day_of_the_year t1 else t1, s1))"

definition finish_weeks :: "tm \<Rightarrow> pstate \<Rightarrow> tm" where
  "finish_weeks t s =
     (if (have_uweek s \<or> have_wweek s) \<and> have_wday s then
        (let save_wday = tm_wday t; save_mday = tm_mday t; save_mon = tm_mon t;
             w_offset = (if have_uweek s then 0 else 1);
             t1 = day_of_the_week (t\<lparr>tm_mday := 1, tm_mon := 0\<rparr>);
             t2 = (if have_mday s then t1\<lparr>tm_mday := save_mday\<rparr> else t1);
             t3 = (if have_mon s then t2\<lparr>tm_mon := save_mon\<rparr> else t2);
             t4 = (if \<not> have_yday s
               then t3\<lparr>tm_yday := (7 - (tm_wday t3 - w_offset)) smod 7 + (week_no s - 1) * 7 + (save_wday - w_offset + 7) smod 7\<rparr>
               else t3);
             t5 = (if \<not> have_mday s \<or> \<not> have_mon s then yday_to_mon_mday t4 (\<not> have_mon s) (\<not> have_mday s) else t4)
         in t5\<lparr>tm_wday := save_wday\<rparr>)
      else t)"

definition strptime_core :: "string \<Rightarrow> nat \<Rightarrow> string \<Rightarrow> tm \<Rightarrow> pstate \<Rightarrow> bool \<Rightarrow> parse" where
  "strptime_core buf rp f t s nested =
     (case parse_depth 2 buf rp f t s of
        (None, t', s') \<Rightarrow> (None, t', s')
      | (Some rp', t', s') \<Rightarrow>
          if nested then (Some rp', t', s')
          else let (t1, s1) = finish_days (finish_year t' s') s' in (Some rp', finish_weeks t1 s1, s1))"

definition pstate0 :: pstate where
  "pstate0 = \<lparr>have_I = False, is_pm = False, century = -1, want_century = False, want_era = False, want_xday = False,
     have_wday = False, have_yday = False, have_mon = False, have_mday = False, have_uweek = False, have_wweek = False,
     week_no = 0, decided = DECIDED_NOT\<rparr>"

definition strptime :: "string \<Rightarrow> string \<Rightarrow> tm \<Rightarrow> nat option \<times> tm" where
  "strptime buf fmt t = (let (rp, t', _) = strptime_core buf 0 fmt t pstate0 False in (rp, t'))"

end
