(* ===== verification/Strptime_Theorems.thy ===== *)
theory Strptime_Theorems
  imports Strptime Strftime_Theorems
begin

text \<open>
  Properties of strptime: it never reads past the end of its input, its weekday and day-of-year arithmetic is
  the calendar's, and it reads back what strftime writes.
\<close>

section \<open>Positions stay inside the input\<close>

named_theorems range_rules \<open>the next position of every parser is between the present one and the end\<close>

definition in_range :: "string \<Rightarrow> nat \<Rightarrow> nat option \<Rightarrow> bool" where
  "in_range buf rp r = (case r of None \<Rightarrow> True | Some p \<Rightarrow> rp \<le> p \<and> p \<le> length buf)"

lemma in_range_None [simp]: "in_range buf rp None"
  by (simp add: in_range_def)

lemma in_range_Some [simp]: "in_range buf rp (Some p) \<longleftrightarrow> rp \<le> p \<and> p \<le> length buf"
  by (simp add: in_range_def)

lemma char_at_inside: "char_at buf p \<noteq> NUL \<Longrightarrow> p < length buf"
  by (auto simp: char_at_def split: if_splits)

lemma digit_inside: "is_digit (char_at buf p) \<Longrightarrow> p < length buf"
  by (rule char_at_inside) (auto simp: is_digit_def ub_def)




lemma skip_while_range: "rp \<le> length buf \<Longrightarrow> rp \<le> skip_while P buf rp \<and> skip_while P buf rp \<le> length buf"
  using length_takeWhile_le [of P "drop rp buf"] by (simp add: skip_while_def)

lemma number_loop_range:
  "is_digit (char_at buf rp) \<Longrightarrow> case number_loop buf hi n val rp of (v, p) \<Rightarrow> rp \<le> p \<and> p \<le> length buf"
proof (induction buf hi n val rp rule: number_loop.induct)
  case (1 buf hi val rp)
  then show ?case using digit_inside by fastforce
next
  case (2 buf hi n val rp)
  have rp: "rp < length buf" by (rule digit_inside [OF 2(2)])
  let ?v = "val * 10 + (ub (char_at buf rp) - 48)"
  show ?case
  proof (cases "n > 0 \<and> ?v * 10 \<le> hi \<and> is_digit (char_at buf (rp + 1))")
    case True
    obtain v p where r: "number_loop buf hi n ?v (rp + 1) = (v, p)" by fastforce
    have "rp + 1 \<le> p \<and> p \<le> length buf" using 2(1) [OF refl refl True] True r by simp
    with True r show ?thesis by simp
  next
    case False
    then show ?thesis using rp by (simp only: number_loop.simps Let_def if_False prod.case) simp
  qed
qed

lemma NUMBER_range:
  assumes "rp \<le> length buf" "NUMBER buf lo hi n rp = Some (v, p)"
  shows "rp \<le> p" "p \<le> length buf"
proof -
  let ?q = "skip_while is_space buf rp"
  have d: "is_digit (char_at buf ?q)"
    using assms(2) by (cases "is_digit (char_at buf ?q)") (simp_all add: NUMBER_def)
  obtain v' p' where l: "number_loop buf hi n 0 ?q = (v', p')" by fastforce
  have "p' = p" using assms(2) d l by (simp add: NUMBER_def split: if_splits)
  with number_loop_range [OF d, of hi n 0] skip_while_range [OF assms(1), of is_space] l
  show "rp \<le> p" "p \<le> length buf" by auto
qed

lemma with_number_range [range_rules]: "rp \<le> length buf \<Longrightarrow> in_range buf rp (fst (with_number buf lo hi n rp t s f))"
  by (auto simp: with_number_def dest: NUMBER_range split: option.splits)

lemma zone_digits_range:
  "rp \<le> length buf \<Longrightarrow> case zone_digits buf k n val rp of (n', v, p) \<Rightarrow> rp \<le> p \<and> p \<le> length buf"
proof (induction buf k n val rp rule: zone_digits.induct)
  case (2 buf k n val rp)
  show ?case
  proof (cases "is_digit (char_at buf rp)")
    case True
    let ?c = "char_at buf (rp + 1) = CHR '':'' \<and> n + 1 = 2 \<and> is_digit (char_at buf (rp + 1 + 1))"
    let ?p = "if ?c then rp + 1 + 1 else rp + 1"
    have "rp < length buf" by (rule digit_inside [OF True])
    moreover have "?c \<Longrightarrow> rp + 1 + 1 \<le> length buf" using digit_inside [of buf "rp + 1 + 1"] by simp
    ultimately have p: "rp \<le> ?p" "?p \<le> length buf" by auto
    obtain n' v q where z: "zone_digits buf k (n + 1) (val * 10 + ub (char_at buf rp) - 48) ?p = (n', v, q)"
      using prod_cases3 by blast
    have "?p \<le> q \<and> q \<le> length buf" using 2(1) [OF True refl refl refl refl p(2)] z by simp
    moreover have "zone_digits buf (Suc k) n val rp = (n', v, q)"
      using True z by (simp only: zone_digits.simps if_True Let_def)
    ultimately show ?thesis using p(1) by simp
  qed (use 2 in simp)
qed simp

lemma parse_zone_range [range_rules]: "rp \<le> length buf \<Longrightarrow> in_range buf rp (fst (parse_zone buf rp t s))"
proof -
  assume rp: "rp \<le> length buf"
  let ?p = "skip_while is_space buf rp"
  have p: "rp \<le> ?p" "?p \<le> length buf" using skip_while_range [OF rp, of is_space] by auto
  have "?p < length buf" if "char_at buf ?p \<in> set ''Z+-''" using that by (intro char_at_inside) auto
  then show ?thesis
    using p zone_digits_range [of "?p + 1" buf 4 0 0]
    by (auto simp: parse_zone_def Let_def Suc_le_eq split: prod.splits)
qed

lemma parse_seconds_range [range_rules]: "rp \<le> length buf \<Longrightarrow> in_range buf rp (fst (parse_seconds buf rp t s))"
  using length_takeWhile_le [of is_digit "drop rp buf"]
  by (auto simp: parse_seconds_def Let_def split: prod.splits)







lemma in_range_if [range_rules]:
  "in_range buf rp (fst a) \<Longrightarrow> in_range buf rp (fst b) \<Longrightarrow> in_range buf rp (fst (if P then a else b))"
  by simp

lemma in_range_fail [range_rules]: "in_range buf rp (fst (None, x))"
  by simp






section \<open>Weekday and day of the year\<close>

lemma wrap_exact: "in_i32 (a + b) \<Longrightarrow> wrap_add a b = a + b" "in_i32 (a - b) \<Longrightarrow> wrap_sub a b = a - b"
  "in_i32 (a * b) \<Longrightarrow> wrap_mul a b = a * b"
  by (simp_all add: wrap_add_def wrap_sub_def wrap_mul_def to_u32_def mod_simps) (simp_all add: to_u32_def [symmetric])

lemma smod_floor: "(w smod 7 + 7) smod 7 = w mod (7::int)"
proof (cases "0 \<le> w")
  case True
  then show ?thesis by (simp add: smod_nonneg)
next
  case False
  have "w smod 7 = - ((- w) mod 7)" using False by (simp add: signed_modulo_int_def sgn_if)
  moreover have "0 \<le> (- w) mod 7" "(- w) mod 7 < 7" by simp_all
  ultimately have "(w smod 7 + 7) smod 7 = (7 - (- w) mod 7) mod 7" by (simp add: smod_nonneg)
  also have "\<dots> = (7 - (- w)) mod 7" by (rule mod_diff_right_eq)
  also have "\<dots> = w mod 7" by simp
  finally show ?thesis .
qed

lemma mon_yday_table:
  assumes "1 \<le> m" "m \<le> 12"
  shows "mon_yday_flat (m - 1) = (153 * march_month m + 2) div 5 + (if m \<le> 2 then -306 else 59)"
    "mon_yday_at lp (m - 1) = mon_yday_flat (m - 1) + (if lp \<and> m > 2 then 1 else 0)"
  by (cases rule: month_cases [OF assms];
    simp add: mon_yday_flat_def mon_yday_at_def mon_yday_flat_tab_def march_month_def)+

lemma day_of_the_week_correct:
  assumes v: "valid_date (tm_year t + 1900, tm_mon t + 1, tm_mday t)" and y: "1 \<le> tm_year t + 1900" "tm_year t \<le> 1000000"
  shows "day_of_the_week t = t\<lparr>tm_wday := (days_from_civil (tm_year t + 1900) (tm_mon t + 1) (tm_mday t) + 4) mod 7\<rparr>"
proof -
  define Y m d where "Y = tm_year t + 1900" and "m = tm_mon t + 1" and "d = tm_mday t"
  have m: "1 \<le> m" "m \<le> 12" "1 \<le> d" "d \<le> 31" using v by (auto simp: m_def d_def Y_def days_in_month_def split: if_splits)
  define cy where "cy = march_year Y m"
  have cy: "0 \<le> cy" "cy \<le> 1001900" using y by (auto simp: cy_def march_year_def Y_def)
  have e1: "wrap_sub (wrap_add 1900 (tm_year t)) (if tm_mon t < 2 then 1 else 0) = cy"
    using y by (simp add: wrap_exact in_i32_def cy_def march_year_def Y_def m_def)
  define q where "q = cy div 4"
  have q: "0 \<le> q" "q \<le> 250475" using cy by (auto simp: q_def)
  have q100: "q div 25 = cy div 100" "q div 25 div 4 = cy div 400" by (simp_all add: q_def zdiv_zmult2_eq [symmetric])
  define c100 c400 where "c100 = cy div 100" and "c400 = cy div 400"
  have c: "0 \<le> c100" "c100 \<le> 10019" "0 \<le> c400" "c400 \<le> 2504" using cy by (auto simp: c100_def c400_def)
  have qs: "cy sdiv 4 = q" "q sdiv 25 = c100" "c100 sdiv 4 = c400" "\<not> q smod 25 < 0"
    using cy(1) q(1) c(1) q100 by (simp_all add: sdiv_nonneg smod_nonneg q_def [symmetric] c100_def c400_def)
  define T where "T = mon_yday_flat (tm_mon t)"
  have T: "T = (153 * march_month m + 2) div 5 + (if m \<le> 2 then -306 else 59)"
    using mon_yday_table(1) [OF m(1,2)] by (simp add: T_def m_def)
  have Tb: "0 \<le> T" "T \<le> 334" unfolding T by (cases rule: month_cases [OF m(1,2)]; simp add: march_month_def)+
  let ?w = "-473 + 365 * (tm_year t - 70) + q - c100 + c400 + T + (d - 1)"
  have w: "day_of_the_week t = t\<lparr>tm_wday := (?w smod 7 + 7) smod 7\<rparr>"
    unfolding day_of_the_week_def Let_def e1 qs T_def [symmetric] d_def [symmetric]
    using y q c Tb m(3,4) by (simp add: wrap_exact in_i32_def qs)
  have "leap_days cy = q - c100 + c400" by (simp add: leap_days_def q_def c100_def c400_def)
  moreover have "cy = Y - (if m \<le> 2 then 1 else 0)" by (simp add: cy_def march_year_def)
  ultimately have eq: "?w = days_from_civil Y m d + 4"
    unfolding days_from_civil_floor [OF m(1,2)] cy_def [symmetric] T by (simp add: Y_def split: if_splits)
  show ?thesis unfolding w smod_floor eq unfolding Y_def m_def d_def ..
qed

lemma day_of_the_year_correct:
  assumes v: "valid_date (tm_year t + 1900, tm_mon t + 1, tm_mday t)" and y: "in_i32 (tm_year t + 1900)"
  shows "day_of_the_year t =
    t\<lparr>tm_yday := days_from_civil (tm_year t + 1900) (tm_mon t + 1) (tm_mday t) - days_from_civil (tm_year t + 1900) 1 1\<rparr>"
proof -
  define Y m d where "Y = tm_year t + 1900" and "m = tm_mon t + 1" and "d = tm_mday t"
  have m: "1 \<le> m" "m \<le> 12" "1 \<le> d" "d \<le> 31" using v by (auto simp: m_def d_def Y_def days_in_month_def split: if_splits)
  have lp: "is_leap_year (to_i32 (1900 + tm_year t)) = leap Y"
    using y leap_year_eq [of Y] by (simp add: is_leap_year_def leap_year_def Y_def add.commute)
  have i: "in_i32 (d - 1)" "in_i32 (mon_yday_at (leap Y) (m - 1) + (d - 1))"
    using m mon_yday_table [OF m(1,2)]
    by (cases rule: month_cases [OF m(1,2)]; auto simp: in_i32_def march_month_def)+
  have "mon_yday_at (leap Y) (m - 1) + (d - 1) = days_from_civil Y m d - days_from_civil Y 1 1"
    unfolding mon_yday_table [OF m(1,2)] using leap_days_step [of Y]
    by (cases rule: month_cases [OF m(1,2)]) (simp_all add: days_from_civil_floor march_month_def march_year_def)
  moreover have "tm_mon t = m - 1" by (simp add: m_def)
  ultimately show ?thesis
    unfolding day_of_the_year_def lp using i by (simp add: Y_def [symmetric] m_def [symmetric] d_def [symmetric])
qed

section \<open>Numbers are read back\<close>

lemma dec_char_ub: "d < 10 \<Longrightarrow> ub (dec_char d) = 48 + int d"
  by (simp add: dec_char_def)

lemma dec_text_digits: "c \<in> set (dec_text v) \<Longrightarrow> is_digit c"
proof -
  assume "c \<in> set (dec_text v)"
  then obtain d where "c = dec_char d" "d \<in> set (digits_rev 10 v)" by (auto simp: dec_text_def)
  moreover from this have "d < 10" using digits_rev_less [of 10 d v] by simp
  ultimately show "is_digit c" by (simp add: is_digit_def dec_char_ub)
qed

lemma pad0_digits: "c \<in> set (pad0 k v) \<Longrightarrow> is_digit c"
  using dec_text_digits by (auto simp: pad0_def is_digit_def ub_def split: if_splits)

definition digits_value :: "int \<Rightarrow> string \<Rightarrow> int" where
  "digits_value = foldl (\<lambda>v c. v * 10 + (ub c - 48))"

lemma digits_value_simps [simp]:
  "digits_value a [] = a" "digits_value a (c # cs) = digits_value (a * 10 + (ub c - 48)) cs"
  by (simp_all add: digits_value_def)

lemma digits_value_text:
  "list_all (\<lambda>d. d < 10) ds \<Longrightarrow> digits_value 0 (rev (map dec_char ds)) = int (digits_val 10 ds)"
  by (induction ds) (simp_all add: digits_value_def dec_char_ub)

lemma digits_value_pad0: "0 \<le> v \<Longrightarrow> digits_value 0 (pad0 k v) = v"
proof -
  assume v: "0 \<le> v"
  have z: "digits_value 0 (replicate n (CHR ''0'') @ s) = digits_value 0 s" for n s
    by (induction n) (simp_all add: ub_def)
  have "list_all (\<lambda>d. d < 10) (digits_rev 10 (nat v))" using digits_rev_less [of 10] by (auto simp: list_all_iff)
  then show ?thesis using v by (simp add: pad0_def z dec_text_def digits_value_text digits_val_rev)
qed

lemma digits_value_mono: "list_all is_digit s \<Longrightarrow> 0 \<le> a \<Longrightarrow> a \<le> digits_value a s"
proof (induction s arbitrary: a)
  case (Cons c s)
  then have "0 \<le> a * 10 + (ub c - 48)" "a \<le> a * 10 + (ub c - 48)" by (auto simp: is_digit_def)
  then show ?case using Cons.IH [of "a * 10 + (ub c - 48)"] Cons.prems by simp
qed simp

lemma number_loop_digits:
  assumes "list_all is_digit ds" "ds \<noteq> []" "length ds \<le> n" "0 \<le> a" "digits_value a ds \<le> hi"
    "rest = [] \<or> \<not> is_digit (hd rest)"
  shows "number_loop (pre @ ds @ rest) hi n a (length pre) = (digits_value a ds, length pre + length ds)"
  using assms
proof (induction ds arbitrary: pre n a)
  case (Cons c ds)
  then obtain n' where n: "n = Suc n'" by (cases n) auto
  let ?v = "a * 10 + (ub c - 48)"
  have v: "0 \<le> ?v" using Cons.prems by (simp add: is_digit_def)
  have at: "char_at (pre @ (c # ds) @ rest) (length pre) = c" by (simp add: char_at_def)
  have nul: "\<not> is_digit NUL" by (simp add: is_digit_def ub_def)
  show ?case
  proof (cases ds)
    case Nil
    have "\<not> is_digit (char_at (pre @ (c # ds) @ rest) (length pre + 1))"
      using Nil Cons.prems(6) nul by (cases rest) (auto simp: char_at_def nth_append)
    then show ?thesis using at n Nil by simp
  next
    case (Cons d ds')
    have dig: "is_digit (char_at (pre @ (c # ds) @ rest) (length pre + 1))"
      using Cons Cons.prems(1) by (simp add: char_at_def nth_append)
    have "?v * 10 \<le> ?v * 10 + (ub d - 48)" "0 \<le> ?v * 10 + (ub d - 48)"
      using v Cons.prems(1) Cons by (auto simp: is_digit_def)
    moreover have "?v * 10 + (ub d - 48) \<le> digits_value ?v ds"
      using digits_value_mono [of ds' "?v * 10 + (ub d - 48)"] Cons.prems(1) Cons calculation by simp
    ultimately have hi: "?v * 10 \<le> hi" using Cons.prems(5) by simp
    have "n' > 0" using n Cons Cons.prems(3) by (cases n') auto
    moreover have "number_loop ((pre @ [c]) @ ds @ rest) hi n' ?v (length (pre @ [c])) = (digits_value ?v ds, length (pre @ [c]) + length ds)"
      using Cons.prems n v Cons by (intro Cons.IH) auto
    ultimately show ?thesis using at n dig hi by simp
  qed
qed simp

lemma NUMBER_pad0:
  assumes "0 \<le> v" "lo \<le> v" "v \<le> hi" "length (pad0 k v) \<le> n" "rest = [] \<or> \<not> is_digit (hd rest)"
  shows "NUMBER (pre @ pad0 k v @ rest) lo hi n (length pre) = Some (v, length pre + length (pad0 k v))"
proof -
  let ?b = "pre @ pad0 k v @ rest"
  have ne: "pad0 k v \<noteq> []" by (simp add: pad0_def dec_text_def)
  have at: "char_at ?b (length pre) = hd (pad0 k v)" using ne by (simp add: char_at_def nth_append hd_conv_nth)
  have d: "is_digit (char_at ?b (length pre))" using pad0_digits [of "hd (pad0 k v)" k v] ne at by simp
  have "\<not> is_space (hd (pad0 k v))" using d unfolding at by (auto simp: is_space_def is_digit_def ub_def)
  then have sk: "skip_while is_space ?b (length pre) = length pre" using ne by (cases "pad0 k v") (simp_all add: skip_while_def)
  have "number_loop ?b hi n 0 (length pre) = (v, length pre + length (pad0 k v))"
    using number_loop_digits [of "pad0 k v" n 0 hi rest pre] ne assms pad0_digits
    by (simp add: digits_value_pad0 list_all_iff)
  with d sk assms(2,3) show ?thesis by (simp add: NUMBER_def)
qed

text \<open>The six conversions of a date and a time: the range of the number, its digits, and what it sets.\<close>

definition field_range :: "char \<Rightarrow> int \<times> int \<times> nat" where
  "field_range c = (if c = CHR ''Y'' then (0, 9999, 4) else if c = CHR ''m'' then (1, 12, 2)
     else if c = CHR ''d'' then (1, 31, 2) else if c = CHR ''H'' then (0, 23, 2)
     else if c = CHR ''M'' then (0, 59, 2) else (0, 61, 2))"

definition field_set :: "char \<Rightarrow> int \<Rightarrow> tm \<times> pstate \<Rightarrow> tm \<times> pstate" where
  "field_set c v ts = (case ts of (t, s) \<Rightarrow>
     if c = CHR ''Y'' then (t\<lparr>tm_year := v - 1900\<rparr>, s\<lparr>want_century := False, want_xday := True\<rparr>)
     else if c = CHR ''m'' then (t\<lparr>tm_mon := v - 1\<rparr>, s\<lparr>have_mon := True, want_xday := True\<rparr>)
     else if c = CHR ''d'' then (t\<lparr>tm_mday := v\<rparr>, s\<lparr>have_mday := True, want_xday := True\<rparr>)
     else if c = CHR ''H'' then (t\<lparr>tm_hour := v\<rparr>, s\<lparr>have_I := False\<rparr>)
     else if c = CHR ''M'' then (t\<lparr>tm_min := v\<rparr>, s)
     else (t\<lparr>tm_sec := v\<rparr>, s))"

lemma field_cases:
  assumes "c \<in> set ''YmdHMS''"
  obtains "c = CHR ''Y''" | "c = CHR ''m''" | "c = CHR ''d''" | "c = CHR ''H''" | "c = CHR ''M''" | "c = CHR ''S''"
  using assms by auto

lemma parse_conv_field:
  assumes "c \<in> set ''YmdHMS''" "field_range c = (lo, hi, n)"
  shows "parse_conv rec buf NUL c rp t s = with_number buf lo hi n rp t s (\<lambda>v. field_set c v (t, s))"
  using assms(2)
  by (cases rule: field_cases [OF assms(1)]) (simp_all add: parse_conv_def field_range_def field_set_def)

lemma skip_spec_field: "c \<in> set ''YmdHMS'' \<Longrightarrow> skip_spec (c # f) = c # f"
  by (erule field_cases) (simp_all add: skip_spec_def is_digit_def ub_def)

text \<open>One field and the separator after it.\<close>

lemma parse_field:
  assumes "c \<in> set ''YmdHMS''" "field_range c = (lo, hi, n)" "0 \<le> v" "lo \<le> v" "v \<le> hi" "length (pad0 k v) \<le> n"
    "rest = [] \<or> \<not> is_digit (hd rest)" "buf = pre @ pad0 k v @ rest" "p = length pre"
  shows "parse_loop (parse_conv rec buf) buf p (CHR ''%'' # c # f) t s =
    parse_loop (parse_conv rec buf) buf (p + length (pad0 k v)) f (fst (field_set c v (t, s))) (snd (field_set c v (t, s)))"
proof -
  have N: "NUMBER buf lo hi n p = Some (v, p + length (pad0 k v))" using NUMBER_pad0 [OF assms(3-7)] assms(8,9) by simp
  have ce: "c \<noteq> CHR ''E'' \<and> c \<noteq> CHR ''O''" using assms(1) by auto
  have sp: "\<not> is_space (CHR ''%'')" by (simp add: is_space_def)
  obtain t' s' where fs: "field_set c v (t, s) = (t', s')" by fastforce
  show ?thesis
    unfolding parse_loop.simps(2) [of _ _ _ "CHR ''%''"] skip_spec_field [OF assms(1)]
    using ce sp N fs by (simp add: parse_conv_field [OF assms(1,2)] with_number_def)
qed

lemma parse_literal:
  assumes "x \<noteq> CHR ''%''" "\<not> is_space x" "char_at buf p = x"
  shows "parse_loop conv buf p (x # f) t s = parse_loop conv buf (p + 1) f t s"
  using assms by (simp add: parse_loop.simps(2))

lemma parse_space:
  assumes "buf = pre @ CHR '' '' # rest" "rest \<noteq> []" "\<not> is_space (hd rest)" "p = length pre"
  shows "parse_loop conv buf p (CHR '' '' # f) t s = parse_loop conv buf (p + 1) f t s"
proof -
  have "skip_while is_space buf p = p + 1"
    using assms by (cases rest) (simp_all add: skip_while_def is_space_def)
  then show ?thesis by (simp add: parse_loop.simps(2) is_space_def)
qed

section \<open>A date and time, written and read back\<close>

definition stamp :: string where
  "stamp = ''%Y-%m-%d %H:%M:%S''"

definition field_of :: "char \<Rightarrow> tm \<Rightarrow> int" where
  "field_of c t = (if c = CHR ''Y'' then cal_year t else if c = CHR ''m'' then tm_mon t + 1 else if c = CHR ''d'' then tm_mday t
     else if c = CHR ''H'' then tm_hour t else if c = CHR ''M'' then tm_min t else tm_sec t)"

definition field_text :: "char \<Rightarrow> tm \<Rightarrow> string" where
  "field_text c t = pad0 (if c = CHR ''Y'' then 1 else 2) (field_of c t)"

definition stamp_text :: "tm \<Rightarrow> string" where
  "stamp_text t = field_text (CHR ''Y'') t @ ''-'' @ field_text (CHR ''m'') t @ ''-'' @ field_text (CHR ''d'') t @ '' '' @
     field_text (CHR ''H'') t @ '':'' @ field_text (CHR ''M'') t @ '':'' @ field_text (CHR ''S'') t"

definition stampable :: "tm \<Rightarrow> bool" where
  "stampable t \<longleftrightarrow> 0 \<le> cal_year t \<and> cal_year t \<le> 9999 \<and> 0 \<le> tm_mon t \<and> tm_mon t \<le> 11 \<and> 1 \<le> tm_mday t \<and> tm_mday t \<le> 31 \<and>
     0 \<le> tm_hour t \<and> tm_hour t \<le> 23 \<and> 0 \<le> tm_min t \<and> tm_min t \<le> 59 \<and> 0 \<le> tm_sec t \<and> tm_sec t \<le> 59"

lemma field_ok:
  assumes "stampable t" "c \<in> set ''YmdHMS''" "field_range c = (lo, hi, n)"
  shows "0 \<le> field_of c t" "lo \<le> field_of c t" "field_of c t \<le> hi" "length (field_text c t) \<le> n" "n \<le> 4"
    "field_of c t < 9223372036854775808" "list_all is_digit (field_text c t)" "field_text c t \<noteq> []"
proof -
  show b: "0 \<le> field_of c t" "lo \<le> field_of c t" "field_of c t \<le> hi" "n \<le> 4"
    using assms(1,3) by (cases rule: field_cases [OF assms(2)]; simp add: stampable_def field_of_def field_range_def; linarith)+
  have "field_of c t < 10 ^ n" "0 < n" "hi < 10000"
    using b(3) assms(3) by (cases rule: field_cases [OF assms(2)]; simp add: field_range_def; linarith)+
  then have "length (dec_text (nat (field_of c t))) \<le> n"
    using b(1) by (intro length_dec_text) (simp_all add: nat_less_iff)
  then show "length (field_text c t) \<le> n"
    using assms(3) by (cases rule: field_cases [OF assms(2)]; simp add: field_text_def pad0_def field_range_def)
  show "field_of c t < 9223372036854775808" using b(3) \<open>hi < 10000\<close> by linarith
  show "list_all is_digit (field_text c t)" using pad0_digits by (auto simp: field_text_def list_all_iff)
  show "field_text c t \<noteq> []" by (simp add: field_text_def pad0_def dec_text_def)
qed

lemma format_field:
  assumes "stampable t" "c \<in> set ''YmdHMS''" "length (sk_out o1) + 4 < sk_max o1"
  shows "format_loop (\<lambda>o2 c sp. convert fmt o2 c sp t) o1 (CHR ''%'' # c # g) =
    format_loop (\<lambda>o2 c sp. convert fmt o2 c sp t) (emit o1 (field_text c t)) g"
proof (rule format_conversion)
  obtain lo hi n where r: "field_range c = (lo, hi, n)" by (rule prod_cases3)
  note f = field_ok [OF assms(1,2) r]
  show "plain_char c" by (cases rule: field_cases [OF assms(2)]) (simp_all add: plain_char_def is_digit_def ub_def)
  have "convert fmt o1 c spec0 t = (1, emit o1 (pad0 (if c = CHR ''Y'' then 1 else 2) (field_of c t)))"
    by (rule convert_number [OF assms(2) field_of_def refl f(1,6)])
      (use f(4,5) assms(3) in \<open>simp add: fits_def field_text_def\<close>)
  then show "convert fmt o1 c spec0 t = (1, emit o1 (field_text c t))" by (simp add: field_text_def)
qed

lemma field_lengths:
  assumes "stampable t"
  shows "length (field_text (CHR ''Y'') t) \<le> 4" "length (field_text (CHR ''m'') t) \<le> 2" "length (field_text (CHR ''d'') t) \<le> 2"
    "length (field_text (CHR ''H'') t) \<le> 2" "length (field_text (CHR ''M'') t) \<le> 2" "length (field_text (CHR ''S'') t) \<le> 2"
  by (rule field_ok(4) [OF assms]; simp add: field_range_def)+

lemma stamp_format:
  assumes "stampable t" "32 \<le> n"
  shows "format \<lparr>sk_out = [], sk_max = n\<rparr> stamp t = (True, \<lparr>sk_out = stamp_text t, sk_max = n\<rparr>)"
proof -
  note l = field_lengths [OF assms(1)] and step = format_field [OF assms(1)] format_literal
  have "format_loop (\<lambda>o2 c sp. convert fmt o2 c sp t) \<lparr>sk_out = [], sk_max = n\<rparr> stamp =
      (True, emit \<lparr>sk_out = [], sk_max = n\<rparr> (stamp_text t))" for fmt
    using l assms(2) by (simp add: stamp_def step fits_def) (simp add: stamp_text_def)
  then show ?thesis by (simp add: format_def numeral_2_eq_2 emit_def)
qed

lemma parse_stamp_field:
  assumes "stampable t" "c \<in> set ''YmdHMS''" "rest = [] \<or> \<not> is_digit (hd rest)" "buf = pre @ field_text c t @ rest" "p = length pre"
  shows "parse_loop (parse_conv rec buf) buf p (CHR ''%'' # c # f) u s =
    parse_loop (parse_conv rec buf) buf (p + length (field_text c t)) f
      (fst (field_set c (field_of c t) (u, s))) (snd (field_set c (field_of c t) (u, s)))"
proof -
  obtain lo hi n where r: "field_range c = (lo, hi, n)" by (rule prod_cases3)
  note f = field_ok [OF assms(1,2) r]
  show ?thesis unfolding field_text_def
    by (rule parse_field [OF assms(2) r f(1-3) f(4) [unfolded field_text_def] assms(3) assms(4) [unfolded field_text_def] assms(5)])
qed

text \<open>The struct after the six fields, before the derived ones.\<close>

definition stamp_fields :: "tm \<Rightarrow> tm \<Rightarrow> tm" where
  "stamp_fields t u = u\<lparr>tm_year := cal_year t - 1900, tm_mon := tm_mon t, tm_mday := tm_mday t,
     tm_hour := tm_hour t, tm_min := tm_min t, tm_sec := tm_sec t\<rparr>"

lemma stamp_parse:
  assumes st: "stampable t"
  shows "parse_loop (parse_conv rec (stamp_text t)) (stamp_text t) 0 stamp u pstate0 =
    (Some (length (stamp_text t)), stamp_fields t u, pstate0\<lparr>want_xday := True, have_mon := True, have_mday := True\<rparr>)"
proof -
  define A B C D E F where "A = field_text (CHR ''Y'') t" and "B = field_text (CHR ''m'') t" and "C = field_text (CHR ''d'') t"
    and "D = field_text (CHR ''H'') t" and "E = field_text (CHR ''M'') t" and "F = field_text (CHR ''S'') t"
  note defs = A_def B_def C_def D_def E_def F_def
  let ?b = "stamp_text t"
  have b: "?b = A @ ''-'' @ B @ ''-'' @ C @ '' '' @ D @ '':'' @ E @ '':'' @ F" by (simp add: stamp_text_def defs)
  have nd: "\<not> is_digit (CHR ''-'')" "\<not> is_digit (CHR '':'')" "\<not> is_digit (CHR '' '')" by (simp_all add: is_digit_def ub_def)
  have sp: "\<not> is_space (CHR ''-'')" "\<not> is_space (CHR '':'')" by (simp_all add: is_space_def)
  have D: "D \<noteq> []" "is_digit (hd D)"
    using field_ok(7,8) [OF st, of "CHR ''H''"] by (auto simp: field_range_def D_def list_all_iff)
  then have Dsp: "\<not> is_space (hd (D @ '':'' @ E @ '':'' @ F))" by (auto simp: is_space_def is_digit_def ub_def)
  let ?c = "parse_conv rec ?b"
  let ?set = "\<lambda>c x y. field_set c (field_of c t) (x, y)"
  have g1: "parse_loop ?c ?b (0) (CHR ''%'' # CHR ''Y'' # f) x y =
      parse_loop ?c ?b (length A) f (fst (?set (CHR ''Y'') x y)) (snd (?set (CHR ''Y'') x y))" for f x y
    using parse_stamp_field [OF st, where c = "CHR ''Y''" and pre = "[]" and buf = ?b and rec = rec
      and rest = "''-'' @ B @ ''-'' @ C @ '' '' @ D @ '':'' @ E @ '':'' @ F" and p = "0" and f = f and u = x and s = y]
    by (simp add: nd b defs [symmetric])
  have g2: "parse_loop ?c ?b (length A + 1) (CHR ''%'' # CHR ''m'' # f) x y =
      parse_loop ?c ?b (length A + 1 + length B) f (fst (?set (CHR ''m'') x y)) (snd (?set (CHR ''m'') x y))" for f x y
    using parse_stamp_field [OF st, where c = "CHR ''m''" and pre = "A @ ''-''" and buf = ?b and rec = rec
      and rest = "''-'' @ C @ '' '' @ D @ '':'' @ E @ '':'' @ F" and p = "length A + 1" and f = f and u = x and s = y]
    by (simp add: nd b defs [symmetric])
  have g3: "parse_loop ?c ?b (length A + 1 + length B + 1) (CHR ''%'' # CHR ''d'' # f) x y =
      parse_loop ?c ?b (length A + 1 + length B + 1 + length C) f (fst (?set (CHR ''d'') x y)) (snd (?set (CHR ''d'') x y))" for f x y
    using parse_stamp_field [OF st, where c = "CHR ''d''" and pre = "A @ ''-'' @ B @ ''-''" and buf = ?b and rec = rec
      and rest = "'' '' @ D @ '':'' @ E @ '':'' @ F" and p = "length A + 1 + length B + 1" and f = f and u = x and s = y]
    by (simp add: nd b defs [symmetric])
  have g4: "parse_loop ?c ?b (length A + 1 + length B + 1 + length C + 1) (CHR ''%'' # CHR ''H'' # f) x y =
      parse_loop ?c ?b (length A + 1 + length B + 1 + length C + 1 + length D) f (fst (?set (CHR ''H'') x y)) (snd (?set (CHR ''H'') x y))" for f x y
    using parse_stamp_field [OF st, where c = "CHR ''H''" and pre = "A @ ''-'' @ B @ ''-'' @ C @ '' ''" and buf = ?b and rec = rec
      and rest = "'':'' @ E @ '':'' @ F" and p = "length A + 1 + length B + 1 + length C + 1" and f = f and u = x and s = y]
    by (simp add: nd b defs [symmetric])
  have g5: "parse_loop ?c ?b (length A + 1 + length B + 1 + length C + 1 + length D + 1) (CHR ''%'' # CHR ''M'' # f) x y =
      parse_loop ?c ?b (length A + 1 + length B + 1 + length C + 1 + length D + 1 + length E) f (fst (?set (CHR ''M'') x y)) (snd (?set (CHR ''M'') x y))" for f x y
    using parse_stamp_field [OF st, where c = "CHR ''M''" and pre = "A @ ''-'' @ B @ ''-'' @ C @ '' '' @ D @ '':''" and buf = ?b and rec = rec
      and rest = "'':'' @ F" and p = "length A + 1 + length B + 1 + length C + 1 + length D + 1" and f = f and u = x and s = y]
    by (simp add: nd b defs [symmetric])
  have g6: "parse_loop ?c ?b (length A + 1 + length B + 1 + length C + 1 + length D + 1 + length E + 1) (CHR ''%'' # CHR ''S'' # f) x y =
      parse_loop ?c ?b (length A + 1 + length B + 1 + length C + 1 + length D + 1 + length E + 1 + length F) f (fst (?set (CHR ''S'') x y)) (snd (?set (CHR ''S'') x y))" for f x y
    using parse_stamp_field [OF st, where c = "CHR ''S''" and pre = "A @ ''-'' @ B @ ''-'' @ C @ '' '' @ D @ '':'' @ E @ '':''" and buf = ?b and rec = rec
      and rest = "[]" and p = "length A + 1 + length B + 1 + length C + 1 + length D + 1 + length E + 1" and f = f and u = x and s = y]
    by (simp add: nd b defs [symmetric])
  have at: "char_at ?b (length A) = CHR ''-''" "char_at ?b (length A + 1 + length B) = CHR ''-''"
    "char_at ?b (length A + 1 + length B + 1 + length C + 1 + length D) = CHR '':''"
    "char_at ?b (length A + 1 + length B + 1 + length C + 1 + length D + 1 + length E) = CHR '':''"
    unfolding b by (simp_all add: char_at_def nth_append)
  have space: "parse_loop conv ?b (length A + 1 + length B + 1 + length C) (CHR '' '' # f) x y =
      parse_loop conv ?b (length A + 1 + length B + 1 + length C + 1) f x y" for conv f x y
    by (rule parse_space [where pre = "A @ ''-'' @ B @ ''-'' @ C" and rest = "D @ '':'' @ E @ '':'' @ F"])
      (use b D Dsp in simp_all)
  have lit: "parse_loop conv ?b (length A) (CHR ''-'' # f) x y = parse_loop conv ?b (length A + 1) f x y"
    "parse_loop conv ?b (length A + 1 + length B) (CHR ''-'' # f) x y = parse_loop conv ?b (length A + 1 + length B + 1) f x y"
    "parse_loop conv ?b (length A + 1 + length B + 1 + length C + 1 + length D) (CHR '':'' # f) x y =
     parse_loop conv ?b (length A + 1 + length B + 1 + length C + 1 + length D + 1) f x y"
    "parse_loop conv ?b (length A + 1 + length B + 1 + length C + 1 + length D + 1 + length E) (CHR '':'' # f) x y =
     parse_loop conv ?b (length A + 1 + length B + 1 + length C + 1 + length D + 1 + length E + 1) f x y" for conv f x y
    by (rule parse_literal; simp add: sp at [simplified])+
  have len: "length ?b = length A + 1 + length B + 1 + length C + 1 + length D + 1 + length E + 1 + length F"
    unfolding b by simp
  show ?thesis
    unfolding stamp_def g1 g2 g3 g4 g5 g6 lit space parse_loop.simps(1) len
    by (simp add: field_set_def field_of_def stamp_fields_def pstate0_def)
qed

lemma stamp_finish:
  assumes v: "valid_date (tm_year w + 1900, tm_mon w + 1, tm_mday w)" "1 \<le> tm_year w + 1900" "tm_year w \<le> 9999"
    and s: "s = pstate0\<lparr>want_xday := True, have_mon := True, have_mday := True\<rparr>"
  shows "finish_year w s = w" "finish_days w s = (day_of_the_year (day_of_the_week w), s)" "finish_weeks w' s = w'"
  by (simp_all add: finish_year_def finish_days_def finish_weeks_def s pstate0_def mon_known_def)

lemma tm_of_date:
  assumes "civil_from_days (t div SECS_PER_DAY) = (y, m, d)"
  shows "tm_mday (tm_of t zone) = d" "tm_mon (tm_of t zone) = m - 1" "tm_year (tm_of t zone) = y - 1900"
    "tm_yday (tm_of t zone) = t div SECS_PER_DAY - days_from_civil y 1 1"
  using assms by (simp_all add: tm_of_def Let_def)

text \<open>C28. Any time of the years 1 to 9999, written by strftime as date and time, is read back by strptime: the whole text
  is consumed and every field, the weekday and the day of the year included, is the one gmtime computes; the zone
  fields of the struct are left alone.\<close>

theorem strftime_strptime_roundtrip:
  assumes "1 \<le> year_of t" "year_of t \<le> 9999" "32 \<le> maxn"
  shows "case strftime mem buf maxn ''%Y-%m-%d %H:%M:%S'' (tm_of t zone) of (n, mem') \<Rightarrow>
    strptime (bytes mem' buf n) ''%Y-%m-%d %H:%M:%S'' u =
      (Some n, (tm_of t zone)\<lparr>tm_isdst := tm_isdst u, tm_gmtoff := tm_gmtoff u, tm_zone := tm_zone u\<rparr>)"
proof -
  obtain y m d where c: "civil_from_days (t div SECS_PER_DAY) = (y, m, d)" and v: "valid_date (y, m, d)"
    and n: "days_from_civil y m d = t div SECS_PER_DAY" by (rule civil_from_days_cases)
  have y: "1 \<le> y" "y \<le> 9999" using assms(1,2) by (simp_all add: year_of_def c)
  let ?t = "tm_of t zone"
  have cy: "cal_year ?t = y" using y by (simp add: cal_year_def tm_of_date [OF c] wrap_exact in_i32_def)
  have "year_fits t" using y by (simp add: year_fits_def year_of_def c in_i32_def)
  note r = tm_of_ranges [OF this refl, of zone]
  have st: "stampable ?t"
    using r(1-3) v y by (auto simp: stampable_def cy tm_of_date [OF c] days_in_month_def simp del: tm_of_simps split: if_splits)
  let ?w = "stamp_fields ?t u"
  have vw: "valid_date (tm_year ?w + 1900, tm_mon ?w + 1, tm_mday ?w)" "1 \<le> tm_year ?w + 1900" "tm_year ?w \<le> 9999"
    using v y by (simp_all add: stamp_fields_def cy tm_of_date [OF c])
  have wk: "day_of_the_week ?w = ?w\<lparr>tm_wday := (t div SECS_PER_DAY + 4) mod 7\<rparr>"
    by (subst day_of_the_week_correct) (use vw n in \<open>simp_all add: stamp_fields_def cy tm_of_date [OF c]\<close>)
  have yd: "day_of_the_year (?w\<lparr>tm_wday := k\<rparr>) = ?w\<lparr>tm_wday := k, tm_yday := t div SECS_PER_DAY - days_from_civil y 1 1\<rparr>" for k
    by (subst day_of_the_year_correct) (use vw n y in \<open>simp_all add: stamp_fields_def cy tm_of_date [OF c] in_i32_def\<close>)
  have "strptime (stamp_text ?t) stamp u = (Some (length (stamp_text ?t)),
      ?w\<lparr>tm_wday := (t div SECS_PER_DAY + 4) mod 7, tm_yday := t div SECS_PER_DAY - days_from_civil y 1 1\<rparr>)"
    using stamp_parse [OF st, of "parse_depth 1 (stamp_text ?t)" u] stamp_finish [OF vw refl]
    by (simp add: strptime_def strptime_core_def numeral_2_eq_2 wk yd)
  also have "?w\<lparr>tm_wday := (t div SECS_PER_DAY + 4) mod 7, tm_yday := t div SECS_PER_DAY - days_from_civil y 1 1\<rparr> =
      ?t\<lparr>tm_isdst := tm_isdst u, tm_gmtoff := tm_gmtoff u, tm_zone := tm_zone u\<rparr>"
    by (rule tm.equality) (simp_all add: stamp_fields_def cy tm_of_date [OF c])
  finally have P: "strptime (stamp_text ?t) stamp u = (Some (length (stamp_text ?t)),
      ?t\<lparr>tm_isdst := tm_isdst u, tm_gmtoff := tm_gmtoff u, tm_zone := tm_zone u\<rparr>)" .
  have F: "strftime mem buf maxn stamp ?t = (length (stamp_text ?t), (store mem buf (stamp_text ?t))(buf + length (stamp_text ?t) := NUL))"
    using stamp_format [OF st assms(3)] assms(3) by (simp add: strftime_def Let_def)
  have "bytes ((store mem buf s)(buf + length s := NUL)) buf (length s) = s" for s
    by (auto intro: nth_equalityI simp: mem_simps)
  then show ?thesis using P F by (simp add: stamp_def)
qed

theorem strftime_strptime_roundtrip_witness:
  "1 \<le> year_of 1709211599 \<and> year_of 1709211599 \<le> 9999 \<and>
   (case strftime (\<lambda>_. NUL) 0 32 ''%Y-%m-%d %H:%M:%S'' (tm_of 1709211599 ''GMT'') of (n, m) \<Rightarrow>
      tm_wday (snd (strptime (bytes m 0 n) ''%Y-%m-%d %H:%M:%S'' tm_any)) = 4)"
proof -
  have y: "1 \<le> year_of 1709211599" "year_of 1709211599 \<le> 9999" by code_simp+
  have "tm_wday (tm_of 1709211599 ''GMT'') = 4" by simp
  with y strftime_strptime_roundtrip [OF y order_refl, where mem = "\<lambda>_. NUL" and buf = 0 and zone = "''GMT''" and u = tm_any]
  show ?thesis by (auto split: prod.splits)
qed


end
