(* ===== verification/Exit.thy ===== *)
theory Exit
  imports Prelude "HOL-Library.Multiset"
begin

text \<open>
  Process termination: \<open>lib/moqi_libc/src/exit.c\<close>. The registered functions are a stack of blocks of
  thirty-two; the list has the top block first and the static one last. What a handler does is the
  program's: a list of actions, chosen by the state of the program when it is called, each registering a function,
  calling \<open>exit\<close> or changing the program's state. Allocation is a parameter that may fail. The state also
  records the events of the termination in order. One thread runs.
\<close>

section \<open>The stack of blocks\<close>













section \<open>Termination of the process\<close>






section \<open>The stack it implements\<close>











section \<open>What exit does\<close>











section \<open>The contract of the registry\<close>












end
