(* ===== verification/Env.thy ===== *)
theory Env
  imports Prelude
begin

text \<open>
  The environment: \<open>lib/moqi_libc/src/env.c\<close> and \<open>getenv\<close> of \<open>src/stdlib.c\<close>. The array
  \<open>environ\<close> is the list of its entries before the terminator, or \<open>None\<close> for a null pointer; an
  entry is a string value. The state also holds whether the array is the one this file allocated, whether
  there is such an array and how many pointers it has room for. Allocation is a parameter: it may fail, and
  it transforms a heap. The calls run under the lock of the file.
\<close>

section \<open>State\<close>

record 'h env_state =
  environ :: "string list option"
  is_own :: bool
  has_own :: bool
  own_cap :: nat
  env_heap :: 'h

record 'h env_alloc =
  e_malloc :: "nat \<Rightarrow> 'h \<Rightarrow> bool \<times> 'h"
  e_free :: "'h \<Rightarrow> 'h"

definition env_count :: "'h env_state \<Rightarrow> nat" where
  "env_count s = (case environ s of None \<Rightarrow> 0 | Some es \<Rightarrow> length es)"

text \<open>\<open>strncmp(s, t, n) == 0\<close> on string values.\<close>

fun same_prefix :: "string \<Rightarrow> string \<Rightarrow> nat \<Rightarrow> bool" where
  "same_prefix s t 0 = True"
| "same_prefix s t (Suc n) =
     (char_at s 0 = char_at t 0 \<and> (char_at s 0 = NUL \<or> same_prefix (tl s) (tl t) n))"

definition entry_is :: "string \<Rightarrow> string \<Rightarrow> nat \<Rightarrow> bool" where
  "entry_is entry name nlen \<longleftrightarrow> same_prefix entry name nlen \<and> char_at entry nlen = CHR ''=''"

definition find_entry :: "'h env_state \<Rightarrow> string \<Rightarrow> nat \<Rightarrow> nat option" where
  "find_entry s name nlen =
     (case environ s of
        None \<Rightarrow> None
      | Some es \<Rightarrow> List.find (\<lambda>i. entry_is (es ! i) name nlen) [0..<length es])"

definition getenv :: "'h env_state \<Rightarrow> string option \<Rightarrow> string option" where
  "getenv s name =
     (case (name, environ s) of
        (Some n, Some es) \<Rightarrow>
          if length n = 0 then None
          else (case List.find (\<lambda>e. count_upto (\<lambda>i. char_at e i = n ! i) (length n) = length n \<and>
                                     char_at e (length n) = CHR ''='') es of
                  Some e \<Rightarrow> Some (drop (length n + 1) e)
                | None \<Rightarrow> None)
      | _ \<Rightarrow> None)"

definition ensure_room :: "'h env_alloc \<Rightarrow> nat \<Rightarrow> 'h env_state \<Rightarrow> bool \<times> 'h env_state" where
  "ensure_room a count s =
     (let need = count + 2 in
      if environ s \<noteq> None \<and> is_own s \<and> own_cap s \<ge> need then (True, s)
      else if environ s = None \<and> has_own s \<and> own_cap s \<ge> need
      then (True, s\<lparr>environ := Some [], is_own := True\<rparr>)
      else let cap = (if (need * 2) mod SIZE_MOD < 16 then 16 else (need * 2) mod SIZE_MOD) in
        if cap > (SIZE_MOD - 1) div 8 then (False, s)
        else let (ok, h) = e_malloc a (cap * 8) (env_heap s) in
          if \<not> ok then (False, s\<lparr>env_heap := h\<rparr>)
          else (True, s\<lparr>environ := Some (case environ s of None \<Rightarrow> [] | Some es \<Rightarrow> take count es),
                        is_own := True, has_own := True, own_cap := cap, env_heap := h\<rparr>))"

definition append_entry :: "'h env_alloc \<Rightarrow> string \<Rightarrow> 'h env_state \<Rightarrow> bool \<times> 'h env_state" where
  "append_entry a entry s =
     (let count = env_count s; (ok, s1) = ensure_room a count s in
      if \<not> ok then (False, s1)
      else (True, s1\<lparr>environ := map_option (\<lambda>es. take count es @ [entry]) (environ s1)\<rparr>))"

definition valid_name :: "string option \<Rightarrow> nat option" where
  "valid_name name =
     (case name of
        None \<Rightarrow> None
      | Some n \<Rightarrow> if n = [] then None else if CHR ''='' \<in> set n then None else Some (length n))"

text \<open>The result and the errno value a call sets.\<close>

definition setenv ::
    "'h env_alloc \<Rightarrow> string option \<Rightarrow> string option \<Rightarrow> int \<Rightarrow> 'h env_state \<Rightarrow> int \<times> int option \<times> 'h env_state" where
  "setenv a name value overwrite s =
     (case (valid_name name, value) of
        (Some nlen, Some v) \<Rightarrow>
          (let vlen = length v; slot = find_entry s (the name) nlen;
               old = (case slot of Some i \<Rightarrow> the (environ s) ! i | None \<Rightarrow> []) in
           if slot \<noteq> None \<and> overwrite = 0 then (0, None, s)
           else if slot \<noteq> None \<and> same_prefix (drop (nlen + 1) old) v (vlen + 1) then (0, None, s)
           else if vlen > SIZE_MOD - 1 - nlen - 2 then (-1, Some 12, s)
           else let (ok, h) = e_malloc a (nlen + 1 + vlen + 1) (env_heap s); s1 = s\<lparr>env_heap := h\<rparr>;
                    entry = take nlen (the name) @ ''='' @ v in
             if \<not> ok then (-1, Some 12, s1)
             else (case slot of
                Some i \<Rightarrow> (0, None, s1\<lparr>environ := map_option (\<lambda>es. es[i := entry]) (environ s1)\<rparr>)
              | None \<Rightarrow>
                  (let (ok', s2) = append_entry a entry s1 in
                   if \<not> ok' then (-1, Some 12, s2\<lparr>env_heap := e_free a (env_heap s2)\<rparr>) else (0, None, s2))))
      | _ \<Rightarrow> (-1, Some 22, s))"

definition unsetenv :: "string option \<Rightarrow> 'h env_state \<Rightarrow> int \<times> int option \<times> 'h env_state" where
  "unsetenv name s =
     (case valid_name name of
        None \<Rightarrow> (-1, Some 22, s)
      | Some nlen \<Rightarrow> (0, None, s\<lparr>environ := map_option (filter (\<lambda>e. \<not> entry_is e (the name) nlen)) (environ s)\<rparr>))"

definition putenv :: "'h env_alloc \<Rightarrow> string option \<Rightarrow> 'h env_state \<Rightarrow> int \<times> int option \<times> 'h env_state" where
  "putenv a str s =
     (case str of
        None \<Rightarrow> (-1, Some 22, s)
      | Some t \<Rightarrow>
          if CHR ''='' \<notin> set t then (let (_, e, s') = unsetenv (Some t) s in (0, e, s'))
          else let nlen = length (takeWhile (\<lambda>c. c \<noteq> CHR ''='') t) in
            (case find_entry s t nlen of
               Some i \<Rightarrow> (0, None, s\<lparr>environ := map_option (\<lambda>es. es[i := t]) (environ s)\<rparr>)
             | None \<Rightarrow>
                 (let (ok, s') = append_entry a t s in if \<not> ok then (-1, Some 12, s') else (0, None, s'))))"

definition clearenv :: "'h env_state \<Rightarrow> int \<times> 'h env_state" where
  "clearenv s = (0, s\<lparr>environ := None, is_own := False\<rparr>)"

section \<open>The environment as a map\<close>

lemma same_prefix_take: "n \<le> length t \<Longrightarrow> NUL \<notin> set t \<Longrightarrow> same_prefix s t n \<longleftrightarrow> take n s = take n t"
proof (induction s t n rule: same_prefix.induct)
  case (2 s t n)
  then show ?case by (cases s; cases t) auto
qed simp

lemma same_prefix_all: "NUL \<notin> set s \<Longrightarrow> NUL \<notin> set t \<Longrightarrow> same_prefix s t (length t + 1) \<longleftrightarrow> s = t"
proof (induction t arbitrary: s)
  case Nil
  then show ?case by (cases s) auto
next
  case (Cons c t)
  then show ?case by (cases s) auto
qed

lemma prefix_count:
  "count_upto (\<lambda>i. char_at e i = n ! i) (length n) = length n \<longleftrightarrow> take (length n) e = n" if "NUL \<notin> set n"
proof -
  have "(\<forall>i < length n. char_at e i = n ! i) \<longleftrightarrow> take (length n) e = n"
  proof
    assume a: "\<forall>i < length n. char_at e i = n ! i"
    have "length n \<le> length e"
    proof (rule ccontr)
      assume "\<not> length n \<le> length e"
      then have "char_at e (length e) = n ! length e" "length e < length n" using a by auto
      then show False using that by (auto simp: char_at_def dest: nth_mem)
    qed
    then show "take (length n) e = n" using a by (auto intro!: nth_equalityI simp: char_at_def)
  next
    assume t: "take (length n) e = n"
    then have "length n \<le> length e" by (metis length_take min.cobounded1 min_def nat_le_linear)
    then show "\<forall>i < length n. char_at e i = n ! i" using t by (metis char_at_def nth_take order_less_le_trans)
  qed
  then show ?thesis by (simp add: count_upto_full_iff)
qed

definition names :: "string \<Rightarrow> string \<Rightarrow> bool" where
  "names e n \<longleftrightarrow> (\<exists>v. e = n @ ''='' @ v)"

lemma names_iff: "take (length n) e = n \<and> char_at e (length n) = CHR ''='' \<longleftrightarrow> names e n"
proof
  assume a: "take (length n) e = n \<and> char_at e (length n) = CHR ''=''"
  then have "length n < length e" by (auto simp: char_at_def split: if_splits)
  then have "e = n @ CHR ''='' # drop (Suc (length n)) e" using a by (metis char_at_def id_take_nth_drop)
  then show "names e n" by (auto simp: names_def)
qed (auto simp: names_def char_at_def nth_append)

lemma entry_is_names: "NUL \<notin> set n \<Longrightarrow> entry_is e n (length n) \<longleftrightarrow> names e n"
  by (simp add: entry_is_def same_prefix_take flip: names_iff)

text \<open>The value of a name in a list of entries.\<close>

definition value_in :: "string list \<Rightarrow> string \<Rightarrow> string option" where
  "value_in es n = map_option (drop (length n + 1)) (List.find (\<lambda>e. names e n) es)"

definition env_value :: "'h env_state \<Rightarrow> string \<Rightarrow> string option" where
  "env_value s n = (case environ s of None \<Rightarrow> None | Some es \<Rightarrow> value_in es n)"

definition good_name :: "string \<Rightarrow> bool" where
  "good_name n \<longleftrightarrow> n \<noteq> [] \<and> CHR ''='' \<notin> set n \<and> NUL \<notin> set n"

lemma getenv_value: "good_name n \<Longrightarrow> getenv s (Some n) = env_value s n"
  by (auto simp: getenv_def env_value_def value_in_def good_name_def prefix_count names_iff split: option.splits)

lemma names_unique: "good_name m \<Longrightarrow> good_name n \<Longrightarrow> names e m \<Longrightarrow> names e n \<longleftrightarrow> m = n"
proof -
  have w: "takeWhile (\<lambda>c. c \<noteq> CHR ''='') e = n" if "good_name n" "names e n" for n
    using that by (auto simp: names_def good_name_def takeWhile_append)
  show "good_name m \<Longrightarrow> good_name n \<Longrightarrow> names e m \<Longrightarrow> names e n \<longleftrightarrow> m = n"
    using w by blast
qed

lemma value_in_simps:
  "value_in [] m = None"
  "value_in (e # es) m = (if names e m then Some (drop (length m + 1) e) else value_in es m)"
  by (simp_all add: value_in_def)

lemma value_in_append: "value_in (xs @ ys) m = (case value_in xs m of None \<Rightarrow> value_in ys m | Some v \<Rightarrow> Some v)"
  by (induction xs) (auto simp: value_in_simps)

lemma value_in_None: "value_in es m = None \<longleftrightarrow> (\<forall>e \<in> set es. \<not> names e m)"
  by (induction es) (auto simp: value_in_simps)

lemma names_entry: "good_name m \<Longrightarrow> good_name n \<Longrightarrow> names (n @ CHR ''='' # v) m \<longleftrightarrow> m = n"
proof -
  have "names (n @ CHR ''='' # v) n" by (simp add: names_def)
  then show "good_name m \<Longrightarrow> good_name n \<Longrightarrow> names (n @ CHR ''='' # v) m \<longleftrightarrow> m = n"
    using names_unique [of n m] by blast
qed

lemma value_in_entry: "good_name m \<Longrightarrow> good_name n \<Longrightarrow> value_in [n @ CHR ''='' # v] m = (if m = n then Some v else None)"
  by (simp add: value_in_simps names_entry)

text \<open>The three ways the array changes.\<close>

lemma value_in_replaced:
  assumes "good_name m" "good_name n" "names e n" "value_in pre n = None"
  shows "value_in (pre @ (n @ CHR ''='' # v) # post) m = (if m = n then Some v else value_in (pre @ e # post) m)"
  using assms names_unique [OF assms(2,1,3)]
  by (auto simp: value_in_append value_in_simps names_entry split: option.splits)

lemma value_in_added:
  assumes "good_name m" "good_name n" "value_in es n = None"
  shows "value_in (es @ [n @ CHR ''='' # v]) m = (if m = n then Some v else value_in es m)"
  using assms by (auto simp: value_in_append value_in_entry split: option.splits)

lemma value_in_removed:
  assumes "good_name m" "good_name n"
  shows "value_in (filter (\<lambda>e. \<not> names e n) es) m = (if m = n then None else value_in es m)"
  using names_unique [OF assms(2,1)] by (induction es) (auto simp: value_in_simps)

lemma find_entry_cases:
  assumes "good_name n"
  obtains (absent) "find_entry s n (length n) = None" "env_value s n = None"
  | (present) es pre e post where "environ s = Some es" "es = pre @ e # post" "names e n" "value_in pre n = None"
      "find_entry s n (length n) = Some (length pre)"
proof (cases "environ s")
  case None
  then show ?thesis using absent by (simp add: find_entry_def env_value_def)
next
  case (Some es)
  have nm: "entry_is (es ! i) n (length n) = names (es ! i) n" for i
    using assms by (simp add: entry_is_names good_name_def)
  show ?thesis
  proof (cases "find_entry s n (length n)")
    case None
    then have "\<forall>i < length es. \<not> names (es ! i) n" by (auto simp: find_entry_def Some nm find_None_iff)
    then have "env_value s n = None" by (auto simp: env_value_def Some value_in_None in_set_conv_nth)
    with None show ?thesis by (rule absent)
  next
    case i: (Some i)
    then have f: "List.find (\<lambda>i. names (es ! i) n) [0..<length es] = Some i" by (simp add: find_entry_def Some nm)
    then have 1: "i < length es" "names (es ! i) n" "\<And>j. j < i \<Longrightarrow> \<not> names (es ! j) n"
      by (auto simp: find_Some_iff)
    have "value_in (take i es) n = None" using 1 by (auto simp: value_in_None in_set_conv_nth)
    then show ?thesis
      using present [OF Some, of "take i es" "es ! i" "drop (Suc i) es"] 1 i by (simp add: id_take_nth_drop)
  qed
qed

section \<open>The operations on the map\<close>

definition entries :: "'h env_state \<Rightarrow> string list" where
  "entries s = (case environ s of None \<Rightarrow> [] | Some es \<Rightarrow> es)"

text \<open>The array never outgrows the memory it is in, and arrays of pointers fit the address space.\<close>

definition env_ok :: "'h env_state \<Rightarrow> bool" where
  "env_ok s \<longleftrightarrow> (is_own s \<longrightarrow> has_own s \<and> environ s \<noteq> None \<and> env_count s < own_cap s) \<and>
     env_count s * 8 < SIZE_MOD \<and> (has_own s \<longrightarrow> own_cap s * 8 < SIZE_MOD) \<and>
     (\<forall>e \<in> set (entries s). NUL \<notin> set e)"

lemma entries_simps: "env_count s = length (entries s)" "env_value s n = value_in (entries s) n"
  by (simp_all add: env_count_def env_value_def entries_def value_in_simps split: option.splits)

lemma ensure_room_cases:
  assumes "env_ok s" "ensure_room a (env_count s) s = (ok, s')"
  shows "env_ok s'" "entries s' = entries s"
    "ok \<Longrightarrow> environ s' \<noteq> None \<and> is_own s' \<and> has_own s' \<and> env_count s + 2 \<le> own_cap s'"
proof -
  let ?n = "env_count s + 2"
  define cap where "cap = (if (?n * 2) mod SIZE_MOD < 16 then 16 else (?n * 2) mod SIZE_MOD)"
  have c: "?n \<le> cap" "env_count s < cap" using assms(1) by (simp_all add: cap_def env_ok_def)
  have t: "take (env_count s) es = es" if "environ s = Some es" for es using that by (simp add: env_count_def)
  obtain ok' h where m: "e_malloc a (cap * 8) (env_heap s) = (ok', h)" by fastforce
  have "env_ok s' \<and> entries s' = entries s \<and> (ok \<longrightarrow> environ s' \<noteq> None \<and> is_own s' \<and> has_own s' \<and> ?n \<le> own_cap s')"
  proof (cases "environ s \<noteq> None \<and> is_own s \<and> own_cap s \<ge> ?n")
    case True
    then show ?thesis using assms by (simp add: ensure_room_def env_ok_def)
  next
    case f: False
    show ?thesis
    proof (cases "environ s = None \<and> has_own s \<and> own_cap s \<ge> ?n")
      case True
      then show ?thesis using assms by (auto simp: ensure_room_def env_ok_def env_count_def entries_def)
    next
      case False
      have "(ok, s') = (if cap > (SIZE_MOD - 1) div 8 then (False, s) else if \<not> ok' then (False, s\<lparr>env_heap := h\<rparr>)
          else (True, s\<lparr>environ := Some (case environ s of None \<Rightarrow> [] | Some es \<Rightarrow> take (env_count s) es),
            is_own := True, has_own := True, own_cap := cap, env_heap := h\<rparr>))"
        unfolding assms(2) [symmetric] ensure_room_def Let_def if_not_P [OF f] if_not_P [OF False] cap_def [symmetric] m prod.case ..
      then show ?thesis
        using assms(1) c t by (auto simp: env_ok_def env_count_def entries_def split: if_splits option.splits)
    qed
  qed
  then show "env_ok s'" "entries s' = entries s" "ok \<Longrightarrow> environ s' \<noteq> None \<and> is_own s' \<and> has_own s' \<and> ?n \<le> own_cap s'"
    by auto
qed

lemma append_entry_cases:
  assumes "env_ok s" "append_entry a e s = (ok, s')" "NUL \<notin> set e"
  shows "env_ok s'" "entries s' = (if ok then entries s @ [e] else entries s)"
proof -
  obtain ok1 s1 where r: "ensure_room a (env_count s) s = (ok1, s1)" by fastforce
  note c = ensure_room_cases [OF assms(1) r]
  have "env_ok s' \<and> entries s' = (if ok then entries s @ [e] else entries s)"
  proof (cases ok1)
    case True
    then obtain es where es: "environ s1 = Some es" "es = entries s" using c by (cases "environ s1") (auto simp: entries_def)
    have "ok" "s' = s1\<lparr>environ := Some (entries s @ [e])\<rparr>"
      using assms(2) True r es by (auto simp: append_entry_def entries_simps)
    moreover from this have "entries s' = entries s @ [e]" by (simp add: entries_def)
    ultimately show ?thesis using c True assms(3) by (auto simp: env_ok_def entries_simps(1))
  next
    case False
    then show ?thesis using assms(2) r c by (auto simp: append_entry_def)
  qed
  then show "env_ok s'" "entries s' = (if ok then entries s @ [e] else entries s)" by auto
qed

lemma setenv_cases:
  assumes ok: "env_ok s" and n: "good_name n" and v: "NUL \<notin> set v" and r: "setenv a (Some n) (Some v) ow s = (rc, e, s')"
  shows "env_ok s'"
    "(rc = 0 \<and> e = None \<and> (\<forall>m. good_name m \<longrightarrow>
        env_value s' m = (if m = n \<and> (ow \<noteq> 0 \<or> env_value s n = None) then Some v else env_value s m))) \<or>
     (rc = -1 \<and> e = Some 12 \<and> env_value s' = env_value s)"
proof -
  have vn: "valid_name (Some n) = Some (length n)" using n by (simp add: valid_name_def good_name_def)
  have entry: "take (length n) n @ ''='' @ v = n @ CHR ''='' # v" by simp
  have nul: "NUL \<notin> set (n @ CHR ''='' # v)" using n v by (simp add: good_name_def)
  obtain got h where m: "e_malloc a (length n + 1 + length v + 1) (env_heap s) = (got, h)" by fastforce
  let ?s1 = "s\<lparr>env_heap := h\<rparr>"
  have s1: "env_ok ?s1" "entries ?s1 = entries s" using ok by (simp_all add: env_ok_def entries_def env_count_def)
  let ?big = "length v > SIZE_MOD - 1 - length n - 2"
  have "env_ok s' \<and> ((rc = 0 \<and> e = None \<and> (\<forall>m. good_name m \<longrightarrow>
        env_value s' m = (if m = n \<and> (ow \<noteq> 0 \<or> env_value s n = None) then Some v else env_value s m))) \<or>
     (rc = -1 \<and> e = Some 12 \<and> env_value s' = env_value s))"
  proof (cases rule: find_entry_cases [OF n, of s, case_names absent present])
    case absent
    obtain ok2 s2 where ap: "append_entry a (n @ CHR ''='' # v) ?s1 = (ok2, s2)" by fastforce
    note c = append_entry_cases [OF s1(1) ap nul]
    have R: "(rc, e, s') = (if ?big then (-1, Some 12, s) else if \<not> got then (-1, Some 12, ?s1)
        else if \<not> ok2 then (-1, Some 12, s2\<lparr>env_heap := e_free a (env_heap s2)\<rparr>) else (0, None, s2))"
      unfolding r [symmetric] setenv_def vn prod.case option.case option.sel absent(1) Let_def m entry ap by simp
    have "env_ok (s2\<lparr>env_heap := x\<rparr>)" "entries (s2\<lparr>env_heap := x\<rparr>) = entries s2" for x
      using c(1) by (simp_all add: env_ok_def entries_def env_count_def)
    with R c s1 ok absent(2) show ?thesis
      by (auto simp: entries_simps(2) value_in_added n split: if_splits)
  next
    case (present es pre x post)
    have old: "the (environ s) ! length pre = x" using present by simp
    have x: "NUL \<notin> set x" using ok present by (auto simp: env_ok_def entries_def)
    obtain w where w: "x = n @ CHR ''='' # w" using present(3) by (auto simp: names_def)
    have same: "same_prefix (drop (length n + 1) x) v (length v + 1) \<longleftrightarrow> w = v"
      using x v w same_prefix_all [of w v] by simp
    have val: "env_value s n = Some w" using present w by (simp add: env_value_def value_in_append value_in_simps)
    let ?s2 = "?s1\<lparr>environ := Some (pre @ (n @ CHR ''='' # v) # post)\<rparr>"
    have R: "(rc, e, s') = (if ow = 0 then (0, None, s) else if w = v then (0, None, s) else if ?big then (-1, Some 12, s)
        else if \<not> got then (-1, Some 12, ?s1) else (0, None, ?s2))"
      unfolding r [symmetric] setenv_def vn prod.case option.case option.sel present(5) Let_def m entry old same
      by (simp add: present(1,2))
    have s2: "env_ok ?s2" using ok nul present(1,2) by (auto simp: env_ok_def entries_def env_count_def)
    have "env_value ?s2 m = (if m = n then Some v else env_value s m)" if "good_name m" for m
      using value_in_replaced [OF that n present(3,4), of v post] present(1,2) by (simp add: env_value_def)
    then show ?thesis using R s1 s2 ok val by (auto simp: entries_simps(2) split: if_splits)
  qed
  then show "env_ok s'" "(rc = 0 \<and> e = None \<and> (\<forall>m. good_name m \<longrightarrow>
        env_value s' m = (if m = n \<and> (ow \<noteq> 0 \<or> env_value s n = None) then Some v else env_value s m))) \<or>
     (rc = -1 \<and> e = Some 12 \<and> env_value s' = env_value s)" by auto
qed

lemma unsetenv_value:
  assumes "env_ok s" "good_name n"
  shows "unsetenv (Some n) s = (0, None, s\<lparr>environ := map_option (filter (\<lambda>e. \<not> names e n)) (environ s)\<rparr>)"
    "env_ok (s\<lparr>environ := map_option (filter (\<lambda>e. \<not> names e n)) (environ s)\<rparr>)"
    "good_name m \<Longrightarrow> env_value (s\<lparr>environ := map_option (filter (\<lambda>e. \<not> names e n)) (environ s)\<rparr>) m =
       (if m = n then None else env_value s m)"
proof -
  show "unsetenv (Some n) s = (0, None, s\<lparr>environ := map_option (filter (\<lambda>e. \<not> names e n)) (environ s)\<rparr>)"
    using assms(2) by (simp add: unsetenv_def valid_name_def good_name_def entry_is_names)
  show "env_ok (s\<lparr>environ := map_option (filter (\<lambda>e. \<not> names e n)) (environ s)\<rparr>)"
    using assms(1)
    by (auto simp: env_ok_def entries_def env_count_def split: option.splits intro: le_less_trans [OF length_filter_le])
  show "good_name m \<Longrightarrow> env_value (s\<lparr>environ := map_option (filter (\<lambda>e. \<not> names e n)) (environ s)\<rparr>) m =
      (if m = n then None else env_value s m)"
    using value_in_removed [OF _ assms(2)] by (cases "environ s") (simp_all add: env_value_def)
qed

lemma put_slot:
  assumes "good_name n"
  shows "takeWhile (\<lambda>c. c \<noteq> CHR ''='') (n @ CHR ''='' # v) = n"
    "find_entry s (n @ CHR ''='' # v) (length n) = find_entry s n (length n)"
proof -
  have nul: "NUL \<notin> set n" using assms by (simp add: good_name_def)
  have same: "same_prefix e (n @ r) (length n) = same_prefix e n (length n)" for e r
    using nul
  proof (induction n arbitrary: e)
    case (Cons c n)
    then show ?case by (cases e) auto
  qed simp
  show "takeWhile (\<lambda>c. c \<noteq> CHR ''='') (n @ CHR ''='' # v) = n"
    using assms by (auto simp: good_name_def takeWhile_append)
  show "find_entry s (n @ CHR ''='' # v) (length n) = find_entry s n (length n)"
    by (simp add: find_entry_def entry_is_def same split: option.splits)
qed

lemma putenv_cases:
  assumes ok: "env_ok s" and n: "good_name n" and v: "NUL \<notin> set v"
    and r: "putenv a (Some (n @ CHR ''='' # v)) s = (rc, e, s')"
  shows "env_ok s'"
    "(rc = 0 \<and> e = None \<and> (\<forall>m. good_name m \<longrightarrow> env_value s' m = (if m = n then Some v else env_value s m))) \<or>
     (rc = -1 \<and> e = Some 12 \<and> env_value s' = env_value s)"
proof -
  let ?t = "n @ CHR ''='' # v"
  have nul: "NUL \<notin> set ?t" using n v by (simp add: good_name_def)
  have eq: "\<not> CHR ''='' \<notin> set ?t" by simp
  note slot = put_slot(1) [OF n, of v] put_slot(2) [OF n, of s v]
  have "env_ok s' \<and> ((rc = 0 \<and> e = None \<and>
      (\<forall>m. good_name m \<longrightarrow> env_value s' m = (if m = n then Some v else env_value s m))) \<or>
     (rc = -1 \<and> e = Some 12 \<and> env_value s' = env_value s))"
  proof (cases rule: find_entry_cases [OF n, of s, case_names absent present])
    case absent
    obtain ok2 s2 where ap: "append_entry a ?t s = (ok2, s2)" by fastforce
    have R: "(rc, e, s') = (if \<not> ok2 then (-1, Some 12, s2) else (0, None, s2))"
      unfolding r [symmetric] putenv_def option.case if_not_P [OF eq] slot Let_def absent(1) ap prod.case ..
    show ?thesis
      using R append_entry_cases [OF ok ap nul] absent(2)
      by (auto simp: entries_simps(2) value_in_added n split: if_splits)
  next
    case (present es pre x post)
    let ?s2 = "s\<lparr>environ := Some (pre @ ?t # post)\<rparr>"
    have R: "(rc, e, s') = (0, None, ?s2)"
      unfolding r [symmetric] putenv_def option.case if_not_P [OF eq] slot Let_def present(5) by (simp add: present(1,2))
    have s2: "env_ok ?s2" using ok nul present(1,2) by (auto simp: env_ok_def entries_def env_count_def)
    have "env_value ?s2 m = (if m = n then Some v else env_value s m)" if "good_name m" for m
      using value_in_replaced [OF that n present(3,4), of v post] present(1,2) by (simp add: env_value_def)
    then show ?thesis using R s2 by auto
  qed
  then show "env_ok s'"
    "(rc = 0 \<and> e = None \<and> (\<forall>m. good_name m \<longrightarrow> env_value s' m = (if m = n then Some v else env_value s m))) \<or>
     (rc = -1 \<and> e = Some 12 \<and> env_value s' = env_value s)" by auto
qed

section \<open>The contract of an environment\<close>

text \<open>What \<open>getenv\<close> answers on every valid name: the abstract value of the environment.\<close>

definition env_map :: "'h env_state \<Rightarrow> string \<Rightarrow> string option" where
  "env_map s n = (if good_name n then getenv s (Some n) else None)"

lemma env_map_value: "env_map s n = (if good_name n then env_value s n else None)"
  by (simp add: env_map_def getenv_value)

text \<open>
  A client assigns and removes names and reads them back. The laws: an assignment that succeeds updates the
  map, one that fails leaves it, and a removal always takes the name out.
\<close>

fun assign_all :: "(string \<Rightarrow> string \<Rightarrow> 's \<Rightarrow> bool \<times> 's) \<Rightarrow> (string \<times> string) list \<Rightarrow> 's \<Rightarrow> bool \<times> 's" where
  "assign_all put [] s = (True, s)"
| "assign_all put ((n, v) # r) s = (case put n v s of (True, s') \<Rightarrow> assign_all put r s' | (False, s') \<Rightarrow> (False, s'))"

definition good_assignments :: "(string \<times> string) list \<Rightarrow> bool" where
  "good_assignments as \<longleftrightarrow> (\<forall>(n, v) \<in> set as. good_name n \<and> NUL \<notin> set v)"

locale environment =
  fixes inv :: "'s \<Rightarrow> bool"
    and view :: "'s \<Rightarrow> string \<Rightarrow> string option"
    and put :: "string \<Rightarrow> string \<Rightarrow> 's \<Rightarrow> bool \<times> 's"
    and del :: "string \<Rightarrow> 's \<Rightarrow> 's"
  assumes put_inv: "inv s \<Longrightarrow> good_name n \<Longrightarrow> NUL \<notin> set v \<Longrightarrow> inv (snd (put n v s))"
    and put_view: "inv s \<Longrightarrow> good_name n \<Longrightarrow> NUL \<notin> set v \<Longrightarrow>
      view (snd (put n v s)) = (if fst (put n v s) then (view s)(n \<mapsto> v) else view s)"
    and del_inv: "inv s \<Longrightarrow> good_name n \<Longrightarrow> inv (del n s)"
    and del_view: "inv s \<Longrightarrow> good_name n \<Longrightarrow> view (del n s) = (view s)(n := None)"
begin

lemma assign_all_view:
  assumes "inv s" "good_assignments as"
  shows "inv (snd (assign_all put as s)) \<and>
    (\<exists>k \<le> length as. view (snd (assign_all put as s)) = view s ++ map_of (rev (take k as)) \<and>
       (fst (assign_all put as s) \<longleftrightarrow> k = length as))"
  using assms
proof (induction as arbitrary: s)
  case Nil
  then show ?case by simp
next
  case (Cons nv r)
  obtain n v where nv: "nv = (n, v)" by (rule prod.exhaust)
  obtain ok s' where p: "put n v s = (ok, s')" by (rule prod.exhaust)
  have g: "good_name n" "NUL \<notin> set v" "good_assignments r" using Cons.prems nv by (auto simp: good_assignments_def)
  have s': "inv s'" "view s' = (if ok then (view s)(n \<mapsto> v) else view s)"
    using put_inv [OF Cons.prems(1) g(1,2)] put_view [OF Cons.prems(1) g(1,2)] p by simp_all
  show ?case
  proof (cases ok)
    case True
    obtain k where k: "k \<le> length r" "view (snd (assign_all put r s')) = view s' ++ map_of (rev (take k r))"
      "fst (assign_all put r s') \<longleftrightarrow> k = length r" and i: "inv (snd (assign_all put r s'))"
      using Cons.IH [OF s'(1) g(3)] by blast
    have "view (snd (assign_all put (nv # r) s)) = view s ++ map_of (rev (take (Suc k) (nv # r)))"
      using k(2) s'(2) True p nv by (simp add: map_add_upds)
    moreover have "fst (assign_all put (nv # r) s) \<longleftrightarrow> Suc k = length (nv # r)" using k(3) True p nv by simp
    ultimately show ?thesis using i k(1) True p nv by (intro conjI exI [of _ "Suc k"]) auto
  next
    case False
    then show ?thesis using s' p nv by (intro conjI exI [of _ 0]) auto
  qed
qed

lemma assigned_and_removed:
  assumes "inv s" "good_name n" "NUL \<notin> set v" "view s n = None"
  shows "view (del n (snd (put n v s))) = view s"
  using put_inv [OF assms(1-3)] put_view [OF assms(1-3)] del_view [of "snd (put n v s)" n] assms(2,4)
  by (simp add: fun_upd_idem)

end

text \<open>The two ways a program assigns a name: \<open>setenv\<close> with overwriting, and \<open>putenv\<close> of a string of its own.\<close>

definition set_name :: "'h env_alloc \<Rightarrow> string \<Rightarrow> string \<Rightarrow> 'h env_state \<Rightarrow> bool \<times> 'h env_state" where
  "set_name a n v s = (let (rc, _, s') = setenv a (Some n) (Some v) 1 s in (rc = 0, s'))"

definition put_name :: "'h env_alloc \<Rightarrow> string \<Rightarrow> string \<Rightarrow> 'h env_state \<Rightarrow> bool \<times> 'h env_state" where
  "put_name a n v s = (let (rc, _, s') = putenv a (Some (n @ CHR ''='' # v)) s in (rc = 0, s'))"

definition remove_name :: "string \<Rightarrow> 'h env_state \<Rightarrow> 'h env_state" where
  "remove_name n s = snd (snd (unsetenv (Some n) s))"

lemma remove_name_env:
  assumes "env_ok s" "good_name n"
  shows "env_ok (remove_name n s)" "env_map (remove_name n s) = (env_map s)(n := None)"
  using unsetenv_value [OF assms] assms(2) by (auto simp: remove_name_def env_map_value fun_eq_iff)

lemma set_name_env:
  assumes "env_ok s" "good_name n" "NUL \<notin> set v"
  shows "env_ok (snd (set_name a n v s))"
    "env_map (snd (set_name a n v s)) = (if fst (set_name a n v s) then (env_map s)(n \<mapsto> v) else env_map s)"
proof -
  obtain rc e s' where r: "setenv a (Some n) (Some v) 1 s = (rc, e, s')" by (rule prod_cases3)
  note c = setenv_cases [OF assms r]
  show "env_ok (snd (set_name a n v s))" using c(1) by (simp add: set_name_def r)
  show "env_map (snd (set_name a n v s)) = (if fst (set_name a n v s) then (env_map s)(n \<mapsto> v) else env_map s)"
    using c(2) assms(2) by (auto simp: set_name_def r env_map_value fun_eq_iff)
qed

lemma put_name_env:
  assumes "env_ok s" "good_name n" "NUL \<notin> set v"
  shows "env_ok (snd (put_name a n v s))"
    "env_map (snd (put_name a n v s)) = (if fst (put_name a n v s) then (env_map s)(n \<mapsto> v) else env_map s)"
proof -
  obtain rc e s' where r: "putenv a (Some (n @ CHR ''='' # v)) s = (rc, e, s')" by (rule prod_cases3)
  note c = putenv_cases [OF assms r]
  show "env_ok (snd (put_name a n v s))" using c(1) by (simp add: put_name_def r)
  show "env_map (snd (put_name a n v s)) = (if fst (put_name a n v s) then (env_map s)(n \<mapsto> v) else env_map s)"
    using c(2) assms(2) by (auto simp: put_name_def r env_map_value fun_eq_iff)
qed

interpretation env_set: environment env_ok env_map "set_name a" remove_name
  by unfold_locales (auto simp: set_name_env remove_name_env)

interpretation env_put: environment env_ok env_map "put_name a" remove_name
  by unfold_locales (auto simp: put_name_env remove_name_env)

text \<open>
  C13. The environment is the map \<open>getenv\<close> reads, on valid names and C strings: \<open>setenv\<close> either updates
  it at the name (unless the name is bound and overwriting is off) and returns 0, or fails with ENOMEM and
  leaves it; \<open>putenv\<close> of \<open>name=value\<close> does the same with overwriting; \<open>unsetenv\<close> removes the name
  even where the array that arrived binds it twice; \<open>clearenv\<close> empties the map; an invalid name or a null value
  is EINVAL and changes nothing. Every call keeps the array inside the memory it is in.
\<close>

theorem environment_refines_map:
  assumes "env_ok s" "good_name n" "NUL \<notin> set v"
  shows "(case setenv a (Some n) (Some v) ow s of (rc, e, s') \<Rightarrow> env_ok s' \<and>
        ((rc, e) = (0, None) \<and> env_map s' = (if ow \<noteq> 0 \<or> env_map s n = None then (env_map s)(n \<mapsto> v) else env_map s) \<or>
         (rc, e) = (-1, Some 12) \<and> env_map s' = env_map s)) \<and>
     (case putenv a (Some (n @ ''='' @ v)) s of (rc, e, s') \<Rightarrow> env_ok s' \<and>
        ((rc, e) = (0, None) \<and> env_map s' = (env_map s)(n \<mapsto> v) \<or> (rc, e) = (-1, Some 12) \<and> env_map s' = env_map s)) \<and>
     (case unsetenv (Some n) s of (rc, e, s') \<Rightarrow> env_ok s' \<and> (rc, e) = (0, None) \<and> env_map s' = (env_map s)(n := None)) \<and>
     env_ok (snd (clearenv s)) \<and> env_map (snd (clearenv s)) = Map.empty \<and>
     setenv a (Some (n @ ''='' @ v)) w ow s = (-1, Some 22, s) \<and> setenv a (Some n) None ow s = (-1, Some 22, s) \<and>
     unsetenv (Some []) s = (-1, Some 22, s)"
proof (intro conjI)
  show "case setenv a (Some n) (Some v) ow s of (rc, e, s') \<Rightarrow> env_ok s' \<and>
        ((rc, e) = (0, None) \<and> env_map s' = (if ow \<noteq> 0 \<or> env_map s n = None then (env_map s)(n \<mapsto> v) else env_map s) \<or>
         (rc, e) = (-1, Some 12) \<and> env_map s' = env_map s)"
  proof -
    obtain rc e s' where r: "setenv a (Some n) (Some v) ow s = (rc, e, s')" by (rule prod_cases3)
    from setenv_cases [OF assms r] show ?thesis using assms(2) by (auto simp: r env_map_value fun_eq_iff)
  qed
  show "case putenv a (Some (n @ ''='' @ v)) s of (rc, e, s') \<Rightarrow> env_ok s' \<and>
        ((rc, e) = (0, None) \<and> env_map s' = (env_map s)(n \<mapsto> v) \<or> (rc, e) = (-1, Some 12) \<and> env_map s' = env_map s)"
  proof -
    obtain rc e s' where r: "putenv a (Some (n @ CHR ''='' # v)) s = (rc, e, s')" by (rule prod_cases3)
    from putenv_cases [OF assms r] show ?thesis using assms(2) by (auto simp: r env_map_value fun_eq_iff)
  qed
  show "case unsetenv (Some n) s of (rc, e, s') \<Rightarrow> env_ok s' \<and> (rc, e) = (0, None) \<and> env_map s' = (env_map s)(n := None)"
    using remove_name_env [OF assms(1,2)] unsetenv_value(1) [OF assms(1,2)] by (simp add: remove_name_def)
  show "env_ok (snd (clearenv s))" using assms(1) by (simp add: clearenv_def env_ok_def env_count_def entries_def)
  show "env_map (snd (clearenv s)) = Map.empty" by (simp add: clearenv_def env_map_value env_value_def fun_eq_iff)
  show "setenv a (Some (n @ ''='' @ v)) w ow s = (-1, Some 22, s)" by (simp add: setenv_def valid_name_def)
  show "setenv a (Some n) None ow s = (-1, Some 22, s)" by (simp add: setenv_def split: option.splits)
  show "unsetenv (Some []) s = (-1, Some 22, s)" by (simp add: unsetenv_def valid_name_def)
qed

text \<open>An environment that arrived with a name bound twice, and an allocator with room for three blocks.\<close>

definition arrived :: "nat env_state" where
  "arrived = \<lparr>environ = Some [''A=1'', ''B=2'', ''A=3''], is_own = False, has_own = False, own_cap = 0, env_heap = 3\<rparr>"

definition three_blocks :: "nat env_alloc" where
  "three_blocks = \<lparr>e_malloc = (\<lambda>_ h. if h = 0 then (False, 0) else (True, h - 1)), e_free = Suc\<rparr>"

lemma names_code: "names e n \<longleftrightarrow> take (length n) e = n \<and> char_at e (length n) = CHR ''=''"
  by (simp add: names_iff)

lemmas env_run = setenv_def valid_name_def find_entry_def entry_is_def append_entry_def ensure_room_def Let_def
  env_count_def arrived_def three_blocks_def char_at_def

lemma arrived_ok: "env_ok arrived"
  by (simp add: env_ok_def arrived_def env_count_def entries_def)

theorem environment_refines_map_witness:
  "env_map (snd (snd (unsetenv (Some ''A'') arrived))) ''A'' = None \<and>
   env_map (snd (snd (setenv three_blocks (Some ''C'') (Some ''x'') 0 arrived))) ''C'' = Some ''x''"
proof -
  have ok: "good_name ''A''" "good_name ''C''" "NUL \<notin> set ''x''" by (simp_all add: good_name_def)
  obtain rc e s' where r: "setenv three_blocks (Some ''C'') (Some ''x'') 0 arrived = (rc, e, s')" by (rule prod_cases3)
  obtain rc2 e2 s2 where u: "unsetenv (Some ''A'') arrived = (rc2, e2, s2)" by (rule prod_cases3)
  have "fst (setenv three_blocks (Some ''C'') (Some ''x'') 0 arrived) = 0" by (simp add: env_run)
  then have "rc = 0" using r by simp
  moreover have "env_map arrived ''C'' = None"
    by (simp add: env_map_value env_value_def arrived_def value_in_simps names_code char_at_def)
  ultimately show ?thesis
    using environment_refines_map [OF arrived_ok ok(1,3), where a = three_blocks]
      environment_refines_map [OF arrived_ok ok(2,3), where a = three_blocks and ow = 0]
    unfolding r u prod.case by simp
qed

text \<open>
  A program that assigns a list of names in turn, stopping at the first failure, ends with the
  environment it started with overridden by the assignments made, later ones winning; all were made exactly when
  every call succeeded. It holds of \<open>setenv\<close> with overwriting and of \<open>putenv\<close>.
\<close>

theorem assignments_in_order:
  assumes "env_ok s" "good_assignments as" "put = set_name a \<or> put = put_name a"
  shows "env_ok (snd (assign_all put as s)) \<and>
    (\<exists>k \<le> length as. env_map (snd (assign_all put as s)) = env_map s ++ map_of (rev (take k as)) \<and>
       (fst (assign_all put as s) \<longleftrightarrow> k = length as))"
  using assms(3) env_set.assign_all_view [OF assms(1,2)] env_put.assign_all_view [OF assms(1,2)] by auto

theorem assignments_in_order_witness:
  "env_map (snd (assign_all (set_name three_blocks) [(''A'', ''9''), (''A'', ''8'')] arrived)) ''A'' = Some ''8''"
proof -
  have ok: "good_assignments [(''A'', ''9''), (''A'', ''8'')]" by (simp add: good_assignments_def good_name_def)
  have all: "fst (assign_all (set_name three_blocks) [(''A'', ''9''), (''A'', ''8'')] arrived)"
    by (simp add: set_name_def env_run)
  show ?thesis
    using assignments_in_order [OF arrived_ok ok, of "set_name three_blocks" three_blocks] all by auto
qed

end
