(* ===== verification/Getopt.thy ===== *)
theory Getopt
  imports Env "HOL-Library.Multiset"
begin

text \<open>
  Command line options: \<open>lib/moqi_libc/src/getopt.c\<close>. The state holds the public variables, the
  static ones, the argument array that the calls permute, the integers the long options' flags point to,
  the index reported for a long option, and what was written to the standard error output, one string for each write.
  A pointer into a string is the rest of the string from there, which is all the code reads through it; an
  array index past the end reads as the empty string. The number of arguments is the length of the array.
\<close>

section \<open>State\<close>

datatype go_order = REQUIRE_ORDER | PERMUTE | RETURN_IN_ORDER

record long_option =
  lo_name :: string
  has_arg :: int
  lo_flag :: "nat option"
  lo_val :: int

record go_state =
  optarg :: "string option"
  optind :: nat
  opterr :: int
  optopt :: int
  initialized :: bool
  first_nonopt :: nat
  last_nonopt :: nat
  ordering :: go_order
  nextchar :: "string option"
  st_optopt :: int
  args :: "string list"
  flags :: "nat \<Rightarrow> int"
  longind_at :: int
  errout :: "string list"

definition go_init :: "string list \<Rightarrow> go_state" where
  "go_init av = \<lparr>optarg = None, optind = 1, opterr = 1, optopt = 0, initialized = False, first_nonopt = 0,
     last_nonopt = 0, ordering = REQUIRE_ORDER, nextchar = None, st_optopt = 0, args = av, flags = (\<lambda>_. 0),
     longind_at = 0, errout = []\<rparr>"

definition arg_at :: "string list \<Rightarrow> nat \<Rightarrow> string" where
  "arg_at av i = (if i < length av then av ! i else [])"

definition NONOPTION_P :: "string list \<Rightarrow> nat \<Rightarrow> bool" where
  "NONOPTION_P av i \<longleftrightarrow> char_at (arg_at av i) 0 \<noteq> CHR ''-'' \<or> char_at (arg_at av i) 1 = NUL"

section \<open>Permuting the arguments\<close>

primrec swap_range :: "nat \<Rightarrow> 'a list \<Rightarrow> nat \<Rightarrow> nat \<Rightarrow> 'a list" where
  "swap_range 0 xs i j = xs"
| "swap_range (Suc n) xs i j = swap_range n (xs[i := xs ! j, j := xs ! i]) (i + 1) (j + 1)"

function exchange_loop :: "'a list \<Rightarrow> nat \<Rightarrow> nat \<Rightarrow> nat \<Rightarrow> 'a list" where
  "exchange_loop xs bottom middle tp =
     (if tp > middle \<and> middle > bottom then
        if tp - middle > middle - bottom
        then exchange_loop (swap_range (middle - bottom) xs bottom (tp - (middle - bottom))) bottom middle
               (tp - (middle - bottom))
        else exchange_loop (swap_range (tp - middle) xs bottom middle) (bottom + (tp - middle)) middle tp
      else xs)"
  by pat_completeness auto
termination by (relation "measure (\<lambda>(xs, b, m, t). t - b)") auto

declare exchange_loop.simps [simp del]

definition go_exchange :: "go_state \<Rightarrow> go_state" where
  "go_exchange s =
     s\<lparr>args := exchange_loop (args s) (first_nonopt s) (last_nonopt s) (optind s),
       first_nonopt := first_nonopt s + (optind s - last_nonopt s), last_nonopt := optind s\<rparr>"

section \<open>Strings and diagnostics\<close>

fun go_strchr :: "string \<Rightarrow> char \<Rightarrow> string option" where
  "go_strchr [] c = None"
| "go_strchr (x # s) c = (if x = c then Some (x # s) else go_strchr s c)"

text \<open>The buffer of a message keeps two bytes free, one of them for the line end.\<close>

definition msg_add :: "string \<Rightarrow> string \<Rightarrow> string" where
  "msg_add m t = m @ take (510 - length m) t"

definition msg_addc :: "string \<Rightarrow> char \<Rightarrow> string" where
  "msg_addc m c = (if length m < 510 then m @ [c] else m)"

definition msg_flush :: "string \<Rightarrow> go_state \<Rightarrow> go_state" where
  "msg_flush m s = s\<lparr>errout := errout s @ [m @ [CHR 0x0A]]\<rparr>"

definition go_report :: "string \<Rightarrow> string \<Rightarrow> char \<Rightarrow> go_state \<Rightarrow> go_state" where
  "go_report prog what c s =
     msg_flush (msg_addc (msg_addc (msg_add (msg_add (msg_add (msg_add [] prog) '': '') what) ('' -- '' @ [CHR 0x27])) c)
       (CHR 0x27)) s"

definition go_report_long :: "string \<Rightarrow> string \<Rightarrow> string \<Rightarrow> string \<Rightarrow> go_state \<Rightarrow> go_state" where
  "go_report_long prog prefix name what s =
     (let m = msg_add (msg_add [] prog) '': '' in
      msg_flush
        (if char_at what 0 = CHR ''u''
         then msg_addc (msg_add (msg_add (msg_add (msg_add m what) ('' '' @ [CHR 0x27])) prefix) name) (CHR 0x27)
         else msg_add (msg_add (msg_add (msg_add (msg_add m (''option '' @ [CHR 0x27])) prefix) name) ([CHR 0x27] @ '' '')) what) s)"

section \<open>Long options\<close>

fun go_strncmp :: "string \<Rightarrow> string \<Rightarrow> nat \<Rightarrow> int" where
  "go_strncmp a b 0 = 0"
| "go_strncmp a b (Suc n) =
     (if char_at a 0 \<noteq> char_at b 0 then ub (char_at a 0) - ub (char_at b 0)
      else if char_at a 0 = NUL then 0 else go_strncmp (tl a) (tl b) n)"

definition is_prefix_match :: "long_option \<Rightarrow> string \<Rightarrow> nat \<Rightarrow> bool" where
  "is_prefix_match p t len \<longleftrightarrow> go_strncmp (lo_name p) t len = 0"

fun exact_match :: "long_option list \<Rightarrow> string \<Rightarrow> nat \<Rightarrow> int \<Rightarrow> (long_option \<times> int) option" where
  "exact_match [] t namelen i = None"
| "exact_match (p # ps) t namelen i =
     (if is_prefix_match p t namelen \<and> namelen = length (lo_name p) then Some (p, i)
      else exact_match ps t namelen (i + 1))"

definition differs :: "bool \<Rightarrow> long_option \<Rightarrow> long_option \<Rightarrow> bool" where
  "differs long_only f p \<longleftrightarrow> long_only \<or> has_arg f \<noteq> has_arg p \<or> lo_flag f \<noteq> lo_flag p \<or> lo_val f \<noteq> lo_val p"

fun abbreviation_match ::
    "bool \<Rightarrow> long_option list \<Rightarrow> string \<Rightarrow> nat \<Rightarrow> int \<Rightarrow> (long_option \<times> int) option \<Rightarrow> bool \<Rightarrow> (long_option \<times> int) option \<times> bool" where
  "abbreviation_match lonly [] t namelen i found amb = (found, amb)"
| "abbreviation_match lonly (p # ps) t namelen i found amb =
     (if \<not> is_prefix_match p t namelen then abbreviation_match lonly ps t namelen (i + 1) found amb
      else case found of
          None \<Rightarrow> abbreviation_match lonly ps t namelen (i + 1) (Some (p, i)) amb
        | Some (f, _) \<Rightarrow> abbreviation_match lonly ps t namelen (i + 1) found (amb \<or> differs lonly f p))"

fun possibilities :: "bool \<Rightarrow> string \<Rightarrow> long_option list \<Rightarrow> string \<Rightarrow> nat \<Rightarrow> long_option option \<Rightarrow> string \<Rightarrow> string" where
  "possibilities lonly prefix [] t namelen first m = m"
| "possibilities lonly prefix (p # ps) t namelen first m =
     (if \<not> is_prefix_match p t namelen then possibilities lonly prefix ps t namelen first m
      else possibilities lonly prefix ps t namelen (if first = None then Some p else first)
        (if first = None \<or> differs lonly (the first) p
         then msg_addc (msg_add (msg_add (msg_add m ('' '' @ [CHR 0x27])) prefix) (lo_name p)) (CHR 0x27) else m))"

definition report_ambiguous :: "bool \<Rightarrow> string \<Rightarrow> long_option list \<Rightarrow> string \<Rightarrow> nat \<Rightarrow> go_state \<Rightarrow> go_state" where
  "report_ambiguous lonly prefix longopts t namelen s =
     msg_flush (possibilities lonly prefix longopts t namelen None
       (msg_add (msg_add (msg_add (msg_add (msg_add [] (arg_at (args s) 0)) ('': option '' @ [CHR 0x27])) prefix) t)
         ([CHR 0x27] @ '' is ambiguous; possibilities:''))) s"

definition set_optopt :: "int \<Rightarrow> go_state \<Rightarrow> go_state" where
  "set_optopt v s = s\<lparr>st_optopt := v, optopt := v\<rparr>"

definition missing :: "string \<Rightarrow> int" where
  "missing optstring = (if char_at optstring 0 = CHR '':'' then ub (CHR '':'') else ub (CHR ''?''))"

text \<open>The option that was found is consumed: its argument, if any, and the way its value is handed back.\<close>

definition hand_back :: "bool \<Rightarrow> long_option \<Rightarrow> int \<Rightarrow> go_state \<Rightarrow> int \<times> go_state" where
  "hand_back want_index p i s0 =
     (let s = (if want_index then s0\<lparr>longind_at := i\<rparr> else s0) in
      case lo_flag p of
        Some f \<Rightarrow> (0, s\<lparr>flags := (flags s)(f := lo_val p)\<rparr>)
      | None \<Rightarrow> (lo_val p, s))"

definition long_wrong :: "bool \<Rightarrow> string \<Rightarrow> long_option \<Rightarrow> string \<Rightarrow> go_state \<Rightarrow> go_state" where
  "long_wrong print_errors prefix p what s =
     set_optopt (lo_val p) (if print_errors then go_report_long (arg_at (args s) 0) prefix (lo_name p) what s else s)"

definition take_long_option ::
    "string \<Rightarrow> bool \<Rightarrow> bool \<Rightarrow> string \<Rightarrow> string \<Rightarrow> long_option \<Rightarrow> int \<Rightarrow> go_state \<Rightarrow> int \<times> go_state" where
  "take_long_option optstring want_index print_errors prefix nameend p i s0 =
     (let s = s0\<lparr>optind := optind s0 + 1, nextchar := None\<rparr> in
      if nameend \<noteq> [] then
        if has_arg p \<noteq> 0 then hand_back want_index p i (s\<lparr>optarg := Some (tl nameend)\<rparr>)
        else (ub (CHR ''?''), long_wrong print_errors prefix p (''doesn'' @ [CHR 0x27] @ ''t allow an argument'') s)
      else if has_arg p = 1 then
        if optind s < length (args s)
        then hand_back want_index p i (s\<lparr>optarg := Some (arg_at (args s) (optind s)), optind := optind s + 1\<rparr>)
        else (missing optstring, long_wrong print_errors prefix p ''requires an argument'' s)
      else hand_back want_index p i s)"

definition process_long_option ::
    "string \<Rightarrow> long_option list \<Rightarrow> bool \<Rightarrow> bool \<Rightarrow> bool \<Rightarrow> string \<Rightarrow> go_state \<Rightarrow> int \<times> go_state" where
  "process_long_option optstring longopts want_index lonly print_errors prefix s =
     (let t = the (nextchar s); namelen = length (takeWhile (\<lambda>c. c \<noteq> CHR ''='') t); nameend = drop namelen t;
          unknown = (if \<not> lonly \<or> char_at (arg_at (args s) (optind s)) 1 = CHR ''-'' \<or> go_strchr optstring (char_at t 0) = None
            then (let s1 = (if print_errors then go_report_long (arg_at (args s) 0) prefix t ''unrecognized option'' s else s) in
                  (ub (CHR ''?''), set_optopt 0 (s1\<lparr>nextchar := None, optind := optind s1 + 1\<rparr>)))
            else (-1, s)) in
      case exact_match longopts t namelen 0 of
        Some (p, i) \<Rightarrow> take_long_option optstring want_index print_errors prefix nameend p i s
      | None \<Rightarrow>
          (let (found, ambiguous) = abbreviation_match lonly longopts t namelen 0 None False in
           if ambiguous then
             (let s1 = (if print_errors then report_ambiguous lonly prefix longopts t namelen s else s) in
              (ub (CHR ''?''), set_optopt 0 (s1\<lparr>nextchar := Some [], optind := optind s1 + 1\<rparr>)))
           else case found of
               Some (p, i) \<Rightarrow> take_long_option optstring want_index print_errors prefix nameend p i s
             | None \<Rightarrow> unknown))"

section \<open>One call\<close>

definition posixly_correct :: "'h env_state \<Rightarrow> bool" where
  "posixly_correct e \<longleftrightarrow> getenv e (Some ''POSIXLY_CORRECT'') \<noteq> None"

text \<open>The first call, or one after the program has set \<open>optind\<close> to zero, chooses the ordering.\<close>

definition begin_scan :: "bool \<Rightarrow> string \<Rightarrow> go_state \<Rightarrow> string \<times> go_state" where
  "begin_scan posix optstring s =
     (if optind s = 0 \<or> \<not> initialized s then
        (let ind = (if optind s = 0 then 1 else optind s);
             s1 = s\<lparr>optind := ind, first_nonopt := ind, last_nonopt := ind, nextchar := None, initialized := True\<rparr> in
         if char_at optstring 0 = CHR ''-'' then (tl optstring, s1\<lparr>ordering := RETURN_IN_ORDER\<rparr>)
         else if char_at optstring 0 = CHR ''+'' then (tl optstring, s1\<lparr>ordering := REQUIRE_ORDER\<rparr>)
         else if posix then (optstring, s1\<lparr>ordering := REQUIRE_ORDER\<rparr>)
         else (optstring, s1\<lparr>ordering := PERMUTE\<rparr>))
      else if char_at optstring 0 = CHR ''-'' \<or> char_at optstring 0 = CHR ''+'' then (tl optstring, s)
      else (optstring, s))"

function skip_nonoptions :: "string list \<Rightarrow> nat \<Rightarrow> nat" where
  "skip_nonoptions av i = (if i < length av \<and> NONOPTION_P av i then skip_nonoptions av (i + 1) else i)"
  by pat_completeness auto
termination by (relation "measure (\<lambda>(av, i). length av - i)") auto

declare skip_nonoptions.simps [simp del]

definition sensible :: "go_state \<Rightarrow> go_state" where
  "sensible s = s\<lparr>last_nonopt := min (last_nonopt s) (optind s), first_nonopt := min (first_nonopt s) (optind s)\<rparr>"

definition permute :: "go_state \<Rightarrow> go_state" where
  "permute s =
     (if ordering s = PERMUTE then
        (let s1 = (if first_nonopt s \<noteq> last_nonopt s \<and> last_nonopt s \<noteq> optind s then go_exchange s
                   else if last_nonopt s \<noteq> optind s then s\<lparr>first_nonopt := optind s\<rparr> else s);
             i = skip_nonoptions (args s1) (optind s1) in s1\<lparr>optind := i, last_nonopt := i\<rparr>)
      else s)"

definition is_terminator :: "string \<Rightarrow> bool" where
  "is_terminator a \<longleftrightarrow> char_at a 0 = CHR ''-'' \<and> char_at a 1 = CHR ''-'' \<and> char_at a 2 = NUL"

definition end_options :: "go_state \<Rightarrow> go_state" where
  "end_options s =
     (if optind s \<noteq> length (args s) \<and> is_terminator (arg_at (args s) (optind s)) then
        (let s0 = s\<lparr>optind := optind s + 1\<rparr>;
             s1 = (if first_nonopt s0 \<noteq> last_nonopt s0 \<and> last_nonopt s0 \<noteq> optind s0 then go_exchange s0
                   else if first_nonopt s0 = last_nonopt s0 then s0\<lparr>first_nonopt := optind s0\<rparr> else s0) in
         s1\<lparr>last_nonopt := length (args s1), optind := length (args s1)\<rparr>)
      else s)"

definition publish :: "go_state \<Rightarrow> go_state" where
  "publish s = s\<lparr>optopt := st_optopt s\<rparr>"

text \<open>The next element of the arguments: the result of the call, or none when a short option is to be read.\<close>

definition next_element ::
    "string \<Rightarrow> long_option list option \<Rightarrow> bool \<Rightarrow> bool \<Rightarrow> bool \<Rightarrow> go_state \<Rightarrow> int option \<times> go_state" where
  "next_element optstring longopts want_index lonly print_errors s0 =
     (let s = end_options (permute (sensible s0)); a = arg_at (args s) (optind s);
          short = (\<lambda>s. (None, s\<lparr>nextchar := Some (tl (arg_at (args s) (optind s)))\<rparr>)) in
      if optind s = length (args s) then
        (Some (-1), publish (if first_nonopt s \<noteq> last_nonopt s then s\<lparr>optind := first_nonopt s\<rparr> else s))
      else if NONOPTION_P (args s) (optind s) then
        if ordering s = REQUIRE_ORDER then (Some (-1), publish s)
        else (Some 1, publish (s\<lparr>optarg := Some a, optind := optind s + 1\<rparr>))
      else case longopts of
          None \<Rightarrow> short s
        | Some ls \<Rightarrow>
            if char_at a 1 = CHR ''-'' then
              (let (r, s') = process_long_option optstring ls want_index lonly print_errors ''--''
                     (s\<lparr>nextchar := Some (drop 2 a)\<rparr>) in (Some r, s'))
            else if lonly \<and> (char_at a 2 \<noteq> NUL \<or> go_strchr optstring (char_at a 1) = None) then
              (let (r, s') = process_long_option optstring ls want_index lonly print_errors ''-''
                     (s\<lparr>nextchar := Some (tl a)\<rparr>) in if r \<noteq> -1 then (Some r, s') else short s')
            else short s)"

definition short_option :: "string \<Rightarrow> long_option list option \<Rightarrow> bool \<Rightarrow> bool \<Rightarrow> go_state \<Rightarrow> int \<times> go_state" where
  "short_option optstring longopts want_index print_errors s0 =
     (let c = char_at (the (nextchar s0)) 0; rest = tl (the (nextchar s0)); temp = go_strchr optstring c;
          s = s0\<lparr>nextchar := Some rest, optind := (if rest = [] then optind s0 + 1 else optind s0)\<rparr>;
          report = (\<lambda>what s. if print_errors then go_report (arg_at (args s) 0) what c s else s);
          wrong = (\<lambda>what ret s. (ret, set_optopt (ub c) (report what s))) in
      case temp of
        None \<Rightarrow> wrong ''invalid option'' (ub (CHR ''?'')) s
      | Some t \<Rightarrow>
          if c = CHR '':'' \<or> c = CHR '';'' then wrong ''invalid option'' (ub (CHR ''?'')) s
          else if char_at t 0 = CHR ''W'' \<and> char_at t 1 = CHR '';'' \<and> longopts \<noteq> None then
            if rest = [] \<and> optind s = length (args s) then wrong ''option requires an argument'' (missing optstring) s
            else process_long_option optstring (the longopts) want_index False print_errors ''-W ''
                   (s\<lparr>nextchar := Some (if rest \<noteq> [] then rest else arg_at (args s) (optind s)), optarg := None\<rparr>)
          else if char_at t 1 = CHR '':'' then
            if char_at t 2 = CHR '':'' then
              (ub c, publish (if rest \<noteq> [] then s\<lparr>optarg := Some rest, optind := optind s + 1, nextchar := None\<rparr>
                              else s\<lparr>optarg := None, nextchar := None\<rparr>))
            else if rest \<noteq> [] then (ub c, publish (s\<lparr>optarg := Some rest, optind := optind s + 1, nextchar := None\<rparr>))
            else if optind s = length (args s) then
              (missing optstring, publish ((report ''option requires an argument'' s)\<lparr>st_optopt := ub c, nextchar := None\<rparr>))
            else (ub c, publish (s\<lparr>optarg := Some (arg_at (args s) (optind s)), optind := optind s + 1, nextchar := None\<rparr>))
          else (ub c, publish s))"

definition getopt_scan ::
    "'h env_state \<Rightarrow> string \<Rightarrow> long_option list option \<Rightarrow> bool \<Rightarrow> bool \<Rightarrow> go_state \<Rightarrow> int \<times> go_state" where
  "getopt_scan e optstring0 longopts want_index lonly s0 =
     (let s1 = s0\<lparr>optarg := None\<rparr> in
      if length (args s1) < 1 then (-1, s1)
      else let (optstring, s) = begin_scan (posixly_correct e) optstring0 s1;
               print_errors = (opterr s \<noteq> 0 \<and> char_at optstring 0 \<noteq> CHR '':'') in
        if nextchar s = None \<or> nextchar s = Some [] then
          (case next_element optstring longopts want_index lonly print_errors s of
             (Some r, s') \<Rightarrow> (r, s')
           | (None, s') \<Rightarrow> short_option optstring longopts want_index print_errors s')
        else short_option optstring longopts want_index print_errors s)"

definition getopt_internal ::
    "'h env_state \<Rightarrow> string \<Rightarrow> long_option list option \<Rightarrow> bool \<Rightarrow> bool \<Rightarrow> go_state \<Rightarrow> int \<times> go_state" where
  "getopt_internal e optstring longopts want_index lonly s =
     (let (r, s') = getopt_scan e optstring longopts want_index lonly s in (r, publish s'))"

definition getopt :: "'h env_state \<Rightarrow> string \<Rightarrow> go_state \<Rightarrow> int \<times> go_state" where
  "getopt e optstring s = getopt_internal e optstring None False False s"

definition getopt_long :: "'h env_state \<Rightarrow> string \<Rightarrow> long_option list option \<Rightarrow> bool \<Rightarrow> go_state \<Rightarrow> int \<times> go_state" where
  "getopt_long e optstring longopts want_index s = getopt_internal e optstring longopts want_index False s"

definition getopt_long_only :: "'h env_state \<Rightarrow> string \<Rightarrow> long_option list option \<Rightarrow> bool \<Rightarrow> go_state \<Rightarrow> int \<times> go_state" where
  "getopt_long_only e optstring longopts want_index s = getopt_internal e optstring longopts want_index True s"

end
