(* ===== verification/Getopt_Spec.thy ===== *)
theory Getopt_Spec
  imports Getopt_Theorems
begin

text \<open>
  What \<open>getopt\<close> computes for short options in its default ordering: a one-pass parser of the argument
  list, written without state or permutation, and the proof that a program's loop collects exactly what it returns and is
  left with exactly its operands.
\<close>

section \<open>The reference parser\<close>

datatype arg_kind = Unknown | Flag | Required | Optional

definition option_kind :: "string \<Rightarrow> char \<Rightarrow> arg_kind" where
  "option_kind os c =
     (case dropWhile (\<lambda>x. x \<noteq> c) os of
        [] \<Rightarrow> Unknown
      | t \<Rightarrow> if c = CHR '':'' \<or> c = CHR '';'' then Unknown
             else if char_at t 1 \<noteq> CHR '':'' then Flag else if char_at t 2 = CHR '':'' then Optional else Required)"

type_synonym parsed = "(int \<times> string option) list \<times> string list"

definition found :: "int \<Rightarrow> string option \<Rightarrow> parsed \<Rightarrow> parsed" where
  "found r arg q = ((r, arg) # fst q, snd q)"

function (sequential) parse_args :: "string \<Rightarrow> string list \<Rightarrow> parsed"
  and parse_cluster :: "string \<Rightarrow> string \<Rightarrow> string list \<Rightarrow> parsed" where
  "parse_args os [] = ([], [])"
| "parse_args os (a # r) =
     (if a = ''--'' then ([], r)
      else if nonoption a then (fst (parse_args os r), a # snd (parse_args os r))
      else parse_cluster os (tl a) r)"
| "parse_cluster os [] r = parse_args os r"
| "parse_cluster os (c # cs) r =
     (case option_kind os c of
        Unknown \<Rightarrow> found (ub (CHR ''?'')) None (parse_cluster os cs r)
      | Flag \<Rightarrow> found (ub c) None (parse_cluster os cs r)
      | Optional \<Rightarrow> found (ub c) (if cs = [] then None else Some cs) (parse_args os r)
      | Required \<Rightarrow>
          (if cs \<noteq> [] then found (ub c) (Some cs) (parse_args os r)
           else case r of
               [] \<Rightarrow> ([(missing os, None)], [])
             | x # r' \<Rightarrow> found (ub c) (Some x) (parse_args os r')))"
  by pat_completeness auto
termination
  by (relation "measure (\<lambda>x. case x of Inl (os, r) \<Rightarrow> 2 * weight r | Inr (os, cs, r) \<Rightarrow> 2 * (length cs + weight r) + 1)")
    (auto simp: weight_simps)

lemma parse_args_skip:
  "parse_args os R = (fst (parse_args os (dropWhile nonoption R)), takeWhile nonoption R @ snd (parse_args os (dropWhile nonoption R)))"
proof (induction R)
  case (Cons a R)
  have "\<not> nonoption ''--''" by (simp add: nonoption_def char_at_def)
  then show ?case using Cons by auto
qed simp

section \<open>One call\<close>

lemma go_strchr_dropWhile: "go_strchr os c = (case dropWhile (\<lambda>x. x \<noteq> c) os of [] \<Rightarrow> None | t \<Rightarrow> Some t)"
  by (induction os) auto

lemma terminator_text: "NUL \<notin> set a \<Longrightarrow> is_terminator a \<longleftrightarrow> a = ''--''"
  by (cases a; cases "tl a"; cases "tl (tl a)") (auto simp: is_terminator_def char_at_def)

definition texts_ok :: "string list \<Rightarrow> bool" where
  "texts_ok av \<longleftrightarrow> (\<forall>a \<in> set av. NUL \<notin> set a)"

definition plain_options :: "string \<Rightarrow> bool" where
  "plain_options os \<longleftrightarrow> char_at os 0 \<noteq> CHR ''-'' \<and> char_at os 0 \<noteq> CHR ''+''"

definition ready :: "go_state \<Rightarrow> bool" where
  "ready s \<longleftrightarrow> initialized s \<and> ordering s = PERMUTE \<and> texts_ok (args s)"

definition loud :: "string \<Rightarrow> go_state \<Rightarrow> bool" where
  "loud os s \<longleftrightarrow> opterr s \<noteq> 0 \<and> char_at os 0 \<noteq> CHR '':''"

lemma getopt_ready:
  assumes "ready s" "layout s P A B R" "plain_options os" "s0 = s\<lparr>optarg := None\<rparr>"
  shows "busy s \<Longrightarrow> getopt_internal e os None False False s =
      (case short_option os None False (loud os s0) s0 of (r, s') \<Rightarrow> (r, publish s'))"
    "\<not> busy s \<Longrightarrow> next_element os None False False (loud os s0) s0 = (Some r, s') \<Longrightarrow>
      getopt_internal e os None False False s = (r, publish s')"
    "\<not> busy s \<Longrightarrow> next_element os None False False (loud os s0) s0 = (None, s1) \<Longrightarrow>
      getopt_internal e os None False False s =
        (case short_option os None False (loud os s0) s1 of (r, s') \<Rightarrow> (r, publish s'))"
proof -
  have len: "\<not> length (args s0) < 1" using assms(2,4) by (auto simp: layout_def simp flip: length_greater_0_conv)
  have "optind s \<noteq> 0" using assms(2) by (auto simp: layout_def)
  then have b: "begin_scan (posixly_correct e) os s0 = (os, s0)"
    using assms(1,3) by (simp add: begin_scan_def plain_options_def ready_def assms(4))
  note un = getopt_internal_def getopt_scan_def Let_def assms(4) [symmetric] if_not_P [OF len] b prod.case loud_def [symmetric]
  have nb: "busy s \<longleftrightarrow> \<not> (nextchar s0 = None \<or> nextchar s0 = Some [])" by (simp add: busy_def assms(4))
  show "busy s \<Longrightarrow> getopt_internal e os None False False s =
      (case short_option os None False (loud os s0) s0 of (r, s') \<Rightarrow> (r, publish s'))"
    unfolding un by (cases "nextchar s0") (simp_all add: nb)
  show "\<not> busy s \<Longrightarrow> next_element os None False False (loud os s0) s0 = (Some r, s') \<Longrightarrow>
      getopt_internal e os None False False s = (r, publish s')"
    unfolding un by (simp add: nb)
  show "\<not> busy s \<Longrightarrow> next_element os None False False (loud os s0) s0 = (None, s1) \<Longrightarrow>
      getopt_internal e os None False False s =
        (case short_option os None False (loud os s0) s1 of (r, s') \<Rightarrow> (r, publish s'))"
    unfolding un by (simp add: nb)
qed

text \<open>The next element: the end of the options, with the operands left over, or an option to be read.\<close>

lemma next_element_spec:
  assumes "layout s P A B R" "\<not> busy s" "ordering s = PERMUTE" "texts_ok (args s)"
  shows "case dropWhile nonoption R of
      [] \<Rightarrow> \<exists>s'. next_element os None False False pe s = (Some (-1), s') \<and> drop (optind s') (args s') = A @ R
    | a # R' \<Rightarrow>
        if a = ''--'' then \<exists>s'. next_element os None False False pe s = (Some (-1), s') \<and>
          drop (optind s') (args s') = A @ takeWhile nonoption R @ R'
        else \<exists>s'. next_element os None False False pe s = (None, s') \<and> nextchar s' = Some (tl a) \<and> ordering s' = PERMUTE \<and>
          initialized s' = initialized s \<and> optarg s' = optarg s \<and> opterr s' = opterr s \<and> \<not> nonoption a \<and>
          layout s' (P @ B) (A @ takeWhile nonoption R) [] (a # R')"
proof -
  note p = permute_layout [OF assms(1,3)]
  note se = sensible_layout [OF assms(1)]
  have "last_nonopt s \<le> optind s" using assms(1) by (simp add: layout_def)
  define s1 where "s1 = end_options (permute s)"
  have finish_here: "\<exists>s'. next_element os None False False pe s = (Some (-1), s') \<and> drop (optind s') (args s') = A1"
    if "layout s1 P1 A1 [] []" for P1 A1
  proof -
    define s' where "s' = publish (if first_nonopt s1 \<noteq> last_nonopt s1 then s1\<lparr>optind := first_nonopt s1\<rparr> else s1)"
    have "next_element os None False False pe s = (Some (-1), s')"
      using layoutD(1) [OF that] by (simp add: next_element_def se s1_def [symmetric] s'_def Let_def)
    moreover have "drop (optind s') (args s') = A1" using that by (auto simp: s'_def layout_def)
    ultimately show ?thesis by blast
  qed
  show ?thesis
  proof (cases "dropWhile nonoption R")
    case Nil
    have "s1 = permute s" using end_options_layout [OF p] Nil by (simp add: s1_def)
    moreover have "takeWhile nonoption R = R" using Nil by (simp add: takeWhile_eq_all_conv)
    ultimately have "layout s1 (P @ B) (A @ R) [] []" using p unfolding Nil by metis
    from finish_here [OF this] show ?thesis unfolding Nil list.case .
  next
    case (Cons a R')
    have a: "\<not> nonoption a" using Cons by (metis dropWhile_eq_Cons_conv)
    have "a \<in> set R" using Cons by (metis list.set_intros(1) set_dropWhileD)
    then have t: "is_terminator a \<longleftrightarrow> a = ''--''"
      using assms(1,4) by (intro terminator_text) (auto simp: texts_ok_def layout_def)
    show ?thesis
    proof (cases "a = ''--''")
      case True
      then have "layout s1 ((P @ B) @ [] @ [a]) ((A @ takeWhile nonoption R) @ R') [] []"
        using end_options_layout [OF p] Cons t by (simp add: s1_def)
      then show ?thesis using finish_here [of "(P @ B) @ [] @ [a]" "(A @ takeWhile nonoption R) @ R'"] Cons True by simp
    next
      case False
      then have s1: "s1 = permute s" using end_options_layout [OF p] Cons t by (simp add: s1_def)
      then have l: "layout s1 (P @ B) (A @ takeWhile nonoption R) [] (a # R')" using p Cons by simp
      let ?s' = "s1\<lparr>nextchar := Some (tl a)\<rparr>"
      have "next_element os None False False pe s = (None, ?s')"
        using layoutD [OF l] NONOPTION_layout [OF l] a by (simp add: next_element_def se s1_def [symmetric] Let_def)
      moreover have "layout ?s' (P @ B) (A @ takeWhile nonoption R) [] (a # R')" using l by (simp add: layout_def)
      moreover have "ordering s1 = PERMUTE" "initialized s1 = initialized s" "optarg s1 = optarg s" "opterr s1 = opterr s"
        using assms(3) by (simp_all add: s1 permute_def go_exchange_def Let_def)
      ultimately show ?thesis using Cons False a by simp
    qed
  qed
qed

text \<open>One short option, by the kind of its argument.\<close>

lemma missing_not_end: "missing os \<noteq> -1" "ub c \<noteq> -1"
proof -
  have "0 \<le> ub c" for c by simp
  then show "missing os \<noteq> -1" "ub c \<noteq> -1" by (smt (verit) missing_def)+
qed

text \<open>The result of a call, the argument it leaves and where the scan stands after it.\<close>

definition reads :: "string \<Rightarrow> char \<Rightarrow> string \<Rightarrow> string list \<Rightarrow> string list \<Rightarrow> string list \<Rightarrow> string \<Rightarrow> string list \<Rightarrow> int \<Rightarrow> go_state \<Rightarrow> bool" where
  "reads os c cs P A B a R v s' \<longleftrightarrow>
     (case option_kind os c of
        Unknown \<Rightarrow> v = ub (CHR ''?'') \<and> optarg s' = None \<and> nextchar s' = Some cs \<and>
          layout s' P A (if cs = [] then B @ [a] else B) (if cs = [] then R else a # R)
      | Flag \<Rightarrow> v = ub c \<and> optarg s' = None \<and> nextchar s' = Some cs \<and>
          layout s' P A (if cs = [] then B @ [a] else B) (if cs = [] then R else a # R)
      | Optional \<Rightarrow> v = ub c \<and> optarg s' = (if cs = [] then None else Some cs) \<and> nextchar s' = None \<and> layout s' P A (B @ [a]) R
      | Required \<Rightarrow>
          if cs \<noteq> [] then v = ub c \<and> optarg s' = Some cs \<and> nextchar s' = None \<and> layout s' P A (B @ [a]) R
          else case R of
              [] \<Rightarrow> v = missing os \<and> optarg s' = None \<and> nextchar s' = None \<and> layout s' P A (B @ [a]) []
            | x # R' \<Rightarrow> v = ub c \<and> optarg s' = Some x \<and> nextchar s' = None \<and> layout s' P A (B @ [a, x]) R')"

lemma option_kind_cases:
  "option_kind os c = Unknown \<Longrightarrow> go_strchr os c = None \<or> (\<exists>t. go_strchr os c = Some t \<and> (c = CHR '':'' \<or> c = CHR '';''))"
  "option_kind os c \<noteq> Unknown \<Longrightarrow> \<exists>t. go_strchr os c = Some t \<and> c \<noteq> CHR '':'' \<and> c \<noteq> CHR '';'' \<and>
     (option_kind os c = Flag \<longleftrightarrow> char_at t 1 \<noteq> CHR '':'') \<and> (option_kind os c = Optional \<longleftrightarrow> char_at t 1 = CHR '':'' \<and> char_at t 2 = CHR '':'')"
  unfolding option_kind_def go_strchr_dropWhile by (cases "dropWhile (\<lambda>x. x \<noteq> c) os"; auto simp only: list.case split: if_splits)+

lemma short_option_spec:
  assumes l: "layout s P A B (a # R)" and n: "nextchar s = Some (c # cs)" and o': "optarg s = None"
    and r: "short_option os None False pe s = (v, s')"
  shows "reads os c cs P A B a R v s'" "initialized s' = initialized s" "ordering s' = ordering s" "args s' = args s"
proof -
  define i where "i = (if cs = [] then optind s + 1 else optind s)"
  have c: "char_at (c # cs) 0 = c" by (simp add: char_at_def)
  have d: "drop (optind s) (args s) = a # R" using layoutD(2) [OF l] .
  have len: "length (args s) = optind s + 1 + length R" by (rule drop_Cons_length [OF d])
  have x: "arg_at (args s) (optind s + 1) = (case R of [] \<Rightarrow> [] | x # _ \<Rightarrow> x)"
  proof (cases R)
    case (Cons x R')
    then have "drop (optind s + 1) (args s) = x # R'" using arg_cong [OF d, of tl] by (simp add: drop_Suc tl_drop)
    then show ?thesis using Cons len by (simp add: arg_at_def nth_via_drop)
  qed (simp add: arg_at_def len)
  note un = r [unfolded short_option_def Let_def n option.sel list.sel c, folded i_def]
  show "initialized s' = initialized s" "ordering s' = ordering s" "args s' = args s"
    using un by (auto simp: split: option.splits if_splits)
  have lay: "layout s' P A (B @ C) R'" if "args s' = args s" "first_nonopt s' = first_nonopt s" "last_nonopt s' = last_nonopt s"
    "optind s' = optind s + length C" "a # R = C @ R'" for C R' using l that by (simp add: layout_def)
  have stay: "layout s' P A (if cs = [] then B @ [a] else B) (if cs = [] then R else a # R)"
    if "args s' = args s" "first_nonopt s' = first_nonopt s" "last_nonopt s' = last_nonopt s" "optind s' = i"
    using lay [of "[a]" R] lay [of "[]" "a # R"] that by (simp add: i_def)
  have i: "cs = [] \<Longrightarrow> i = optind s + 1" "cs \<noteq> [] \<Longrightarrow> i = optind s" by (simp_all add: i_def)
  show "reads os c cs P A B a R v s'"
  proof (cases "option_kind os c = Unknown")
    case True
    have "v = ub (CHR ''?'')" "optarg s' = None" "nextchar s' = Some cs" "args s' = args s" "first_nonopt s' = first_nonopt s"
      "last_nonopt s' = last_nonopt s" "optind s' = i"
      using un option_kind_cases(1) [OF True] o' by (auto split: if_splits)
    then show ?thesis using True stay by (simp add: reads_def)
  next
    case False
    then obtain t where t: "go_strchr os c = Some t" "c \<noteq> CHR '':''" "c \<noteq> CHR '';''"
      "option_kind os c = Flag \<longleftrightarrow> char_at t 1 \<noteq> CHR '':''"
      "option_kind os c = Optional \<longleftrightarrow> char_at t 1 = CHR '':'' \<and> char_at t 2 = CHR '':''"
      using option_kind_cases(2) by blast
    note un = un [unfolded t(1) option.case, simplified t(2,3)]
    show ?thesis
    proof (cases "char_at t 1 = CHR '':''")
      case False
      then have "v = ub c" "optarg s' = None" "nextchar s' = Some cs" "args s' = args s" "first_nonopt s' = first_nonopt s"
        "last_nonopt s' = last_nonopt s" "optind s' = i" using un o' by auto
      then show ?thesis using False t(4) stay by (simp add: reads_def)
    next
      case colon: True
      show ?thesis
      proof (cases "char_at t 2 = CHR '':''")
        case True
        then have k: "option_kind os c = Optional" using colon t(5) by simp
        have "v = ub c" "optarg s' = (if cs = [] then None else Some cs)" "nextchar s' = None"
          using un colon True by (auto split: if_splits)
        moreover have "layout s' P A (B @ [a]) R"
          using un colon True by (intro lay) (auto simp: i split: if_splits)
        ultimately show ?thesis using k by (simp add: reads_def)
      next
        case False
        then have k: "option_kind os c = Required" using colon t(4,5) \<open>option_kind os c \<noteq> Unknown\<close> by (cases "option_kind os c") auto
        consider "cs \<noteq> []" | "cs = []" "R = []" | y R' where "cs = []" "R = y # R'" by (cases R) auto
        then show ?thesis
        proof cases
          case 1
          then have "v = ub c" "optarg s' = Some cs" "nextchar s' = None" using un colon False by auto
          moreover have "layout s' P A (B @ [a]) R" using un colon False 1 by (intro lay) (auto simp: i)
          ultimately show ?thesis using k 1 by (simp add: reads_def)
        next
          case 2
          then have "v = missing os" "optarg s' = None" "nextchar s' = None" using un colon False len o' by (auto simp: i split: if_splits)
          moreover have "layout s' P A (B @ [a]) R" using un colon False 2 len by (intro lay) (auto simp: i split: if_splits)
          ultimately show ?thesis using k 2 by (simp add: reads_def)
        next
          case 3
          then have "v = ub c" "optarg s' = Some y" "nextchar s' = None" using un colon False len x by (auto simp: i)
          moreover have "layout s' P A (B @ [a, y]) R'" using un colon False 3 len by (intro lay) (auto simp: i)
          ultimately show ?thesis using k 3 by (simp add: reads_def)
        qed
      qed
    qed
  qed
qed

section \<open>The loop\<close>

definition computes :: "'h env_state \<Rightarrow> string \<Rightarrow> go_state \<Rightarrow> string list \<Rightarrow> parsed \<Rightarrow> bool" where
  "computes e os s A q \<longleftrightarrow> (\<exists>s'. getopt_all e os None False False s = Some (fst q, s') \<and> drop (optind s') (args s') = A @ snd q)"

lemma computes_found:
  assumes "getopt_internal e os None False False s = (r, s')" "r \<noteq> -1" "computes e os s' A q"
  shows "computes e os s A (found r (optarg s') q)"
  using assms(2,3) by (auto simp: computes_def found_def getopt_all_step [OF assms(1)])

lemma publish_layout: "layout (publish s) P A B R = layout s P A B R"
  by (simp add: layout_def)

lemma ready_publish: "ready s \<Longrightarrow> initialized s' = initialized s \<Longrightarrow> ordering s' = ordering s \<Longrightarrow> args s' = args s \<Longrightarrow> ready (publish s')"
  by (simp add: ready_def)

text \<open>Reading an option of the current element, then going on.\<close>

lemma computes_busy:
  assumes ready: "ready s" and lay: "layout s P A B (a # R)" and nc: "nextchar s = Some (c # cs)" and os: "plain_options os"
    and next_args: "\<And>s' B' R'. ready s' \<Longrightarrow> layout s' P A B' R' \<Longrightarrow> \<not> busy s' \<Longrightarrow> remaining s' < remaining s \<Longrightarrow>
      computes e os s' A (parse_args os R')"
    and next_cluster: "\<And>s'. cs \<noteq> [] \<Longrightarrow> ready s' \<Longrightarrow> layout s' P A B (a # R) \<Longrightarrow> nextchar s' = Some cs \<Longrightarrow>
      remaining s' < remaining s \<Longrightarrow> computes e os s' A (parse_cluster os cs R)"
  shows "computes e os s A (parse_cluster os (c # cs) R)"
proof -
  let ?s0 = "s\<lparr>optarg := None\<rparr>"
  have b: "busy s" using nc by (simp add: busy_def)
  have l0: "layout ?s0 P A B (a # R)" using lay by (simp add: layout_def)
  obtain v s1 where so: "short_option os None False (loud os ?s0) ?s0 = (v, s1)" by (rule prod.exhaust)
  have g: "getopt_internal e os None False False s = (v, publish s1)"
    using getopt_ready(1) [OF ready lay os refl b] so by simp
  have rd: "reads os c cs P A B a R v s1" and r: "ready (publish s1)"
    using short_option_spec [OF l0 _ _ so] nc ready_publish [OF ready, of s1] by simp_all
  have sc: "scan_ok s" using lay b by (auto simp: scan_ok_def)
  have dec: "remaining (publish s1) < remaining s"
    using short_option_ok [OF _ _ so] sc b by (simp add: optarg_update scan_ok_publish)
  have args': "computes e os (publish s1) A (parse_args os R')" if "layout s1 P A B' R'" "nextchar s1 = None \<or> nextchar s1 = Some []" for B' R'
    using next_args [OF r _ _ dec] that by (auto simp: publish_layout busy_def)
  have cluster': "computes e os (publish s1) A (parse_cluster os cs R)"
    if "nextchar s1 = Some cs" "layout s1 P A (if cs = [] then B @ [a] else B) (if cs = [] then R else a # R)"
    using args' [of "B @ [a]" R] next_cluster [OF _ r _ _ dec] that by (cases "cs = []") (auto simp: publish_layout)
  note step = computes_found [OF g]
  show ?thesis
  proof (cases "option_kind os c")
    case Unknown
    then show ?thesis using rd step [OF _ cluster'] missing_not_end by (simp add: reads_def)
  next
    case Flag
    then show ?thesis using rd step [OF _ cluster'] missing_not_end by (simp add: reads_def)
  next
    case Optional
    then show ?thesis using rd step [OF _ args' [of "B @ [a]" R]] missing_not_end by (simp add: reads_def)
  next
    case Required
    consider "cs \<noteq> []" | "cs = []" "R = []" | x R' where "cs = []" "R = x # R'" by (cases R) auto
    then show ?thesis
    proof cases
      case 1
      then show ?thesis using Required rd step [OF _ args' [of "B @ [a]" R]] missing_not_end by (simp add: reads_def)
    next
      case 2
      then have "computes e os s A (found (missing os) None (parse_args os []))"
        using Required rd step [OF _ args' [of "B @ [a]" "[]"]] missing_not_end by (simp add: reads_def)
      then show ?thesis using Required 2 by (simp add: found_def)
    next
      case 3
      then show ?thesis using Required rd step [OF _ args' [of "B @ [a, x]" R']] missing_not_end by (simp add: reads_def)
    qed
  qed
qed

lemma computes_same:
  assumes "getopt_internal e os None False False s = getopt_internal e os None False False s1"
  shows "computes e os s A q = computes e os s1 A q"
proof -
  obtain r s2 where g: "getopt_internal e os None False False s1 = (r, s2)" by (rule prod.exhaust)
  then show ?thesis using assms by (simp add: computes_def getopt_all_step [OF g] getopt_all_step [of e os None False False s r s2])
qed

lemma computes_elements:
  assumes ready: "ready s" and lay: "layout s P A B R" and nb: "\<not> busy s" and os: "plain_options os"
    and option: "\<And>s1 a R'. dropWhile nonoption R = a # R' \<Longrightarrow> \<not> nonoption a \<Longrightarrow> a \<noteq> ''--'' \<Longrightarrow> ready s1 \<Longrightarrow> nextchar s1 = Some (tl a) \<Longrightarrow>
      layout s1 (P @ B) (A @ takeWhile nonoption R) [] (a # R') \<Longrightarrow> remaining s1 < remaining s \<Longrightarrow>
      computes e os s1 (A @ takeWhile nonoption R) (parse_cluster os (tl a) R')"
  shows "computes e os s A (parse_args os R)"
proof -
  define s0 where "s0 = s\<lparr>optarg := None\<rparr>"
  have l0: "layout s0 P A B R" "\<not> busy s0" "ordering s0 = PERMUTE" "texts_ok (args s0)"
    using lay nb ready by (simp_all add: s0_def layout_def busy_def ready_def)
  note spec = next_element_spec [OF l0, of os "loud os s0"]
  note run = getopt_ready(2,3) [OF ready lay os s0_def nb]
  have stop: "computes e os s A ([], C)"
    if "next_element os None False False (loud os s0) s0 = (Some (-1), s')" "drop (optind s') (args s') = A @ C" for s' C
    using that(2) by (simp add: computes_def getopt_all_step [OF run(1) [OF that(1)]])
  show ?thesis
  proof (cases "dropWhile nonoption R")
    case Nil
    have "takeWhile nonoption R = R" using Nil by (simp add: takeWhile_eq_all_conv)
    then have "parse_args os R = ([], R)" by (subst parse_args_skip) (metis Nil append_Nil2 fst_conv parse_args.simps(1) snd_conv)
    then show ?thesis using spec unfolding Nil by (auto intro: stop)
  next
    case (Cons a R')
    show ?thesis
    proof (cases "a = ''--''")
      case True
      then have "parse_args os R = ([], takeWhile nonoption R @ R')" by (subst parse_args_skip) (simp add: Cons)
      then show ?thesis using spec True unfolding Cons by (auto intro: stop)
    next
      case False
      then obtain s1 where s1: "next_element os None False False (loud os s0) s0 = (None, s1)" "nextchar s1 = Some (tl a)"
        "ordering s1 = PERMUTE" "initialized s1 = initialized s0" "optarg s1 = optarg s0" "opterr s1 = opterr s0" "\<not> nonoption a"
        and l1: "layout s1 (P @ B) (A @ takeWhile nonoption R) [] (a # R')" using spec unfolding Cons by auto
      obtain x r where a: "a = CHR ''-'' # x # r" using option_element [OF s1(7)] by blast
      have "R = takeWhile nonoption R @ a # R'" using Cons by (metis takeWhile_dropWhile_id)
      then have "set R = set (takeWhile nonoption R @ a # R')" by (rule arg_cong)
      then have "set (args s1) = set (args s)" using l1 lay by (auto simp: layout_def)
      then have r1: "ready s1" using s1 ready by (auto simp: ready_def texts_ok_def s0_def)
      have b1: "busy s1" using s1(2) a by (simp add: busy_def)
      have same: "s1\<lparr>optarg := None\<rparr> = s1" using s1(5) by (simp add: s0_def)
      have "loud os s1 = loud os s0" using s1(6) by (simp add: loud_def)
      then have "getopt_internal e os None False False s = getopt_internal e os None False False s1"
        using run(2) [OF s1(1)] getopt_ready(1) [OF r1 l1 os refl b1, of e] same by simp
      moreover have "remaining s1 < remaining s"
        using next_element_ok [of s0 P A B R False None os False "loud os s0" None s1] l0 s1(1) sensible_layout [OF l0(1)]
          layoutD(2) [OF lay] nb by (auto simp: values_ok_def remaining_def)
      then have "computes e os s1 (A @ takeWhile nonoption R) (parse_cluster os (tl a) R')"
        by (rule option [OF Cons s1(7) False r1 s1(2) l1])
      moreover have "parse_args os R = (fst (parse_cluster os (tl a) R'), takeWhile nonoption R @ snd (parse_cluster os (tl a) R'))"
        by (subst parse_args_skip) (simp add: Cons False s1(7))
      ultimately show ?thesis by (simp add: computes_same [of e os s s1]) (simp add: computes_def)
    qed
  qed
qed

lemma getopt_computes:
  assumes "plain_options os" "ready s" "layout s P A B R"
  shows "\<not> busy s \<Longrightarrow> computes e os s A (parse_args os R)"
    "nextchar s = Some (c # cs) \<Longrightarrow> R = a # R' \<Longrightarrow> computes e os s A (parse_cluster os (c # cs) R')"
proof -
  have "(\<not> busy s \<longrightarrow> computes e os s A (parse_args os R)) \<and>
    (\<forall>c cs a R'. nextchar s = Some (c # cs) \<longrightarrow> R = a # R' \<longrightarrow> computes e os s A (parse_cluster os (c # cs) R'))"
    using assms(2,3)
  proof (induction "remaining s" arbitrary: s P A B R rule: less_induct)
    case less
    note IH = less.hyps [rule_format]
    show ?case
    proof (intro conjI allI impI)
      assume nb: "\<not> busy s"
      show "computes e os s A (parse_args os R)"
      proof (rule computes_elements [OF less.prems nb assms(1)])
        fix s1 a R'
        assume a: "\<not> nonoption a" "nextchar s1 = Some (tl a)" and s1: "ready s1"
          "layout s1 (P @ B) (A @ takeWhile nonoption R) [] (a # R')" "remaining s1 < remaining s"
        obtain x r where x: "a = CHR ''-'' # x # r" using option_element [OF a(1)] by blast
        then show "computes e os s1 (A @ takeWhile nonoption R) (parse_cluster os (tl a) R')"
          using IH [OF s1(3,1,2)] a(2) by simp
      qed
    next
      fix c cs a R'
      assume nc: "nextchar s = Some (c # cs)" and R: "R = a # R'"
      show "computes e os s A (parse_cluster os (c # cs) R')"
      proof (rule computes_busy [OF less.prems(1) _ nc assms(1)])
        show "layout s P A B (a # R')" using less.prems(2) R by simp
        show "computes e os s' A (parse_args os R2)"
          if "ready s'" "layout s' P A B' R2" "\<not> busy s'" "remaining s' < remaining s" for s' B' R2
          using IH [OF that(4,1,2)] that(3) by blast
        show "computes e os s' A (parse_cluster os cs R')"
          if "cs \<noteq> []" "ready s'" "layout s' P A B (a # R')" "nextchar s' = Some cs" "remaining s' < remaining s" for s'
          using IH [OF that(5,2,3)] that(1,4) by (cases cs) auto
      qed
    qed
  qed
  then show "\<not> busy s \<Longrightarrow> computes e os s A (parse_args os R)"
    "nextchar s = Some (c # cs) \<Longrightarrow> R = a # R' \<Longrightarrow> computes e os s A (parse_cluster os (c # cs) R')" by blast+
qed

section \<open>The program's loop from the start\<close>

lemma first_call:
  assumes "plain_options os" "\<not> posixly_correct e"
  shows "getopt_internal e os None False False (go_init (prog # av)) =
    getopt_internal e os None False False
      ((go_init (prog # av))\<lparr>initialized := True, first_nonopt := 1, last_nonopt := 1, ordering := PERMUTE\<rparr>)"
proof -
  let ?s = "go_init (prog # av)" and ?s1 = "(go_init (prog # av))\<lparr>initialized := True, first_nonopt := 1, last_nonopt := 1, ordering := PERMUTE\<rparr>"
  have "begin_scan (posixly_correct e) os (?s\<lparr>optarg := None\<rparr>) = begin_scan (posixly_correct e) os (?s1\<lparr>optarg := None\<rparr>)"
    using assms by (simp add: begin_scan_def plain_options_def go_init_def)
  moreover have len: "\<not> length (args (?s\<lparr>optarg := None\<rparr>)) < 1" "\<not> length (args (?s1\<lparr>optarg := None\<rparr>)) < 1"
    by (simp_all add: go_init_def)
  ultimately show ?thesis by (simp only: getopt_internal_def getopt_scan_def Let_def len if_False)
qed

text \<open>
  C11. A program that calls \<open>getopt\<close> until it returns -1, with short options in the default ordering, collects
  exactly the options and arguments of a one-pass reading of its argument list, in their order: clusters, arguments in the same
  element or the next, optional arguments, unknown options and missing arguments as errors, and \<open>--\<close> as the end of the
  options. When it is done, the arguments from \<open>optind\<close> on are exactly the operands, in their original order,
  wherever they stood between the options.
\<close>

theorem getopt_parses:
  assumes "plain_options os" "texts_ok (prog # av)" "\<not> posixly_correct e"
  shows "\<exists>s'. getopt_all e os None False False (go_init (prog # av)) = Some (fst (parse_args os av), s') \<and>
    drop (optind s') (args s') = snd (parse_args os av)"
proof -
  let ?s1 = "(go_init (prog # av))\<lparr>initialized := True, first_nonopt := 1, last_nonopt := 1, ordering := PERMUTE\<rparr>"
  have "ready ?s1" "layout ?s1 [prog] [] [] av" "\<not> busy ?s1"
    using assms(2) by (simp_all add: ready_def layout_def busy_def go_init_def)
  from getopt_computes(1) [OF assms(1) this] have "computes e os ?s1 [] (parse_args os av)" .
  then have "computes e os (go_init (prog # av)) [] (parse_args os av)"
    by (simp only: computes_same [OF first_call [OF assms(1,3)]])
  then show ?thesis by (simp add: computes_def)
qed

theorem getopt_parses_witness:
  "\<exists>s'. getopt_all arrived ''ab:'' None False False (go_init [''prog'', ''f'', ''-ab'', ''x'', ''--'', ''-a'']) =
       Some ([(97, None), (98, Some ''x'')], s') \<and> drop (optind s') (args s') = [''f'', ''-a'']"
proof -
  have h: "plain_options ''ab:''" "texts_ok [''prog'', ''f'', ''-ab'', ''x'', ''--'', ''-a'']"
    by (simp_all add: plain_options_def texts_ok_def char_at_def)
  have e: "\<not> posixly_correct arrived"
    by (simp add: posixly_correct_def getenv_value good_name_def env_value_def arrived_def value_in_simps names_code)
  have "parse_args ''ab:'' [''f'', ''-ab'', ''x'', ''--'', ''-a''] = ([(97, None), (98, Some ''x'')], [''f'', ''-a''])"
    by (simp add: nonoption_def char_at_def option_kind_def found_def ub_def)
  then show ?thesis using getopt_parses [OF h e] by simp
qed

end
