(* ===== verification/Fpfmt.thy ===== *)
theory Fpfmt
  imports Prelude
begin

text \<open>
  The exact decimal expansion of a binary floating-point number: \<open>lib/moqi_libc/src/fpfmt.h\<close>. A number is
  a significand and a power of two; the code works on digits and on arrays of 32-bit limbs, least significant first, with
  64-bit intermediate results that never overflow. The limbs of the model are natural numbers, reduced where the code
  truncates to 32 bits. The two loops whose end depends on the value run with the bound that is proved to be
  enough: the number of fraction bits, and the forty chunks the code has room for.
\<close>

section \<open>Digits from limbs\<close>

definition FP_MAXDIG :: nat where "FP_MAXDIG = 800"
definition FP_LIMBS :: nat where "FP_LIMBS = 36"

record fp_dec =
  dec_d :: "nat list"
  dec_x :: int

definition B32 :: nat where "B32 = 2 ^ 32"
definition G9 :: nat where "G9 = 1000000000"
definition u32 :: "nat \<Rightarrow> nat" where "u32 v = v mod B32"
definition u64 :: "nat \<Rightarrow> nat" where "u64 v = v mod 2 ^ 64"

fun trim_limbs :: "nat list \<Rightarrow> nat \<Rightarrow> nat" where
  "trim_limbs w 0 = 0"
| "trim_limbs w (Suc n) = (if w ! n = 0 then trim_limbs w n else Suc n)"

text \<open>One division of the limbs by a thousand millions, from the top; the remainder is a chunk of nine digits.\<close>

fun div_pass :: "nat \<Rightarrow> nat list \<Rightarrow> nat \<Rightarrow> nat list \<times> nat" where
  "div_pass 0 w rem = (w, rem)"
| "div_pass (Suc i) w rem =
     (let cur = rem * B32 + w ! i
      in div_pass i (w[i := u32 (cur div G9)]) (cur mod G9))"

fun chunk_loop :: "nat \<Rightarrow> nat list \<Rightarrow> nat \<Rightarrow> nat list" where
  "chunk_loop 0 w nw = []"
| "chunk_loop (Suc fuel) w nw =
     (if nw = 0 then []
      else let (w', rem) = div_pass nw w 0 in u32 rem # chunk_loop fuel w' (trim_limbs w' nw))"

fun chunk_digits :: "nat \<Rightarrow> nat \<Rightarrow> nat list \<Rightarrow> nat list" where
  "chunk_digits 0 v acc = acc"
| "chunk_digits (Suc k) v acc = chunk_digits k (v div 10) (v mod 10 # acc)"

text \<open>The leading chunk loses its leading zeros, up to its last digit.\<close>

definition lead_digits :: "nat list \<Rightarrow> nat list" where
  "lead_digits ds = (let start = count_upto (\<lambda>i. ds ! i = 0) (length ds - 1) in drop start ds)"

definition strip_zeros :: "nat list \<Rightarrow> nat list" where
  "strip_zeros ds = rev (dropWhile (\<lambda>d. d = 0) (rev ds))"

definition shift_limbs :: "nat \<Rightarrow> nat \<Rightarrow> nat list" where
  "shift_limbs m e2 =
     (let ls = e2 div 32; bs = e2 mod 32; lo = u64 (m * 2 ^ bs); hi = (if bs \<noteq> 0 then m div 2 ^ (64 - bs) else 0)
      in (replicate FP_LIMBS 0)[ls := u32 lo, ls + 1 := u32 (lo div B32), ls + 2 := u32 hi])"

definition fp_integer :: "nat \<Rightarrow> nat \<Rightarrow> fp_dec" where
  "fp_integer m e2 =
     (let w = shift_limbs m e2;
          chunks = rev (chunk_loop 40 w (trim_limbs w (e2 div 32 + 3)));
          tmp = (case chunks of [] \<Rightarrow> [] | c # cs \<Rightarrow> lead_digits (chunk_digits 9 c []) @ concat (map (\<lambda>v. chunk_digits 9 v []) cs))
      in \<lparr>dec_d = strip_zeros tmp, dec_x = int (length tmp) - 1\<rparr>)"

section \<open>Digits of a fraction\<close>

fun mul_pass :: "nat \<Rightarrow> nat \<Rightarrow> nat list \<Rightarrow> nat \<Rightarrow> nat list" where
  "mul_pass i 0 w carry = w"
| "mul_pass i (Suc n) w carry =
     (let t = w ! i * 10 + carry in mul_pass (i + 1) n (w[i := u32 t]) (t div B32))"

text \<open>The digit above bit \<open>k\<close> is taken out of the limbs.\<close>

definition take_digit :: "nat \<Rightarrow> nat \<Rightarrow> nat list \<Rightarrow> nat \<times> nat list" where
  "take_digit li sh w =
     (let v = u32 (w ! li div 2 ^ sh + (if sh \<noteq> 0 then u32 (w ! (li + 1) * 2 ^ (32 - sh)) else 0)) in
      (v mod 16, w[li := (if sh \<noteq> 0 then w ! li mod 2 ^ sh else 0), li + 1 := 0]))"

fun fraction_loop :: "nat \<Rightarrow> nat \<Rightarrow> nat list \<Rightarrow> nat list \<Rightarrow> nat \<Rightarrow> nat list \<times> nat" where
  "fraction_loop 0 k w d zeros = (d, zeros)"
| "fraction_loop (Suc fuel) k w d zeros =
     (if \<forall>i < k div 32 + 2. w ! i = 0 then (d, zeros)
      else let (digit, w') = take_digit (k div 32) (k mod 32) (mul_pass 0 (k div 32 + 2) w 0) in
        if d = [] \<and> digit = 0 then fraction_loop fuel k w' d (zeros + 1)
        else fraction_loop fuel k w' (if length d < FP_MAXDIG then d @ [digit] else d) zeros)"

definition fp_fraction :: "nat \<Rightarrow> nat \<Rightarrow> fp_dec" where
  "fp_fraction m k =
     (let ip = (if k \<ge> 64 then 0 else m div 2 ^ k);
          frac = (if k \<ge> 64 then m else m mod 2 ^ k);
          t = (if ip = 0 then [] else rev (digits_rev 10 ip));
          fl = (replicate FP_LIMBS 0)[0 := u32 frac, 1 := u32 (frac div B32)];
          (d, zeros) = fraction_loop (k + 1) k fl t 0
      in \<lparr>dec_d = strip_zeros d, dec_x = (if ip \<noteq> 0 then int (length t) - 1 else -1 - int zeros)\<rparr>)"

definition fp_exact :: "nat \<Rightarrow> int \<Rightarrow> fp_dec" where
  "fp_exact m e2 =
     (if m = 0 then \<lparr>dec_d = [], dec_x = 0\<rparr>
      else if e2 \<ge> 0 then fp_integer m (nat e2) else fp_fraction m (nat (- e2)))"

section \<open>Rounding\<close>

text \<open>The increment from the last kept digit: the nines behind it become zeros, or all of them do and a one goes in front.\<close>

fun carry_up :: "nat list \<Rightarrow> nat \<Rightarrow> (bool \<times> nat list)" where
  "carry_up r 0 = (True, r)"
| "carry_up r (Suc i) = (if r ! i = 9 then carry_up (r[i := 0]) i else (False, r[i := r ! i + 1]))"

definition round_up :: "nat list \<Rightarrow> int \<Rightarrow> bool" where
  "round_up d k =
     (let digit = d ! nat k in
      digit > 5 \<or> (digit = 5 \<and> (k + 1 < int (length d) \<or> (k > 0 \<and> odd (d ! nat (k - 1))))))"

definition fp_round_digits :: "fp_dec \<Rightarrow> int \<Rightarrow> fp_dec" where
  "fp_round_digits o' k =
     (if k < 0 then \<lparr>dec_d = [], dec_x = dec_x o'\<rparr>
      else let r = take (nat k) (dec_d o') in
        if k \<ge> int (length (dec_d o')) \<or> \<not> round_up (dec_d o') k then \<lparr>dec_d = r, dec_x = dec_x o'\<rparr>
        else case carry_up r (length r) of
            (False, r') \<Rightarrow> \<lparr>dec_d = r', dec_x = dec_x o'\<rparr>
          | (True, r') \<Rightarrow> \<lparr>dec_d = 1 # r', dec_x = dec_x o' + 1\<rparr>)"

end
