(* ===== verification/Fpfmt_Theorems.thy ===== *)
theory Fpfmt_Theorems
  imports Fpfmt
begin

text \<open>
  The digits are the number: the two loops of \<open>fp_exact\<close> compute the decimal expansion of a binary floating-point
  number without any error, within the sizes of their arrays, and \<open>fp_round_digits\<close> rounds it to the nearest
  number of the digits asked for, ties to even.
\<close>

section \<open>Values of digit lists\<close>

text \<open>The number a list of decimal digits stands for, most significant first.\<close>

definition dval :: "nat list \<Rightarrow> nat" where
  "dval ds = foldl (\<lambda>a d. 10 * a + d) 0 ds"

lemma dval_from: "foldl (\<lambda>a d. 10 * a + d) (a::nat) ds = a * 10 ^ length ds + foldl (\<lambda>a d. 10 * a + d) 0 ds"
proof (induction ds arbitrary: a)
  case (Cons d ds)
  show ?case using Cons.IH [of "10 * a + d"] Cons.IH [of d] by (simp add: algebra_simps)
qed simp

lemma dval_simps: "dval [] = 0" "dval (d # ds) = d * 10 ^ length ds + dval ds" "dval (xs @ ys) = dval xs * 10 ^ length ys + dval ys"
proof -
  show "dval [] = 0" by (simp add: dval_def)
  show "dval (d # ds) = d * 10 ^ length ds + dval ds" using dval_from [of d ds] by (simp add: dval_def)
  show "dval (xs @ ys) = dval xs * 10 ^ length ys + dval ys" using dval_from [of "dval xs" ys] by (simp add: dval_def)
qed

lemma dval_less: "\<forall>d \<in> set ds. d < 10 \<Longrightarrow> dval ds < 10 ^ length ds"
proof (induction ds)
  case (Cons d ds)
  then have "d * 10 ^ length ds + dval ds < d * 10 ^ length ds + 10 ^ length ds" by simp
  also have "\<dots> = (d + 1) * 10 ^ length ds" by simp
  also have "\<dots> \<le> 10 * 10 ^ length ds" using Cons.prems by (intro mult_right_mono) auto
  finally show ?case by (simp add: dval_simps)
qed (simp add: dval_simps)

lemma dval_zeros: "dval (replicate n 0 @ ds) = dval ds"
  by (induction n) (simp_all add: dval_simps)

lemma dval_dropWhile: "dval (dropWhile (\<lambda>d. d = 0) ds) = dval ds"
  by (induction ds) (simp_all add: dval_simps)

lemma dval_pos: "ds \<noteq> [] \<Longrightarrow> hd ds \<noteq> 0 \<Longrightarrow> 10 ^ (length ds - 1) \<le> dval ds"
  by (cases ds) (simp_all add: dval_simps trans_le_add1)

lemma dval_rev: "dval ds = digits_val 10 (rev ds)"
proof (induction ds)
  case (Cons d ds)
  have "digits_val 10 (xs @ [d]) = digits_val 10 xs + 10 ^ length xs * d" for xs
    by (induction xs) (simp_all add: algebra_simps)
  then show ?case using Cons by (simp add: dval_simps)
qed (simp add: dval_simps)

lemma strip_zeros_split: "\<exists>z. ds = strip_zeros ds @ replicate z 0"
proof -
  have "rev ds = takeWhile (\<lambda>d. d = 0) (rev ds) @ dropWhile (\<lambda>d. d = 0) (rev ds)" by simp
  moreover have "takeWhile (\<lambda>d. d = 0) (rev ds) = replicate (length (takeWhile (\<lambda>d. d = 0) (rev ds))) 0"
    by (rule replicate_eqI) (auto dest: set_takeWhileD)
  ultimately have "ds = strip_zeros ds @ replicate (length (takeWhile (\<lambda>d. d = 0) (rev ds))) 0"
    unfolding strip_zeros_def by (metis rev_append rev_replicate rev_rev_ident)
  then show ?thesis by blast
qed

lemma strip_zeros_last: "strip_zeros ds \<noteq> [] \<Longrightarrow> last (strip_zeros ds) \<noteq> 0"
  unfolding strip_zeros_def using hd_dropWhile [of "\<lambda>d. d = 0" "rev ds"] by (simp add: last_rev)

lemma strip_zeros:
  obtains z where "length ds = length (strip_zeros ds) + z" "dval ds = dval (strip_zeros ds) * 10 ^ z"
    "set (strip_zeros ds) \<subseteq> set ds" "dval ds \<noteq> 0 \<Longrightarrow> strip_zeros ds \<noteq> []"
    "strip_zeros ds \<noteq> [] \<Longrightarrow> hd (strip_zeros ds) = hd ds"
proof -
  obtain z where z: "ds = strip_zeros ds @ replicate z 0" using strip_zeros_split by blast
  have "dval (replicate z 0) = 0" for z using dval_zeros [of z "[]"] by (simp add: dval_simps)
  then have "dval ds = dval (strip_zeros ds) * 10 ^ z" by (subst z) (simp add: dval_simps)
  moreover have "length ds = length (strip_zeros ds) + z" by (subst z) simp
  moreover have "set (strip_zeros ds) \<subseteq> set ds" by (subst (2) z) simp
  moreover have "strip_zeros ds \<noteq> [] \<Longrightarrow> hd (strip_zeros ds) = hd ds" using arg_cong [OF z, of hd] by simp
  moreover have "strip_zeros ds \<noteq> []" if "dval ds \<noteq> 0"
    using that \<open>dval ds = dval (strip_zeros ds) * 10 ^ z\<close> by (metis dval_simps(1) mult_zero_left)
  ultimately show ?thesis using that by blast
qed

section \<open>Limbs\<close>

definition limbs_ok :: "nat list \<Rightarrow> bool" where
  "limbs_ok w \<longleftrightarrow> (\<forall>v \<in> set w. v < B32)"

definition val :: "nat list \<Rightarrow> nat \<Rightarrow> nat" where
  "val w n = digits_val B32 (take n w)"

lemma digits_val_append: "digits_val b (xs @ ys) = digits_val b xs + b ^ length xs * digits_val b ys"
  by (induction xs) (simp_all add: algebra_simps)

lemma val_simps:
  "val w 0 = 0" "n < length w \<Longrightarrow> val w (Suc n) = val w n + w ! n * B32 ^ n" "n \<le> i \<Longrightarrow> val (w[i := v]) n = val w n"
  by (simp_all add: val_def take_Suc_conv_app_nth digits_val_append)

lemma digits_val_less: "\<forall>d \<in> set ds. d < b \<Longrightarrow> digits_val b ds < b ^ length ds"
proof (induction ds)
  case (Cons d ds)
  then have "digits_val b ds + 1 \<le> b ^ length ds" "d < b" by simp_all
  then have "d + b * digits_val b ds < b * (digits_val b ds + 1)" by (simp add: algebra_simps)
  also have "\<dots> \<le> b * b ^ length ds" using \<open>digits_val b ds + 1 \<le> b ^ length ds\<close> by (rule mult_le_mono2)
  finally show ?case by simp
qed simp

lemma val_less: "limbs_ok w \<Longrightarrow> n \<le> length w \<Longrightarrow> val w n < B32 ^ n"
  using digits_val_less [of "take n w" B32] by (auto simp: val_def limbs_ok_def dest: in_set_takeD)

lemma limbs_ok_update: "limbs_ok w \<Longrightarrow> v < B32 \<Longrightarrow> limbs_ok (w[i := v])"
  by (auto simp: limbs_ok_def dest: set_update_subset_insert [THEN subsetD])

lemma limbs_ok_nth: "limbs_ok w \<Longrightarrow> i < length w \<Longrightarrow> w ! i < B32"
  by (simp add: limbs_ok_def)

section \<open>The integer branch\<close>

lemma u32_id: "v < B32 \<Longrightarrow> u32 v = v"
  by (simp add: u32_def)

lemma u32_less [simp]: "u32 v < B32"
  by (simp add: u32_def B32_def)

lemma B32_pos [simp]: "0 < B32" "B32 \<noteq> 0"
  by (simp_all add: B32_def)

lemma G9_pos [simp]: "0 < G9"
  by (simp add: G9_def)

lemma div_pass_correct:
  assumes "n \<le> length w" "limbs_ok w" "rem < G9" "div_pass n w rem = (w', r)"
  shows "rem * B32 ^ n + val w n = G9 * val w' n + r \<and> r < G9 \<and> length w' = length w \<and>
    drop n w' = drop n w \<and> limbs_ok w'"
  using assms
proof (induction n w rem rule: div_pass.induct)
  case (1 w rem)
  then show ?case by (simp add: val_simps)
next
  case (2 i w rem)
  define cur where "cur = rem * B32 + w ! i"
  define q where "q = cur div G9"
  have i: "i < length w" using 2 by simp
  have "w ! i < B32" using limbs_ok_nth 2 i by blast
  then have "cur < (rem + 1) * B32" by (simp add: cur_def)
  also have "\<dots> \<le> G9 * B32" using 2 by (intro mult_right_mono) auto
  finally have q: "q < B32" unfolding q_def by (simp add: less_mult_imp_div_less mult.commute)
  have eq: "div_pass i (w[i := q]) (cur mod G9) = (w', r)"
    using 2(5) by (simp add: cur_def [symmetric] q_def [symmetric] u32_id [OF q] Let_def)
  have IH: "(cur mod G9) * B32 ^ i + val (w[i := q]) i = G9 * val w' i + r \<and> r < G9 \<and>
      length w' = length (w[i := q]) \<and> drop i w' = drop i (w[i := q]) \<and> limbs_ok w'"
    using 2(1) [of cur, OF cur_def] 2(2-) i eq q limbs_ok_update [of w q i] u32_id [OF q] by (simp add: q_def)
  then have wi: "w' ! i = q" using i by (metis length_list_update nth_list_update_eq nth_via_drop Cons_nth_drop_Suc)
  have "drop 1 (drop i w') = drop 1 (drop i (w[i := q]))" using IH by simp
  then have "drop (Suc i) w' = drop (Suc i) w" by simp
  moreover have "rem * B32 ^ Suc i + val w (Suc i) = G9 * val w' (Suc i) + r"
  proof -
    have "rem * B32 ^ Suc i + val w (Suc i) = cur * B32 ^ i + val w i"
      using i by (simp add: val_simps cur_def algebra_simps)
    also have "cur * B32 ^ i = (G9 * q + cur mod G9) * B32 ^ i" by (simp add: q_def)
    also have "\<dots> + val w i = G9 * (q * B32 ^ i) + (cur mod G9 * B32 ^ i + val (w[i := q]) i)"
      by (simp add: val_simps algebra_simps)
    also have "\<dots> = G9 * (q * B32 ^ i) + (G9 * val w' i + r)" using IH by simp
    finally show ?thesis using i IH wi by (simp add: val_simps algebra_simps)
  qed
  ultimately show ?case using IH by simp
qed

lemma trim_limbs:
  assumes "n \<le> length w"
  shows "trim_limbs w n \<le> n" "val w (trim_limbs w n) = val w n" "trim_limbs w n \<noteq> 0 \<Longrightarrow> w ! (trim_limbs w n - 1) \<noteq> 0"
  using assms by (induction n) (auto simp: val_simps)

definition trimmed :: "nat list \<Rightarrow> nat \<Rightarrow> bool" where
  "trimmed w n \<longleftrightarrow> n \<le> length w \<and> (n \<noteq> 0 \<longrightarrow> w ! (n - 1) \<noteq> 0)"

lemma trimmed_val: "trimmed w n \<Longrightarrow> val w n = 0 \<longleftrightarrow> n = 0"
  by (cases n) (auto simp: trimmed_def val_simps B32_def)

lemma chunk_loop_correct:
  assumes "trimmed w nw" "limbs_ok w" "val w nw < G9 ^ fuel"
  shows "digits_val G9 (chunk_loop fuel w nw) = val w nw \<and> (\<forall>c \<in> set (chunk_loop fuel w nw). c < G9) \<and>
    length (chunk_loop fuel w nw) \<le> fuel \<and> (chunk_loop fuel w nw \<noteq> [] \<longrightarrow> last (chunk_loop fuel w nw) \<noteq> 0)"
  using assms
proof (induction fuel w nw rule: chunk_loop.induct)
  case (1 w nw)
  then show ?case using trimmed_val by (auto simp: val_simps)
next
  case (2 fuel w nw)
  show ?case
  proof (cases "nw = 0")
    case True
    then show ?thesis by (simp add: val_simps)
  next
    case False
    obtain w' r where d: "div_pass nw w 0 = (w', r)" by (rule prod.exhaust)
    have n: "nw \<le> length w" using 2(2) by (simp add: trimmed_def)
    have c: "val w nw = G9 * val w' nw + r" "r < G9" "length w' = length w" "limbs_ok w'"
      using div_pass_correct [OF n 2(3) G9_pos d] by simp_all
    have r: "u32 r = r" using c(2) by (intro u32_id) (simp add: B32_def G9_def)
    let ?n = "trim_limbs w' nw"
    have t: "val w' ?n = val w' nw" "trimmed w' ?n" using trim_limbs [of nw w'] n c(3) by (simp_all add: trimmed_def)
    have "G9 * val w' nw < G9 * G9 ^ fuel" using c(1) 2(4) unfolding power_Suc by linarith
    then have "val w' ?n < G9 ^ fuel" using t(1) by simp
    then have IH: "digits_val G9 (chunk_loop fuel w' ?n) = val w' nw" "\<forall>c \<in> set (chunk_loop fuel w' ?n). c < G9"
      "length (chunk_loop fuel w' ?n) \<le> fuel" "chunk_loop fuel w' ?n \<noteq> [] \<Longrightarrow> last (chunk_loop fuel w' ?n) \<noteq> 0"
      using 2(1) [OF False d [symmetric] refl t(2) c(4)] t(1) by auto
    have e: "chunk_loop (Suc fuel) w nw = r # chunk_loop fuel w' ?n" using False by (simp add: d r)
    have "val w nw \<noteq> 0" using trimmed_val [OF 2(2)] False by simp
    then have "r \<noteq> 0" if "chunk_loop fuel w' ?n = []" using that IH(1) c(1) by auto
    then show ?thesis unfolding e using IH c by auto
  qed
qed

lemma chunk_digits_val: "dval (chunk_digits k v acc) = (v mod 10 ^ k) * 10 ^ length acc + dval acc"
proof (induction k v acc rule: chunk_digits.induct)
  case (2 k v acc)
  define a where "a = v div 10 mod 10 ^ k"
  define b where "b = v mod 10"
  have "v mod 10 ^ Suc k = 10 * a + b"
    unfolding a_def b_def power_Suc by (rule mod_mult2_eq)
  moreover have "dval (chunk_digits (Suc k) v acc) = a * 10 ^ Suc (length acc) + (b * 10 ^ length acc + dval acc)"
    using 2 by (simp only: chunk_digits.simps a_def b_def dval_simps list.size add_Suc_right add_0_right)
  ultimately show ?case by (simp only: power_Suc) (simp add: algebra_simps)
qed simp

lemma length_chunk_digits [simp]: "length (chunk_digits k v acc) = k + length acc"
  by (induction k v acc rule: chunk_digits.induct) simp_all

lemma chunk_digits_less: "\<forall>d \<in> set acc. d < 10 \<Longrightarrow> \<forall>d \<in> set (chunk_digits k v acc). d < 10"
proof (induction k v acc rule: chunk_digits.induct)
  case (2 k v acc)
  have "\<forall>d \<in> set (v mod 10 # acc). d < 10" using 2(2) by auto
  from 2(1) [OF this] show ?case by (simp only: chunk_digits.simps)
qed simp

lemma chunks_val:
  "\<forall>c \<in> set cs. c < G9 \<Longrightarrow> dval (concat (map (\<lambda>v. chunk_digits 9 v []) cs)) = digits_val G9 (rev cs)"
proof (induction cs)
  case (Cons c cs)
  have "c mod 10 ^ 9 = c" using Cons.prems by (simp add: G9_def)
  moreover have "length (concat (map (\<lambda>v. chunk_digits 9 v []) cs)) = 9 * length cs" by (induction cs) simp_all
  moreover have "(10::nat) ^ (9 * n) = G9 ^ n" for n by (simp add: power_mult G9_def)
  ultimately show ?case using Cons by (simp add: dval_simps chunk_digits_val digits_val_append)
qed (simp add: dval_simps)

lemma lead_digits:
  assumes "dval ds \<noteq> 0"
  shows "dval (lead_digits ds) = dval ds" "hd (lead_digits ds) \<noteq> 0" "lead_digits ds \<noteq> []" "set (lead_digits ds) \<subseteq> set ds"
    "length (lead_digits ds) \<le> length ds"
proof -
  define n where "n = count_upto (\<lambda>i. ds ! i = 0) (length ds - 1)"
  have ds: "ds \<noteq> []" using assms by (auto simp: dval_simps)
  have n: "n \<le> length ds - 1" "\<And>i. i < n \<Longrightarrow> ds ! i = 0" "n < length ds - 1 \<Longrightarrow> ds ! n \<noteq> 0"
    using count_upto_le count_upto_less count_upto_stop unfolding n_def by fastforce+
  then have nl: "n < length ds" using ds by (cases ds) auto
  have z: "take n ds = replicate n 0" using n nl by (intro nth_equalityI) auto
  have l: "lead_digits ds = drop n ds" by (simp add: lead_digits_def n_def)
  have "dval ds = dval (replicate n 0 @ drop n ds)" using z by (metis append_take_drop_id)
  then show v: "dval (lead_digits ds) = dval ds" by (simp add: dval_zeros l)
  show "lead_digits ds \<noteq> []" "set (lead_digits ds) \<subseteq> set ds" "length (lead_digits ds) \<le> length ds"
    using nl l by (auto dest: in_set_dropD)
  show "hd (lead_digits ds) \<noteq> 0"
  proof (cases "n < length ds - 1")
    case True
    then show ?thesis using n(3) nl l by (simp add: hd_drop_conv_nth)
  next
    case False
    then have "length (drop n ds) = 1" using n(1) ds by (cases ds) auto
    then obtain d where "drop n ds = [d]" by (cases "drop n ds") auto
    then show ?thesis using v l assms by (auto simp: dval_simps)
  qed
qed

lemma val_replicate: "val (replicate n 0) k = 0"
proof -
  have "digits_val b (replicate j 0) = 0" for b j by (induction j) simp_all
  then show ?thesis by (simp add: val_def)
qed

lemma B32_power: "B32 ^ n = 2 ^ (32 * n)"
  unfolding B32_def by (simp only: power_mult)

lemma split_shift:
  assumes "m < 2 ^ 53" "bs < 32"
  shows "u64 (m * 2 ^ bs) + 2 ^ 64 * (if bs \<noteq> 0 then m div 2 ^ (64 - bs) else 0) = m * 2 ^ bs"
    "(if bs \<noteq> 0 then m div 2 ^ (64 - bs) else 0) < B32"
proof -
  let ?hi = "if bs \<noteq> 0 then m div 2 ^ (64 - bs) else 0"
  have "(2::nat) ^ 33 \<le> 2 ^ (64 - bs)" using assms(2) by (intro power_increasing) simp_all
  then have "m div 2 ^ (64 - bs) \<le> m div 2 ^ 33" by (rule div_le_mono2 [rotated]) simp
  also have "\<dots> < B32" using assms(1) by (simp add: B32_def less_mult_imp_div_less)
  finally show "?hi < B32" by (simp add: B32_def)
  have "bs + (64 - bs) = 64" using assms(2) by simp
  then have p: "(2::nat) ^ 64 = 2 ^ bs * 2 ^ (64 - bs)" by (metis power_add)
  have "(2 ^ bs * m) div (2 ^ bs * 2 ^ (64 - bs)) = m div 2 ^ (64 - bs)" by (rule div_mult_mult1) simp
  then have "(m * 2 ^ bs) div 2 ^ 64 = m div 2 ^ (64 - bs)" unfolding p by (simp only: mult.commute)
  moreover have "m div 2 ^ 64 = 0" using assms(1) by (intro div_less) simp
  ultimately have "?hi = (m * 2 ^ bs) div 2 ^ 64" by (cases "bs = 0") simp_all
  then show "u64 (m * 2 ^ bs) + 2 ^ 64 * ?hi = m * 2 ^ bs" unfolding u64_def by (simp only: mod_mult_div_eq)
qed

lemma shift_limbs:
  assumes "m < 2 ^ 53" "e2 \<le> 971"
  shows "val (shift_limbs m e2) (e2 div 32 + 3) = m * 2 ^ e2" "limbs_ok (shift_limbs m e2)" "length (shift_limbs m e2) = 36"
proof -
  define ls where "ls = e2 div 32"
  define bs where "bs = e2 mod 32"
  define lo where "lo = u64 (m * 2 ^ bs)"
  define hi where "hi = (if bs \<noteq> 0 then m div 2 ^ (64 - bs) else 0)"
  have ls: "ls \<le> 30" using assms(2) by (simp add: ls_def)
  have s: "lo + 2 ^ 64 * hi = m * 2 ^ bs" "hi < B32"
    using split_shift [OF assms(1), of bs] by (simp_all add: lo_def hi_def bs_def)
  have "lo < B32 * B32" by (simp add: lo_def u64_def B32_def)
  then have b: "u32 (lo div B32) = lo div B32" by (intro u32_id) (simp add: less_mult_imp_div_less)
  have w: "shift_limbs m e2 = (replicate 36 0)[ls := u32 lo, ls + 1 := lo div B32, ls + 2 := hi]" (is "_ = ?w")
    unfolding shift_limbs_def Let_def ls_def [symmetric] bs_def [symmetric] lo_def [symmetric] hi_def [symmetric] b u32_id [OF s(2)]
    by (simp add: FP_LIMBS_def)
  show "length (shift_limbs m e2) = 36" by (simp add: w)
  show "limbs_ok (shift_limbs m e2)"
    unfolding w
  proof (intro limbs_ok_update)
    show "limbs_ok (replicate 36 0)" by (simp add: limbs_ok_def B32_def)
    show "lo div B32 < B32" using \<open>lo < B32 * B32\<close> by (simp add: less_mult_imp_div_less)
  qed (use s(2) in simp_all)
  have n: "?w ! ls = u32 lo" "?w ! (ls + 1) = lo div B32" "?w ! (ls + 2) = hi" using ls by simp_all
  have v0: "val ?w ls = 0" using val_simps(3) [of ls] by (simp add: val_replicate)
  have "val ?w (ls + 3) = u32 lo * B32 ^ ls + lo div B32 * B32 ^ (ls + 1) + hi * B32 ^ (ls + 2)"
    using val_simps(2) [of "ls + 2" ?w] val_simps(2) [of "ls + 1" ?w] val_simps(2) [of ls ?w] n v0 ls
    by (simp add: numeral_3_eq_3 numeral_2_eq_2)
  also have "\<dots> = (u32 lo + B32 * (lo div B32) + B32 * B32 * hi) * B32 ^ ls" by (simp add: algebra_simps)
  also have "u32 lo + B32 * (lo div B32) = lo" by (simp add: u32_def)
  also have "lo + B32 * B32 * hi = m * 2 ^ bs" using s(1) by (simp add: B32_def)
  also have "m * 2 ^ bs * B32 ^ ls = m * 2 ^ (bs + 32 * ls)" by (simp add: B32_power power_add)
  also have "bs + 32 * ls = e2" by (simp add: bs_def ls_def)
  finally show "val (shift_limbs m e2) (e2 div 32 + 3) = m * 2 ^ e2" by (simp add: w ls_def)
qed

text \<open>What it means for digits and an exponent to be exactly \<open>m * 2^e2\<close>, without fractions.\<close>

definition exact :: "nat \<Rightarrow> int \<Rightarrow> fp_dec \<Rightarrow> bool" where
  "exact m e2 q \<longleftrightarrow>
     dval (dec_d q) * 10 ^ nat (dec_x q + 1 - int (length (dec_d q))) * 2 ^ nat (- e2) =
     m * 2 ^ nat e2 * 10 ^ nat (int (length (dec_d q)) - 1 - dec_x q)"

definition dec_ok :: "fp_dec \<Rightarrow> bool" where
  "dec_ok q \<longleftrightarrow> dec_d q \<noteq> [] \<and> length (dec_d q) \<le> FP_MAXDIG \<and> hd (dec_d q) \<noteq> 0 \<and> last (dec_d q) \<noteq> 0 \<and> (\<forall>c \<in> set (dec_d q). c < 10)"

lemma fp_integer_exact:
  assumes "0 < m" "m < 2 ^ 53" "e2 \<le> 971"
  shows "exact m (int e2) (fp_integer m e2) \<and> dec_ok (fp_integer m e2)"
proof -
  define w where "w = shift_limbs m e2"
  define nw where "nw = trim_limbs w (e2 div 32 + 3)"
  define cs where "cs = chunk_loop 40 w nw"
  note sh = shift_limbs [OF assms(2,3), folded w_def]
  have le: "e2 div 32 + 3 \<le> length w" using assms(3) sh(3) by simp
  have t: "trimmed w nw" "val w nw = m * 2 ^ e2" using trim_limbs [OF le] sh(1) le by (simp_all add: trimmed_def nw_def)
  have "(2::nat) ^ e2 \<le> 2 ^ 971" using assms(3) by (intro power_increasing) simp_all
  with assms(2) have "m * 2 ^ e2 < 2 ^ 53 * 2 ^ 971" by (rule mult_less_le_imp_less) simp_all
  also have "\<dots> < G9 ^ 40" by (simp add: G9_def)
  finally have "val w nw < G9 ^ 40" using t(2) by simp
  note c = chunk_loop_correct [OF t(1) sh(2) this, folded cs_def]
  have "digits_val G9 cs \<noteq> 0" using c t(2) assms(1) by simp
  then obtain x r where x: "cs = r @ [x]" by (cases cs rule: rev_cases) auto
  let ?tail = "concat (map (\<lambda>v. chunk_digits 9 v []) (rev r))"
  define tmp where "tmp = lead_digits (chunk_digits 9 x []) @ ?tail"
  have f: "fp_integer m e2 = \<lparr>dec_d = strip_zeros tmp, dec_x = int (length tmp) - 1\<rparr>"
    unfolding fp_integer_def Let_def w_def [symmetric] nw_def [symmetric] cs_def [symmetric] by (simp add: x tmp_def)
  have "x mod 10 ^ 9 = x" "x \<noteq> 0" using c x by (auto simp: G9_def)
  then have "dval (chunk_digits 9 x []) \<noteq> 0" "dval (chunk_digits 9 x []) = x" by (simp_all add: chunk_digits_val dval_simps)
  note ld = lead_digits [OF this(1)]
  have len: "length ?tail = 9 * length r" by (induction r) simp_all
  have "dval tmp = x * 10 ^ (9 * length r) + digits_val G9 r"
    using chunks_val [of "rev r"] c x ld(1) \<open>dval (chunk_digits 9 x []) = x\<close> by (simp add: tmp_def dval_simps len)
  also have "\<dots> = digits_val G9 cs" by (simp add: x digits_val_append power_mult G9_def)
  finally have v: "dval tmp = m * 2 ^ e2" using c t(2) by simp
  have small: "\<forall>d \<in> set (chunk_digits 9 v []). d < 10" for v by (rule chunk_digits_less) simp
  have tmp: "hd tmp \<noteq> 0" "\<forall>d \<in> set tmp. d < 10"
    using ld(2,3) small [rule_format] subsetD [OF ld(4)] unfolding tmp_def by (simp, auto)
  have "length (lead_digits (chunk_digits 9 x [])) \<le> 9" using ld(5) by simp
  moreover have "length r \<le> 39" using c x by simp
  ultimately have "length tmp \<le> 360" by (simp add: tmp_def len)
  obtain z where z: "length tmp = length (strip_zeros tmp) + z" "dval tmp = dval (strip_zeros tmp) * 10 ^ z"
    "set (strip_zeros tmp) \<subseteq> set tmp" "strip_zeros tmp \<noteq> []" "hd (strip_zeros tmp) = hd tmp"
    using strip_zeros [of tmp] v assms(1) by (metis mult_is_0 neq0_conv power_not_zero zero_neq_numeral)
  show ?thesis
    using z v tmp strip_zeros_last [OF z(4)] \<open>length tmp \<le> 360\<close> by (auto simp: exact_def dec_ok_def f FP_MAXDIG_def)
qed

section \<open>The fraction branch\<close>

text \<open>Multiplying by ten from limb \<open>i\<close> on.\<close>

lemma mul_pass_correct:
  assumes "i + n \<le> length w" "limbs_ok w" "c < 10" "w' = mul_pass i n w c"
  shows "length w' = length w \<and> limbs_ok w' \<and> take i w' = take i w \<and>
    (\<exists>c' < 10. digits_val B32 (take n (drop i w')) + B32 ^ n * c' = 10 * digits_val B32 (take n (drop i w)) + c)"
  using assms
proof (induction i n w c arbitrary: w' rule: mul_pass.induct)
  case (1 i w carry)
  then show ?case by auto
next
  case (2 i n w c)
  define t where "t = w ! i * 10 + c"
  define w1 where "w1 = w[i := u32 t]"
  have i: "i < length w" using 2 by simp
  have wi: "w ! i < B32" using limbs_ok_nth 2 i by blast
  then have "t < (w ! i + 1) * 10" using 2 by (simp add: t_def)
  also have "\<dots> \<le> B32 * 10" using wi by (intro mult_right_mono) auto
  finally have c1: "t div B32 < 10" by (simp add: less_mult_imp_div_less mult.commute)
  have ok1: "limbs_ok w1" using 2 by (simp add: w1_def limbs_ok_update)
  have w': "w' = mul_pass (i + 1) n w1 (t div B32)" using 2 by (simp add: t_def w1_def Let_def)
  have l1: "i + 1 + n \<le> length w1" using 2(2) by (simp add: w1_def)
  obtain c' where IH: "length w' = length w1" "limbs_ok w'" "take (i + 1) w' = take (i + 1) w1" "c' < 10"
    "digits_val B32 (take n (drop (i + 1) w')) + B32 ^ n * c' = 10 * digits_val B32 (take n (drop (i + 1) w1)) + t div B32"
    using 2(1) [OF t_def, folded w1_def, OF l1 ok1 c1 w'] by blast
  have d: "drop (i + 1) w1 = drop (i + 1) w" by (simp add: w1_def)
  have "w' ! i = (take (i + 1) w') ! i" by simp
  also have "\<dots> = u32 t" using IH(3) i by (simp add: w1_def)
  finally have v: "take (Suc n) (drop i w') = u32 t # take n (drop (i + 1) w')"
    "take (Suc n) (drop i w) = w ! i # take n (drop (i + 1) w)"
    using i IH(1) by (simp_all add: Cons_nth_drop_Suc [symmetric] w1_def)
  have "digits_val B32 (take (Suc n) (drop i w')) + B32 ^ Suc n * c' =
      u32 t + B32 * (digits_val B32 (take n (drop (i + 1) w')) + B32 ^ n * c')" by (simp add: v algebra_simps)
  also have "\<dots> = (u32 t + B32 * (t div B32)) + B32 * (10 * digits_val B32 (take n (drop (i + 1) w)))"
    unfolding IH(5) d by (simp add: algebra_simps)
  also have "u32 t + B32 * (t div B32) = t" by (simp add: u32_def)
  finally have "digits_val B32 (take (Suc n) (drop i w')) + B32 ^ Suc n * c' = 10 * digits_val B32 (take (Suc n) (drop i w)) + c"
    by (simp add: v t_def algebra_simps)
  moreover have "take i w' = take i w"
    using arg_cong [OF IH(3), of "take i"] by (simp add: w1_def)
  ultimately show ?case using IH(1,2,4) by (auto simp: w1_def)
qed

lemma mul_pass_val:
  assumes "n \<le> length w" "limbs_ok w" "10 * val w n < B32 ^ n"
  shows "val (mul_pass 0 n w 0) n = 10 * val w n" "length (mul_pass 0 n w 0) = length w" "limbs_ok (mul_pass 0 n w 0)"
proof -
  obtain c' where c: "val (mul_pass 0 n w 0) n + B32 ^ n * c' = 10 * val w n"
    and l: "length (mul_pass 0 n w 0) = length w" "limbs_ok (mul_pass 0 n w 0)"
    using mul_pass_correct [of 0 n w 0, OF _ assms(2) _ refl] assms(1) by (auto simp: val_def)
  have "c' = 0"
  proof (rule ccontr)
    assume "c' \<noteq> 0"
    then have "B32 ^ n * 1 \<le> B32 ^ n * c'" by (intro mult_le_mono2) simp
    then show False using c assms(3) by linarith
  qed
  then show "val (mul_pass 0 n w 0) n = 10 * val w n" using c by simp
  show "length (mul_pass 0 n w 0) = length w" "limbs_ok (mul_pass 0 n w 0)" by (rule l)+
qed

lemma take_digit_val:
  assumes "k div 32 + 2 \<le> length w" "limbs_ok w" "val w (k div 32 + 2) < 10 * 2 ^ k"
    "take_digit (k div 32) (k mod 32) w = (digit, w')"
  shows "digit = val w (k div 32 + 2) div 2 ^ k" "val w' (k div 32 + 2) = val w (k div 32 + 2) mod 2 ^ k"
    "length w' = length w" "limbs_ok w'"
proof -
  define li where "li = k div 32"
  define sh where "sh = k mod 32"
  define low where "low = val w li"
  define a where "a = w ! li"
  define b where "b = w ! (li + 1)"
  define V where "V = val w (li + 2)"
  have sh: "sh < 32" by (simp add: sh_def)
  have "2 ^ k = (2::nat) ^ (32 * li + sh)" by (simp add: li_def sh_def)
  then have k: "2 ^ k = B32 ^ li * 2 ^ sh" by (simp add: B32_power power_add)
  have low: "low < B32 ^ li" unfolding low_def using val_less [OF assms(2)] assms(1) by (simp add: li_def)
  have V: "V = low + B32 ^ li * (a + B32 * b)"
    using val_simps(2) [of "li + 1" w] val_simps(2) [of li w] assms(1)
    by (simp add: V_def low_def a_def b_def li_def algebra_simps numeral_2_eq_2)
  have q: "V div 2 ^ k = (a + B32 * b) div 2 ^ sh" "V mod 2 ^ k = low + B32 ^ li * ((a + B32 * b) mod 2 ^ sh)"
  proof -
    have "V div B32 ^ li = a + B32 * b" "V mod B32 ^ li = low" using V low by simp_all
    then show "V div 2 ^ k = (a + B32 * b) div 2 ^ sh" "V mod 2 ^ k = low + B32 ^ li * ((a + B32 * b) mod 2 ^ sh)"
      unfolding k by (simp_all add: div_mult2_eq mod_mult2_eq)
  qed
  have B: "B32 = 2 ^ (32 - sh) * 2 ^ sh" using sh by (simp add: B32_def flip: power_add)
  have ab: "(a + B32 * b) div 2 ^ sh = a div 2 ^ sh + b * 2 ^ (32 - sh)" "(a + B32 * b) mod 2 ^ sh = a mod 2 ^ sh"
  proof -
    have e: "a + B32 * b = a + 2 ^ sh * (b * 2 ^ (32 - sh))" by (subst B) (simp only: ac_simps)
    show "(a + B32 * b) div 2 ^ sh = a div 2 ^ sh + b * 2 ^ (32 - sh)" "(a + B32 * b) mod 2 ^ sh = a mod 2 ^ sh"
      unfolding e by simp_all
  qed
  have "V div 2 ^ k < 10" using assms(3) by (simp add: V_def li_def less_mult_imp_div_less)
  then have small: "a div 2 ^ sh + b * 2 ^ (32 - sh) < 10" using q ab by simp
  then have "b * 2 ^ (32 - sh) < 10" by simp
  then have u: "u32 (b * 2 ^ (32 - sh)) = b * 2 ^ (32 - sh)" by (intro u32_id) (simp add: B32_def)
  have bz: "b = 0" if "sh = 0" using small that by (auto simp: B32_def)
  have dg: "u32 (a div 2 ^ sh + (if sh \<noteq> 0 then u32 (b * 2 ^ (32 - sh)) else 0)) = a div 2 ^ sh + b * 2 ^ (32 - sh)"
  proof -
    have "a div 2 ^ sh + (if sh \<noteq> 0 then u32 (b * 2 ^ (32 - sh)) else 0) = a div 2 ^ sh + b * 2 ^ (32 - sh)"
      using bz by (simp add: u)
    then show ?thesis using small by (simp only:) (rule u32_id, simp add: B32_def)
  qed
  have r: "digit = (a div 2 ^ sh + b * 2 ^ (32 - sh)) mod 16" "w' = w[li := (if sh \<noteq> 0 then a mod 2 ^ sh else 0), li + 1 := 0]"
    using assms(4) unfolding take_digit_def Let_def li_def [symmetric] sh_def [symmetric] a_def [symmetric] b_def [symmetric] dg
    by simp_all
  show "digit = val w (k div 32 + 2) div 2 ^ k" using r(1) small q ab by (simp add: V_def li_def [symmetric])
  have w': "w' = w[li := a mod 2 ^ sh, li + 1 := 0]" using r(2) by (cases "sh = 0") simp_all
  have len: "li + 1 < length w" using assms(1) by (simp add: li_def)
  have "val w' (li + 2) = val w' li + w' ! li * B32 ^ li + w' ! (li + 1) * B32 ^ (li + 1)"
    using val_simps(2) [of "li + 1" w'] val_simps(2) [of li w'] len by (simp add: w' numeral_2_eq_2)
  also have "\<dots> = low + B32 ^ li * (a mod 2 ^ sh)" using len by (simp add: w' val_simps low_def)
  finally show "val w' (k div 32 + 2) = val w (k div 32 + 2) mod 2 ^ k" using q ab by (simp add: V_def li_def [symmetric])
  show "length w' = length w" by (simp add: w')
  have "a < B32" using limbs_ok_nth [OF assms(2)] len by (simp add: a_def)
  then have "a mod 2 ^ sh < B32" by (rule le_less_trans [OF mod_less_eq_dividend])
  then show "limbs_ok w'" using assms(2) by (simp add: w' limbs_ok_update B32_def)
qed

lemma val_zero_iff: "n \<le> length w \<Longrightarrow> val w n = 0 \<longleftrightarrow> (\<forall>i < n. w ! i = 0)"
  by (induction n) (auto simp: val_simps less_Suc_eq)

lemma ten_times_fits:
  assumes "F < 2 ^ k"
  shows "10 * F < B32 ^ (k div 32 + 2)"
proof -
  have "10 * F < 16 * 2 ^ k" using assms by simp
  also have "\<dots> = 2 ^ (k + 4)" by (simp add: power_add)
  also have "\<dots> \<le> 2 ^ (32 * (k div 32 + 2))"
  proof (rule power_increasing)
    have "k < 32 * (k div 32) + 32" by (metis add.commute mod_less_divisor mult_div_mod_eq nat_add_left_cancel_less zero_less_numeral)
    then show "k + 4 \<le> 32 * (k div 32 + 2)" by simp
  qed simp
  finally show ?thesis by (simp only: B32_power)
qed

text \<open>
  The loop: with \<open>F\<close> the fraction in units of \<open>2^-k\<close>, it produces the digits of \<open>F / 2^k\<close> to the last one, within
  as many steps as the fraction has bits, because every step takes a factor of two out of it.
\<close>

lemma fraction_loop_correct:
  assumes "k div 32 + 2 \<le> length w" "limbs_ok w" "val w (k div 32 + 2) < 2 ^ k" "2 ^ (k - f) dvd val w (k div 32 + 2)" "f \<le> k"
    "fraction_loop (Suc f) k w d z = (d', z')"
  shows "\<exists>ds. length ds \<le> f \<and> (\<forall>c \<in> set ds. c < 10) \<and> val w (k div 32 + 2) * 10 ^ length ds = 2 ^ k * dval ds \<and>
    (length d + length (if d = [] then dropWhile (\<lambda>c. c = 0) ds else ds) \<le> FP_MAXDIG \<longrightarrow>
       d' = d @ (if d = [] then dropWhile (\<lambda>c. c = 0) ds else ds)) \<and>
    z' = z + (if d = [] then length (takeWhile (\<lambda>c. c = 0) ds) else 0)"
  using assms
proof (induction f arbitrary: w d z)
  case 0
  then have "val w (k div 32 + 2) = 0" by (auto dest: nat_dvd_not_less [rotated])
  then show ?case using 0(6) val_zero_iff [OF 0(1)] by (intro exI [of _ "[]"]) (auto simp: dval_simps)
next
  case (Suc f)
  let ?n = "k div 32 + 2"
  define F where "F = val w ?n"
  show ?case
  proof (cases "\<forall>i < ?n. w ! i = 0")
    case True
    then show ?thesis using Suc.prems(6) val_zero_iff [OF Suc.prems(1)] by (intro exI [of _ "[]"]) (auto simp: dval_simps)
  next
    case False
    define w1 where "w1 = mul_pass 0 ?n w 0"
    obtain digit w2 where td: "take_digit (k div 32) (k mod 32) w1 = (digit, w2)" by (rule prod.exhaust)
    have F: "F < 2 ^ k" using Suc.prems(3) by (simp add: F_def)
    have w1: "val w1 ?n = 10 * F" "length w1 = length w" "limbs_ok w1"
      using mul_pass_val [OF Suc.prems(1,2), folded w1_def] ten_times_fits [OF F] by (simp_all add: F_def)
    have td': "digit = 10 * F div 2 ^ k" "val w2 ?n = 10 * F mod 2 ^ k" "length w2 = length w" "limbs_ok w2"
      using take_digit_val [OF _ w1(3) _ td] w1(1,2) Suc.prems(1) F by simp_all
    have dg: "digit < 10" using F td'(1) by (simp add: less_mult_imp_div_less)
    define d2 where "d2 = (if d = [] \<and> digit = 0 then d else if length d < FP_MAXDIG then d @ [digit] else d)"
    define z2 where "z2 = (if d = [] \<and> digit = 0 then z + 1 else z)"
    have run: "fraction_loop (Suc f) k w2 d2 z2 = (d', z')"
      using Suc.prems(6) unfolding fraction_loop.simps(2) [of "Suc f"] if_not_P [OF False] w1_def [symmetric] td
      by (cases "d = [] \<and> digit = 0") (auto simp: d2_def z2_def simp del: fraction_loop.simps)
    have "2 ^ (k - f) = 2 * (2::nat) ^ (k - Suc f)" using Suc.prems(5) by (simp flip: power_Suc add: Suc_diff_Suc)
    moreover obtain u where "F = 2 ^ (k - Suc f) * u" using Suc.prems(4) by (auto simp: F_def)
    ultimately have "10 * F = 2 ^ (k - f) * (5 * u)" by simp
    then have "2 ^ (k - f) dvd 10 * F mod 2 ^ k" by (metis dvd_mod dvd_triv_left diff_le_self le_imp_power_dvd)
    then obtain ds where ds: "length ds \<le> f" "\<forall>c \<in> set ds. c < 10" "(10 * F mod 2 ^ k) * 10 ^ length ds = 2 ^ k * dval ds"
      "length d2 + length (if d2 = [] then dropWhile (\<lambda>c. c = 0) ds else ds) \<le> FP_MAXDIG \<longrightarrow>
         d' = d2 @ (if d2 = [] then dropWhile (\<lambda>c. c = 0) ds else ds)"
      "z' = z2 + (if d2 = [] then length (takeWhile (\<lambda>c. c = 0) ds) else 0)"
      using Suc.IH [OF _ td'(4) _ _ _ run] Suc.prems(1,5) td' by auto
    have "F * 10 ^ length (digit # ds) = (2 ^ k * digit + 10 * F mod 2 ^ k) * 10 ^ length ds"
      by (simp add: td'(1) algebra_simps)
    also have "\<dots> = 2 ^ k * dval (digit # ds)" using ds(3) by (simp add: dval_simps algebra_simps)
    finally have v: "F * 10 ^ length (digit # ds) = 2 ^ k * dval (digit # ds)" .
    have "(0::nat) < FP_MAXDIG" by (simp add: FP_MAXDIG_def)
    then have "(length d + length (if d = [] then dropWhile (\<lambda>c. c = 0) (digit # ds) else digit # ds) \<le> FP_MAXDIG \<longrightarrow>
         d' = d @ (if d = [] then dropWhile (\<lambda>c. c = 0) (digit # ds) else digit # ds)) \<and>
       z' = z + (if d = [] then length (takeWhile (\<lambda>c. c = 0) (digit # ds)) else 0)"
      using ds(4,5) by (cases "d = []"; cases "digit = 0") (auto simp: d2_def z2_def)
    then show ?thesis
      using v ds(1,2) dg by (intro exI [of _ "digit # ds"]) (simp add: F_def)
  qed
qed

lemma two_limbs:
  assumes "F < 2 ^ 64"
  shows "val ((replicate FP_LIMBS 0)[0 := u32 F, 1 := u32 (F div B32)]) (j + 2) = F"
    "limbs_ok ((replicate FP_LIMBS 0)[0 := u32 F, 1 := u32 (F div B32)])"
proof -
  have r: "replicate FP_LIMBS 0 = 0 # 0 # replicate 34 (0::nat)" by (simp add: FP_LIMBS_def numeral_eq_Suc)
  have "digits_val B32 (take j (replicate 34 0)) = 0" using val_replicate [of 34 j] by (simp only: val_def)
  moreover have "u32 (F div B32) = F div B32"
    using assms by (intro u32_id) (simp add: B32_def less_mult_imp_div_less)
  ultimately have "val ((replicate FP_LIMBS 0)[0 := u32 F, 1 := u32 (F div B32)]) (j + 2) = u32 F + B32 * (F div B32)"
    unfolding val_def r by simp
  then show "val ((replicate FP_LIMBS 0)[0 := u32 F, 1 := u32 (F div B32)]) (j + 2) = F" by (simp add: u32_def)
  have "limbs_ok (replicate FP_LIMBS 0)" by (simp add: limbs_ok_def)
  then show "limbs_ok ((replicate FP_LIMBS 0)[0 := u32 F, 1 := u32 (F div B32)])" by (intro limbs_ok_update) simp_all
qed

text \<open>A number below one has enough leading zeros for its digits to fit.\<close>

lemma significant_digits:
  assumes "F < 2 ^ 53" "F * 10 ^ length ds = 2 ^ k * dval ds" "length ds \<le> k" "k \<le> 1074"
  shows "length (dropWhile (\<lambda>c. c = 0) ds) \<le> FP_MAXDIG"
proof (cases "dropWhile (\<lambda>c. c = 0) ds = []")
  case False
  define z where "z = length (takeWhile (\<lambda>c. c = 0) ds)"
  define r where "r = length (dropWhile (\<lambda>c. c = 0) ds)"
  have l: "length ds = z + r" by (metis length_append takeWhile_dropWhile_id z_def r_def)
  have r0: "r \<noteq> 0" using False by (simp add: r_def)
  have "10 ^ (r - 1) \<le> dval ds"
    using dval_pos [OF False] hd_dropWhile [OF False] by (simp add: dval_dropWhile r_def)
  then have "2 ^ k * 10 ^ (r - 1) \<le> F * 10 ^ length ds" using assms(2) by simp
  also have "length ds = (z + 1) + (r - 1)" using l r0 by simp
  finally have "2 ^ k * 10 ^ (r - 1) \<le> F * 10 ^ (z + 1) * 10 ^ (r - 1)" by (simp only: power_add mult.assoc)
  then have "2 ^ k \<le> F * 10 ^ (z + 1)" by simp
  also have "\<dots> < 2 ^ 53 * 10 ^ (z + 1)" using assms(1) by simp
  finally have "(2 ^ k) ^ 3 < ((2::nat) ^ 53 * 10 ^ (z + 1)) ^ 3" by (rule power_strict_mono) simp_all
  also have "\<dots> = 2 ^ 159 * (10 ^ 3) ^ (z + 1)" by (simp only: power_mult_distrib power_mult [symmetric] mult.commute) simp
  also have "\<dots> \<le> 2 ^ 159 * (2 ^ 10) ^ (z + 1)" by (intro mult_le_mono2 power_mono) simp_all
  also have "\<dots> = 2 ^ (159 + 10 * (z + 1))" by (simp only: power_mult [symmetric] power_add [symmetric])
  finally have "(2::nat) ^ (k * 3) < 2 ^ (159 + 10 * (z + 1))" by (simp only: power_mult)
  then have "k * 3 < 159 + 10 * (z + 1)" by (rule power_less_imp_less_exp [rotated]) simp
  then show ?thesis using l assms(3,4) by (simp add: FP_MAXDIG_def r_def)
next
  case True
  then show ?thesis by (simp only: list.size)
qed

lemma digits_rev_last: "2 \<le> b \<Longrightarrow> 0 < v \<Longrightarrow> last (digits_rev b v) \<noteq> 0"
proof (induction b v rule: digits_rev.induct)
  case (1 b v)
  then show ?case
    by (cases "v div b = 0") (auto simp: digits_rev.simps [of b v] div_eq_0_iff)
qed

text \<open>From the digits before the trailing zeros are taken off to the result.\<close>

lemma exact_strip:
  assumes "ds \<noteq> []" "hd ds \<noteq> 0" "\<forall>c \<in> set ds. c < 10" "length ds \<le> FP_MAXDIG"
    "m * 10 ^ l = 2 ^ k * dval ds" "int (length ds) - 1 - x = int l"
  shows "exact m (- int k) \<lparr>dec_d = strip_zeros ds, dec_x = x\<rparr> \<and> dec_ok \<lparr>dec_d = strip_zeros ds, dec_x = x\<rparr>"
proof -
  have "1 \<le> (10::nat) ^ (length ds - 1)" by simp
  then have "dval ds \<noteq> 0" using dval_pos [OF assms(1,2)] by linarith
  then obtain z where z: "length ds = length (strip_zeros ds) + z" "dval ds = dval (strip_zeros ds) * 10 ^ z"
    "set (strip_zeros ds) \<subseteq> set ds" "strip_zeros ds \<noteq> []" "hd (strip_zeros ds) = hd ds"
    using strip_zeros [of ds] by metis
  define D where "D = dval (strip_zeros ds)"
  have n: "int (length (strip_zeros ds)) - 1 - x = int l - int z" using assms(6) z(1) by simp
  have eq: "m * 10 ^ l = 2 ^ k * D * 10 ^ z" using assms(5) z(2) by (simp add: D_def)
  have "D * 10 ^ nat (int z - int l) * 2 ^ k = m * 10 ^ nat (int l - int z)"
  proof (cases "z \<le> l")
    case True
    then have "m * 10 ^ (l - z) * 10 ^ z = (2 ^ k * D) * 10 ^ z"
      using eq by (simp add: mult.assoc flip: power_add)
    then have "m * 10 ^ (l - z) = 2 ^ k * D" by simp
    then show ?thesis using True by (simp add: nat_diff_distrib)
  next
    case False
    then have "m * 10 ^ l = (2 ^ k * D * 10 ^ (z - l)) * 10 ^ l"
      using eq by (simp add: mult.assoc flip: power_add)
    then have "m = 2 ^ k * D * 10 ^ (z - l)" by simp
    then show ?thesis using False by (simp add: nat_diff_distrib)
  qed
  moreover have "x + 1 - int (length (strip_zeros ds)) = int z - int l" using n by simp
  ultimately have "exact m (- int k) \<lparr>dec_d = strip_zeros ds, dec_x = x\<rparr>"
    using n by (simp only: exact_def D_def fp_dec.simps) simp
  moreover have "dec_ok \<lparr>dec_d = strip_zeros ds, dec_x = x\<rparr>"
    using z assms(2-4) strip_zeros_last [OF z(4)] by (auto simp: dec_ok_def)
  ultimately show ?thesis ..
qed

lemma fp_fraction_exact:
  assumes "0 < m" "m < 2 ^ 53" "0 < k" "k \<le> 1074"
  shows "exact m (- int k) (fp_fraction m k) \<and> dec_ok (fp_fraction m k)"
proof -
  define ip where "ip = (if k \<ge> 64 then 0 else m div 2 ^ k)"
  define F where "F = (if k \<ge> 64 then m else m mod 2 ^ k)"
  define t where "t = (if ip = 0 then [] else rev (digits_rev 10 ip))"
  define fl where "fl = (replicate FP_LIMBS 0)[0 := u32 F, 1 := u32 (F div B32)]"
  obtain d z where loop: "fraction_loop (Suc k) k fl t 0 = (d, z)" by (rule prod.exhaust)
  have fp: "fp_fraction m k = \<lparr>dec_d = strip_zeros d, dec_x = (if ip \<noteq> 0 then int (length t) - 1 else -1 - int z)\<rparr>"
    using loop unfolding fp_fraction_def Let_def ip_def [symmetric] F_def [symmetric] t_def [symmetric] fl_def [symmetric] by simp
  have "(2::nat) ^ 53 < 2 ^ k" if "64 \<le> k" using that by (intro power_strict_increasing) simp_all
  then have F: "F < 2 ^ k" "F < 2 ^ 53"
    using assms(2) by (auto simp: F_def intro: le_less_trans [OF mod_less_eq_dividend])
  have mF: "m = ip * 2 ^ k + F" unfolding ip_def F_def by (simp only: div_mult_mod_eq split: if_split) simp
  have v: "val fl (k div 32 + 2) = F" "limbs_ok fl" using two_limbs [of F] F(2) by (simp_all add: fl_def)
  have lf: "k div 32 + 2 \<le> length fl" using assms(4) by (simp add: fl_def FP_LIMBS_def)
  obtain ds where ds: "length ds \<le> k" "\<forall>c \<in> set ds. c < 10" "F * 10 ^ length ds = 2 ^ k * dval ds"
    "length t + length (if t = [] then dropWhile (\<lambda>c. c = 0) ds else ds) \<le> FP_MAXDIG \<longrightarrow>
       d = t @ (if t = [] then dropWhile (\<lambda>c. c = 0) ds else ds)"
    "z = (if t = [] then length (takeWhile (\<lambda>c. c = 0) ds) else 0)"
    using fraction_loop_correct [OF lf v(2) _ _ order_refl loop] F(1) v(1) by auto
  show ?thesis
  proof (cases "ip = 0")
    case True
    then have t: "t = []" by (simp add: t_def)
    have big: "length (dropWhile (\<lambda>c. c = 0) ds) \<le> FP_MAXDIG" by (rule significant_digits [OF F(2) ds(3,1) assms(4)])
    then have d: "d = dropWhile (\<lambda>c. c = 0) ds" "z = length (takeWhile (\<lambda>c. c = 0) ds)" using ds(4,5) t by simp_all
    have dv: "dval d = dval ds" by (simp add: d dval_dropWhile)
    have m: "m = F" using mF True by simp
    then have "dval d \<noteq> 0" using ds(3) assms(1) dv by (metis mult_is_0 neq0_conv power_not_zero zero_neq_numeral)
    then have ne: "d \<noteq> []" by (auto simp: dval_simps)
    have "length ds = z + length d" by (metis d length_append takeWhile_dropWhile_id)
    then have "int (length d) - 1 - (-1 - int z) = int (length ds)" by simp
    moreover have "hd d \<noteq> 0" using hd_dropWhile [of "\<lambda>c. c = 0" ds] ne by (simp add: d)
    moreover have "\<forall>c \<in> set d. c < 10" using ds(2) d(1) by (metis set_dropWhileD)
    moreover have "length d \<le> FP_MAXDIG" using big d(1) by metis
    moreover have "m * 10 ^ length ds = 2 ^ k * dval d" unfolding m dv by (rule ds(3))
    ultimately have "exact m (- int k) \<lparr>dec_d = strip_zeros d, dec_x = -1 - int z\<rparr> \<and> dec_ok \<lparr>dec_d = strip_zeros d, dec_x = -1 - int z\<rparr>"
      by (intro exact_strip [OF ne])
    then show ?thesis using True by (simp only: fp) simp
  next
    case False
    then have k: "k < 64" by (auto simp: ip_def split: if_splits)
    have t: "t = rev (digits_rev 10 ip)" "t \<noteq> []" using False by (simp_all add: t_def)
    have "ip \<le> m" using False by (simp add: ip_def split: if_splits)
    then have "ip < 10 ^ 20" using assms(2) by simp
    then have lt: "length t \<le> 20" using length_digits_rev [of 10 ip 20] t by simp
    then have d: "d = t @ ds" using ds(1,4) t(2) k by (simp add: FP_MAXDIG_def)
    have "dval t = ip" by (simp add: t dval_rev digits_val_rev)
    then have "m * 10 ^ length ds = 2 ^ k * dval d" using ds(3) by (simp add: mF d dval_simps algebra_simps)
    moreover have "hd d \<noteq> 0" using digits_rev_last [of 10 ip] False t by (simp add: d hd_rev)
    moreover have "\<forall>c \<in> set d. c < 10" using digits_rev_less [of 10 _ ip] ds(2) by (auto simp: d t)
    moreover have "length d \<le> FP_MAXDIG" using lt ds(1) k by (simp add: d FP_MAXDIG_def)
    ultimately show ?thesis
      using exact_strip [of d m "length ds" k "int (length t) - 1"] t(2) False by (simp only: fp) (simp add: d)
  qed
qed

lemma fp_exact_digits:
  assumes "0 < m" "m < 2 ^ 53" "-1074 \<le> e2" "e2 \<le> 971"
  shows "exact m e2 (fp_exact m e2) \<and> dec_ok (fp_exact m e2)"
proof (cases "e2 \<ge> 0")
  case True
  then show ?thesis using fp_integer_exact [of m "nat e2"] assms by (simp add: fp_exact_def)
next
  case False
  then show ?thesis using fp_fraction_exact [of m "nat (- e2)"] assms by (simp add: fp_exact_def)
qed

section \<open>Rounding\<close>

lemma carry_up_correct:
  assumes "n \<le> length r" "\<forall>c \<in> set r. c < 10" "carry_up r n = (c, r')"
  shows "dval (take n r') + (if c then 10 ^ n else 0) = dval (take n r) + 1 \<and> drop n r' = drop n r \<and>
    length r' = length r \<and> (\<forall>c \<in> set r'. c < 10)"
  using assms
proof (induction r n rule: carry_up.induct)
  case (1 r)
  then show ?case by (auto simp: dval_simps)
next
  case (2 r i)
  have i: "i < length r" using 2(2) by simp
  have step: "dval (take (Suc i) s) = dval (take i s) * 10 + s ! i" if "length s = length r" for s
    using that i by (simp add: take_Suc_conv_app_nth dval_simps)
  show ?case
  proof (cases "r ! i = 9")
    case True
    let ?s = "r[i := 0]"
    have less: "\<forall>c \<in> set ?s. c < 10" using 2(3) set_update_subset_insert [of r i 0] by fastforce
    have IH: "dval (take i r') + (if c then 10 ^ i else 0) = dval (take i ?s) + 1" "drop i r' = drop i ?s" "length r' = length r"
      "\<forall>c \<in> set r'. c < 10"
      using 2(1) [OF True _ less] 2(4) True i by auto
    have ri: "r' ! i = 0" using IH(2,3) i by (metis nth_list_update_eq nth_via_drop Cons_nth_drop_Suc length_list_update)
    have "drop 1 (drop i r') = drop 1 (drop i ?s)" using IH(2) by simp
    then have "drop (Suc i) r' = drop (Suc i) r" by simp
    moreover have "dval (take (Suc i) r') + (if c then 10 ^ Suc i else 0) = 10 * (dval (take i r') + (if c then 10 ^ i else 0))"
      using step [OF IH(3)] ri by simp
    ultimately show ?thesis using IH step [OF refl] True by simp
  next
    case False
    have "r ! i < 10" using 2(3) i by simp
    then have "r ! i + 1 < 10" using False by simp
    moreover have r': "c = False" "r' = r[i := r ! i + 1]" using 2(4) False by auto
    ultimately have "\<forall>c \<in> set r'. c < 10" using 2(3) set_update_subset_insert [of r i "r ! i + 1"] by fastforce
    then show ?thesis using r' step [of r'] step [of r] i by simp
  qed
qed

lemma odd_dval: "ds \<noteq> [] \<Longrightarrow> odd (dval ds) \<longleftrightarrow> odd (last ds)"
  by (cases ds rule: rev_cases) (simp_all add: dval_simps)

text \<open>The test of the code on the digits that are dropped is the test of the remainder against half a unit.\<close>

lemma round_up_half:
  assumes "dec_ok q" "k < length (dec_d q)"
  shows "round_up (dec_d q) (int k) \<longleftrightarrow>
    10 ^ (length (dec_d q) - k) < 2 * dval (drop k (dec_d q)) \<or>
    (10 ^ (length (dec_d q) - k) = 2 * dval (drop k (dec_d q)) \<and> odd (dval (take k (dec_d q))))"
proof -
  define d where "d = dec_d q"
  define V where "V = (10::nat) ^ (length d - k - 1)"
  define tl' where "tl' = dval (drop (Suc k) d)"
  have d: "\<forall>c \<in> set d. c < 10" "last d \<noteq> 0" "k < length d" using assms by (auto simp: dec_ok_def d_def)
  have "Suc (length d - k - 1) = length d - k" using d(3) by simp
  then have U: "10 ^ (length d - k) = 10 * V" unfolding V_def by (metis power_Suc)
  have rem: "dval (drop k d) = d ! k * V + tl'"
    using d(3) by (simp add: Cons_nth_drop_Suc [symmetric] dval_simps V_def tl'_def)
  have t: "tl' < V" using dval_less [of "drop (Suc k) d"] d(1) by (auto simp: tl'_def V_def dest: in_set_dropD)
  have t0: "tl' = 0 \<longleftrightarrow> k + 1 = length d"
  proof
    assume z: "tl' = 0"
    show "k + 1 = length d"
    proof (rule ccontr)
      assume "k + 1 \<noteq> length d"
      then have ne: "drop (Suc k) d \<noteq> []" using d(3) by simp
      then have "last (drop (Suc k) d) = last d" by (simp add: last_drop)
      moreover obtain b where "drop (Suc k) d = b @ [last (drop (Suc k) d)]" using ne by (metis append_butlast_last_id)
      ultimately have "drop (Suc k) d = b @ [last d]" by metis
      then have "tl' = dval b * 10 + last d" by (simp add: tl'_def dval_simps)
      then show False using z d(2) by simp
    qed
  qed (simp add: tl'_def dval_simps)
  have od: "odd (dval (take k d)) \<longleftrightarrow> k > 0 \<and> odd (d ! (k - 1))"
  proof (cases k)
    case (Suc j)
    then have "last (take k d) = d ! j" "take k d \<noteq> []" using d(3) by (auto simp: take_Suc_conv_app_nth)
    then show ?thesis using odd_dval [of "take k d"] Suc by simp
  qed (simp add: dval_simps)
  have ru: "round_up d (int k) \<longleftrightarrow> d ! k > 5 \<or> (d ! k = 5 \<and> (k + 1 < length d \<or> (k > 0 \<and> odd (d ! (k - 1)))))"
  proof -
    have "nat (int k - 1) = k - 1" "int k + 1 < int (length d) \<longleftrightarrow> k + 1 < length d" by auto
    then show ?thesis by (simp add: round_up_def Let_def)
  qed
  define X where "X = d ! k * V"
  consider "d ! k > 5" | "d ! k = 5" | "d ! k < 5" by linarith
  then have "round_up d (int k) \<longleftrightarrow> 10 * V < 2 * (X + tl') \<or> (10 * V = 2 * (X + tl') \<and> odd (dval (take k d)))"
  proof cases
    case 1
    then have "6 * V \<le> X" unfolding X_def by (intro mult_right_mono) auto
    moreover have "0 < V" by (simp add: V_def)
    ultimately have "10 * V < 2 * X" by linarith
    then have "10 * V < 2 * (X + tl')" by simp
    then show ?thesis using 1 ru by simp
  next
    case 2
    then have "X = 5 * V" by (simp add: X_def)
    then have "10 * V < 2 * (X + tl') \<longleftrightarrow> tl' \<noteq> 0" "10 * V = 2 * (X + tl') \<longleftrightarrow> tl' = 0" by simp_all
    moreover have "k + 1 < length d \<longleftrightarrow> tl' \<noteq> 0" using t0 d(3) by linarith
    ultimately show ?thesis using 2 ru od by simp blast
  next
    case 3
    then have "X \<le> 4 * V" unfolding X_def by (intro mult_right_mono) auto
    then have "X + tl' < 5 * V" using t by simp
    then have "2 * (X + tl') < 10 * V" by simp
    then show ?thesis using 3 ru by auto
  qed
  then show ?thesis by (simp only: d_def [symmetric] U rem X_def)
qed

lemma fp_round_digits_value:
  assumes "dec_ok q" "k < length (dec_d q)"
  shows "dval (dec_d (fp_round_digits q (int k))) = dval (take k (dec_d q)) + (if round_up (dec_d q) (int k) then 1 else 0)"
    "int (length (dec_d (fp_round_digits q (int k)))) - dec_x (fp_round_digits q (int k)) = int k - dec_x q"
    "\<forall>c \<in> set (dec_d (fp_round_digits q (int k))). c < 10"
proof -
  define r where "r = take k (dec_d q)"
  have r: "\<forall>c \<in> set r. c < 10" "length r = k" using assms by (auto simp: dec_ok_def r_def dest: in_set_takeD)
  obtain c r' where cu: "carry_up r (length r) = (c, r')" by (rule prod.exhaust)
  note cc = carry_up_correct [OF order_refl r(1) cu]
  have cv: "dval r' + (if c then 10 ^ length r else 0) = dval r + 1" using cc by (metis order_refl take_all)
  have z: "dval r' = 0" if c
  proof -
    have "dval r' + 10 ^ length r = dval r + 1" using cv that by simp
    moreover have "dval r < 10 ^ length r" by (rule dval_less [OF r(1)])
    ultimately show ?thesis by linarith
  qed
  have f: "fp_round_digits q (int k) = (if \<not> round_up (dec_d q) (int k) then \<lparr>dec_d = r, dec_x = dec_x q\<rparr>
      else if c then \<lparr>dec_d = 1 # r', dec_x = dec_x q + 1\<rparr> else \<lparr>dec_d = r', dec_x = dec_x q\<rparr>)"
    using assms(2) cu by (simp add: fp_round_digits_def r_def [symmetric] Let_def)
  show "dval (dec_d (fp_round_digits q (int k))) = dval (take k (dec_d q)) + (if round_up (dec_d q) (int k) then 1 else 0)"
    using cv z cc by (cases c) (auto simp: f r_def [symmetric] dval_simps)
  show "int (length (dec_d (fp_round_digits q (int k)))) - dec_x (fp_round_digits q (int k)) = int k - dec_x q"
    using cc r(2) by (simp add: f)
  show "\<forall>c \<in> set (dec_d (fp_round_digits q (int k))). c < 10" using cc r(1) by (simp add: f)
qed

lemma fp_round_digits_all: "int (length (dec_d q)) \<le> k \<Longrightarrow> fp_round_digits q k = q"
  by (simp add: fp_round_digits_def)

lemma nearest_even:
  fixes T X U :: nat
  assumes "X < U" "up \<longleftrightarrow> U < 2 * X \<or> (U = 2 * X \<and> odd T)" "D = T * U + X" "R = T + (if up then 1 else 0)"
  shows "2 * (R * U) \<le> 2 * D + U \<and> 2 * D \<le> 2 * (R * U) + U \<and>
    (2 * (R * U) = 2 * D + U \<or> 2 * D = 2 * (R * U) + U \<longrightarrow> even R)"
proof (cases up)
  case True
  then have "R * U = T * U + U" "U \<le> 2 * X" using assms(2,4) by (auto simp: algebra_simps)
  moreover have "even R" if "U = 2 * X" using True assms(2,4) that by auto
  ultimately show ?thesis using assms(1,3) by auto
next
  case False
  then have "R = T" "2 * X \<le> U" using assms(2,4) by auto
  moreover have "even T" if "U = 2 * X" using False assms(2) that by blast
  ultimately show ?thesis using assms(1,3) by auto
qed

lemma take_rounded_length: "length (dec_d (fp_round_digits q k)) \<le> length (dec_d q) + 1"
proof -
  have "length (snd (carry_up r n)) = length r" for r n
    by (induction r n rule: carry_up.induct) (simp_all add: Let_def)
  then have "carry_up r n = (c, r') \<Longrightarrow> length r' = length r" for r n c r' by (metis snd_conv)
  then show ?thesis by (auto simp: fp_round_digits_def Let_def split: prod.splits bool.splits)
qed

text \<open>C21. fp_exact on the significand and exponent of any finite nonzero double: the digits, at their decimal exponent, are exactly the
  number (cleared of denominators), there is at least one and at most as many as the array holds, each is a decimal digit,
  and neither the first nor the last is a zero, so the expansion is the shortest one.\<close>

theorem fp_exact_correct:
  assumes "0 < m" "m < 2 ^ 53" "-1074 \<le> e2" "e2 \<le> 971"
  shows "let q = fp_exact m e2; n = int (length (dec_d q)) in
    dval (dec_d q) * 10 ^ nat (dec_x q + 1 - n) * 2 ^ nat (- e2) = m * 2 ^ nat e2 * 10 ^ nat (n - 1 - dec_x q) \<and>
    dec_d q \<noteq> [] \<and> n \<le> 800 \<and> hd (dec_d q) \<noteq> 0 \<and> last (dec_d q) \<noteq> 0 \<and> list_all (\<lambda>c. c < 10) (dec_d q)"
  using fp_exact_digits [OF assms] by (simp add: exact_def dec_ok_def FP_MAXDIG_def Let_def list_all_iff)

theorem fp_exact_correct_witness:
  "last (dec_d (fp_exact 1 (-1074))) \<noteq> 0 \<and> length (dec_d (fp_exact (2 ^ 53 - 1) 971)) \<le> 800"
  using fp_exact_correct [of 1 "-1074"] fp_exact_correct [of "2 ^ 53 - 1" 971] by (simp add: Let_def)

text \<open>C22. Rounding the digits of a finite nonzero double to \<open>k\<close> of them: asked for at least as many as there are, the digits are
  unchanged; asked for a negative number, there are none. Otherwise the result, in units of its last place, is within half a
  unit of the number, and is even when the number is exactly halfway; its last place is the \<open>k\<close>-th of the number, also when a
  carry adds a digit; and it fits the array.\<close>

theorem fp_round_nearest_even:
  assumes "0 < m" "m < 2 ^ 53" "-1074 \<le> e2" "e2 \<le> 971"
  shows "let q = fp_exact m e2; n = length (dec_d q); r = fp_round_digits q k; D = dval (dec_d q); R = dval (dec_d r); U = 10 ^ (n - nat k) in
    (k < 0 \<longrightarrow> dec_d r = []) \<and> (int n \<le> k \<longrightarrow> r = q) \<and>
    (0 \<le> k \<and> k < int n \<longrightarrow>
       2 * (R * U) \<le> 2 * D + U \<and> 2 * D \<le> 2 * (R * U) + U \<and>
       (2 * (R * U) = 2 * D + U \<or> 2 * D = 2 * (R * U) + U \<longrightarrow> even R) \<and>
       dec_x r - int (length (dec_d r)) = dec_x q - k \<and> length (dec_d r) \<le> 802 \<and> (\<forall>c \<in> set (dec_d r). c < 10))"
proof -
  define q where "q = fp_exact m e2"
  have ok: "dec_ok q" using fp_exact_digits [OF assms] by (simp add: q_def)
  have "2 * (dval (dec_d (fp_round_digits q k)) * 10 ^ (length (dec_d q) - nat k)) \<le> 2 * dval (dec_d q) + 10 ^ (length (dec_d q) - nat k) \<and>
    2 * dval (dec_d q) \<le> 2 * (dval (dec_d (fp_round_digits q k)) * 10 ^ (length (dec_d q) - nat k)) + 10 ^ (length (dec_d q) - nat k) \<and>
    (2 * (dval (dec_d (fp_round_digits q k)) * 10 ^ (length (dec_d q) - nat k)) = 2 * dval (dec_d q) + 10 ^ (length (dec_d q) - nat k) \<or>
     2 * dval (dec_d q) = 2 * (dval (dec_d (fp_round_digits q k)) * 10 ^ (length (dec_d q) - nat k)) + 10 ^ (length (dec_d q) - nat k) \<longrightarrow>
       even (dval (dec_d (fp_round_digits q k)))) \<and>
    dec_x (fp_round_digits q k) - int (length (dec_d (fp_round_digits q k))) = dec_x q - k \<and>
    (\<forall>c \<in> set (dec_d (fp_round_digits q k)). c < 10)" if k: "0 \<le> k" "k < int (length (dec_d q))"
  proof -
    obtain j where j: "k = int j" "j < length (dec_d q)" using k by (metis nonneg_int_cases of_nat_less_iff)
    have lt: "dval (drop j (dec_d q)) < 10 ^ (length (dec_d q) - j)"
      using dval_less [of "drop j (dec_d q)"] ok by (auto simp: dec_ok_def dest: in_set_dropD)
    have D: "dval (dec_d q) = dval (take j (dec_d q)) * 10 ^ (length (dec_d q) - j) + dval (drop j (dec_d q))"
      using dval_simps(3) [of "take j (dec_d q)" "drop j (dec_d q)"] by simp
    show ?thesis
      using nearest_even [OF lt round_up_half [OF ok j(2)] D fp_round_digits_value(1) [OF ok j(2)]]
        fp_round_digits_value(2,3) [OF ok j(2)] unfolding j(1) nat_int by linarith
  qed
  moreover have "length (dec_d (fp_round_digits q k)) \<le> 802"
    using take_rounded_length [of q k] ok by (simp add: dec_ok_def FP_MAXDIG_def)
  ultimately show ?thesis unfolding Let_def q_def [symmetric] using fp_round_digits_all [of q k]
    by (auto simp: fp_round_digits_def)
qed

text \<open>The tie 25 to one digit goes down to 2.\<close>

lemma demo_chunk: "lead_digits (chunk_digits 9 25 []) = [2, 5]"
  by code_simp

lemma demo_digits: "fp_exact 25 0 = \<lparr>dec_d = [2, 5], dec_x = 1\<rparr>"
proof -
  have c: "u32 25 = 25" "u64 25 = 25" "u32 0 = 0" "(25::nat) div B32 = 0" "(25::nat) div G9 = 0" "(25::nat) mod G9 = 25"
    by (simp_all add: u32_def u64_def B32_def G9_def)
  have w: "shift_limbs 25 0 = 25 # replicate 35 0"
    using replicate_Suc [of 35 "0 :: nat"] replicate_Suc [of 34 "0 :: nat"] replicate_Suc [of 33 "0 :: nat"]
    by (simp add: shift_limbs_def FP_LIMBS_def c Let_def list_update_code)
  have t: "trim_limbs (25 # replicate 35 0) 3 = 1" by (simp add: numeral_3_eq_3)
  have d: "div_pass 1 (25 # replicate 35 0) 0 = (0 # replicate 35 0, 25)"
    using div_pass.simps(2) [of 0 "25 # replicate 35 0" 0] by (simp add: c Let_def)
  have "chunk_loop (Suc 39) (25 # replicate 35 0) 1 = [25]"
    unfolding chunk_loop.simps(2) d using chunk_loop.simps(2) [of 38 _ 0] by (simp add: c)
  then have l: "chunk_loop 40 (25 # replicate 35 0) 1 = [25]" by simp
  show ?thesis by (simp add: fp_exact_def fp_integer_def w t l [simplified One_nat_def] demo_chunk strip_zeros_def Let_def)
qed

theorem fp_round_nearest_even_witness:
  "fp_round_digits (fp_exact 25 0) 2 = fp_exact 25 0 \<and> dec_d (fp_round_digits (fp_exact 25 0) (-1)) = [] \<and>
   even (dval (dec_d (fp_round_digits (fp_exact 25 0) 1))) \<and> dec_d (fp_round_digits (fp_exact 25 0) 1) = [2]"
proof -
  have r: "fp_round_digits \<lparr>dec_d = [2, 5], dec_x = 1\<rparr> 1 = \<lparr>dec_d = [2], dec_x = 1\<rparr>"
    by (simp add: fp_round_digits_def round_up_def)
  have h: "(0::nat) < 25" "(25::nat) < 2 ^ 53" "-1074 \<le> (0::int)" "(0::int) \<le> 971" by simp_all
  have u: "even (dval [2])" by (simp add: dval_def)
  note w = fp_round_nearest_even [OF h, unfolded demo_digits Let_def]
  have "fp_round_digits \<lparr>dec_d = [2, 5], dec_x = 1\<rparr> 2 = \<lparr>dec_d = [2, 5], dec_x = 1\<rparr>"
    "dec_d (fp_round_digits \<lparr>dec_d = [2, 5], dec_x = 1\<rparr> (-1)) = []"
    using w [of 2] w [of "-1"] by (simp_all del: One_nat_def)
  then show ?thesis unfolding demo_digits r using u by simp
qed

end
