(* ===== verification/Printf.thy ===== *)
theory Printf
  imports CString Fpfmt
begin

text \<open>
  The printf engine: \<open>lib/moqi_libc/src/format.c\<close>. Output goes into a buffer in memory, or through a sink that is called
  with what the buffer holds whenever it is full. The variable arguments are the two sequences of the calling convention: the
  general registers and stack slots, read at the width of the conversion, and the floating-point ones, as the 64 bits of a
  double. What a pointer argument points to is a parameter: the string, or the wide characters, before the terminator. A
  conversion is the list of its calls of the output routines, in order. A sink that never returns, and the loop over
  a sink with a buffer of no bytes, are runs without a result.
\<close>

section \<open>Output\<close>

definition FMT_INT_MAX :: nat where "FMT_INT_MAX = 2147483647"
definition EOVERFLOW :: int where "EOVERFLOW = 75"
definition EILSEQ :: int where "EILSEQ = 84"

record 'w fmt_out =
  o_mem :: mem
  o_buf :: nat
  o_cap :: nat
  o_fill :: nat
  o_pos :: nat
  o_sink :: "('w \<Rightarrow> string \<Rightarrow> (int \<times> 'w) option) option"
  o_world :: 'w
  o_err :: int
  o_hung :: bool

definition out_flush :: "'w fmt_out \<Rightarrow> 'w fmt_out" where
  "out_flush o' =
     (if o_err o' \<noteq> 0 \<or> o_fill o' = 0 then o'
      else case the (o_sink o') (o_world o') (bytes (o_mem o') (o_buf o') (o_fill o')) of
          None \<Rightarrow> o'\<lparr>o_hung := True\<rparr>
        | Some (e, w) \<Rightarrow> o'\<lparr>o_fill := 0, o_world := w, o_err := e\<rparr>)"

text \<open>Whether there is room, and the state after the test.\<close>

definition out_room :: "'w fmt_out \<Rightarrow> nat \<Rightarrow> bool \<times> 'w fmt_out" where
  "out_room o' n =
     (if o_err o' \<noteq> 0 \<or> o_hung o' then (False, o')
      else if o_pos o' + n > FMT_INT_MAX then (False, o'\<lparr>o_err := EOVERFLOW\<rparr>)
      else (True, o'))"

lemma out_flush_fill: "o_fill o' \<noteq> 0 \<Longrightarrow> o_err (out_flush o') = 0 \<Longrightarrow> \<not> o_hung (out_flush o') \<Longrightarrow> o_fill (out_flush o') = 0"
  by (auto simp: out_flush_def split: option.splits if_splits)

lemma three_lengths: "p \<noteq> [] \<Longrightarrow> Suc 0 < 3 * length p"
  by (cases p) simp_all

function bytes_loop :: "'w fmt_out \<Rightarrow> string \<Rightarrow> 'w fmt_out" where
  "bytes_loop o' p =
     (if p = [] then o'
      else let space = o_cap o' - o_fill o' in
        if space = 0 then
          if o_sink o' = None then o'
          else if o_err (out_flush o') \<noteq> 0 \<or> o_hung (out_flush o') then out_flush o'
          else if o_fill o' = 0 then o'\<lparr>o_hung := True\<rparr>
          else bytes_loop (out_flush o') p
        else let k = min (length p) space in
          bytes_loop (o'\<lparr>o_mem := store (o_mem o') (o_buf o' + o_fill o') (take k p), o_fill := o_fill o' + k\<rparr>) (drop k p))"
  by pat_completeness auto
termination
  by (relation "measure (\<lambda>(o', p). 3 * length p + (if o_fill o' \<noteq> 0 then 1 else 0))") (auto simp: out_flush_fill min_def three_lengths)

declare bytes_loop.simps [simp del]

definition out_bytes :: "'w fmt_out \<Rightarrow> string \<Rightarrow> 'w fmt_out" where
  "out_bytes o' p =
     (let (ok, o1) = out_room o' (length p) in
      if \<not> ok then o1 else bytes_loop (o1\<lparr>o_pos := o_pos o1 + length p\<rparr>) p)"

function fill_loop :: "'w fmt_out \<Rightarrow> char \<Rightarrow> nat \<Rightarrow> 'w fmt_out" where
  "fill_loop o' c n =
     (if n = 0 then o'
      else let space = o_cap o' - o_fill o' in
        if space = 0 then
          if o_sink o' = None then o'
          else if o_err (out_flush o') \<noteq> 0 \<or> o_hung (out_flush o') then out_flush o'
          else if o_fill o' = 0 then o'\<lparr>o_hung := True\<rparr>
          else fill_loop (out_flush o') c n
        else let k = min n space in
          fill_loop (o'\<lparr>o_mem := store (o_mem o') (o_buf o' + o_fill o') (replicate k c), o_fill := o_fill o' + k\<rparr>) c (n - k))"
  by pat_completeness auto
termination
  by (relation "measure (\<lambda>(o', c, n). 3 * n + (if o_fill o' \<noteq> 0 then 1 else 0))") (auto simp: out_flush_fill min_def three_lengths)

declare fill_loop.simps [simp del]

definition out_fill :: "'w fmt_out \<Rightarrow> char \<Rightarrow> nat \<Rightarrow> 'w fmt_out" where
  "out_fill o' c n =
     (let (ok, o1) = out_room o' n in
      if \<not> ok then o1 else fill_loop (o1\<lparr>o_pos := o_pos o1 + n\<rparr>) c n)"

definition out_char :: "'w fmt_out \<Rightarrow> char \<Rightarrow> 'w fmt_out" where
  "out_char o' c = out_bytes o' [c]"

text \<open>The calls of a conversion, to be made in order.\<close>

datatype piece = Bytes string | Fill char nat

fun out_piece :: "piece \<Rightarrow> 'w fmt_out \<Rightarrow> 'w fmt_out" where
  "out_piece (Bytes p) o' = out_bytes o' p"
| "out_piece (Fill c n) o' = out_fill o' c n"

definition out_pieces :: "piece list \<Rightarrow> 'w fmt_out \<Rightarrow> 'w fmt_out" where
  "out_pieces ps o' = fold out_piece ps o'"

definition dec_piece :: "nat \<Rightarrow> piece" where
  "dec_piece v = Bytes (dec_text v)"

section \<open>Numbers and text\<close>

datatype len_mod = LEN_NONE | LEN_HH | LEN_H | LEN_L | LEN_LL | LEN_OTHER

record fspec =
  f_alt :: bool
  f_group :: bool
  f_plus :: bool
  f_space :: bool
  f_left :: bool
  f_zero :: bool
  f_i18n :: bool
  f_width :: nat
  f_prec :: int
  f_len :: len_mod
  f_ldbl :: bool

definition fspec0 :: fspec where
  "fspec0 = \<lparr>f_alt = False, f_group = False, f_plus = False, f_space = False, f_left = False, f_zero = False, f_i18n = False,
     f_width = 0, f_prec = -1, f_len = LEN_NONE, f_ldbl = False\<rparr>"

definition len_is_wide :: "len_mod \<Rightarrow> bool" where
  "len_is_wide l \<longleftrightarrow> l = LEN_L \<or> l = LEN_LL \<or> l = LEN_OTHER"

definition only_if :: "bool \<Rightarrow> piece list \<Rightarrow> piece list" where
  "only_if b ps = (if b then ps else [])"

definition hex_digits :: "bool \<Rightarrow> string" where
  "hex_digits upper = (if upper then ''0123456789ABCDEF'' else ''0123456789abcdef'')"

definition sign_text :: "fspec \<Rightarrow> bool \<Rightarrow> string" where
  "sign_text s neg = (if neg then ''-'' else if f_plus s then ''+'' else if f_space s then '' '' else [])"

definition emit_number :: "fspec \<Rightarrow> bool \<Rightarrow> bool \<Rightarrow> nat \<Rightarrow> nat \<Rightarrow> bool \<Rightarrow> bool \<Rightarrow> piece list" where
  "emit_number s signed_conv neg mag base upper alt =
     (let tmp = (if mag = 0 \<and> f_prec s = 0 then [] else map (\<lambda>d. hex_digits upper ! d) (digits_rev base mag));
          nd = length tmp;
          sign = (if signed_conv then sign_text s neg else []);
          prefix = (if alt \<and> mag \<noteq> 0
            then (if base = 16 then (if upper then ''0X'' else ''0x'') else if base = 2 then (if upper then ''0B'' else ''0b'') else [])
            else []);
          zeros0 = (if f_prec s > int nd then nat (f_prec s) - nd else 0);
          zeros = (if base = 8 \<and> alt \<and> zeros0 = 0 \<and> (nd = 0 \<or> last tmp \<noteq> CHR ''0'') then 1 else zeros0);
          total = length sign + length prefix + zeros + nd;
          extra = (if f_width s > total then f_width s - total else 0);
          to_spaces = f_left s \<or> \<not> f_zero s \<or> f_prec s \<ge> 0;
          spaces = (if to_spaces then extra else 0);
          zfill = (if to_spaces then 0 else extra)
      in only_if (\<not> f_left s) [Fill (CHR '' '') spaces] @ only_if (sign \<noteq> []) [Bytes sign] @ [Bytes prefix] @
         [Fill (CHR ''0'') (zfill + zeros)] @ map (\<lambda>c. Bytes [c]) (rev tmp) @ only_if (f_left s) [Fill (CHR '' '') spaces])"

definition emit_text :: "fspec \<Rightarrow> string \<Rightarrow> piece list" where
  "emit_text s text =
     (let pad = (if f_width s > length text then f_width s - length text else 0)
      in only_if (\<not> f_left s) [Fill (CHR '' '') pad] @ [Bytes text] @ only_if (f_left s) [Fill (CHR '' '') pad])"

fun wide_runs :: "nat \<Rightarrow> int list \<Rightarrow> piece list" where
  "wide_runs 0 w = []"
| "wide_runs (Suc n) w = (if w = [] then [] else Bytes (map char_of (take 64 w)) # wide_runs n (drop 64 w))"

definition emit_wide :: "fspec \<Rightarrow> int list \<Rightarrow> piece list" where
  "emit_wide s w =
     (let pad = (if f_width s > length w then f_width s - length w else 0)
      in only_if (\<not> f_left s) [Fill (CHR '' '') pad] @ wide_runs (length w) w @ only_if (f_left s) [Fill (CHR '' '') pad])"

fun parse_count :: "string \<Rightarrow> nat \<Rightarrow> (nat \<times> string) option" where
  "parse_count [] v = Some (v, [])"
| "parse_count (c # f) v =
     (if ub c \<ge> 48 \<and> ub c \<le> 57
      then (let v' = v * 10 + nat (ub c - 48) in if v' > FMT_INT_MAX then None else parse_count f v')
      else Some (v, c # f))"

definition echo_unknown :: "fspec \<Rightarrow> char \<Rightarrow> piece list" where
  "echo_unknown s conv =
     [Bytes ''%''] @ only_if (f_alt s) [Bytes ''#''] @ only_if (f_group s) [Bytes [CHR 0x27]] @
     (if f_plus s then [Bytes ''+''] else only_if (f_space s) [Bytes '' '']) @
     only_if (f_left s) [Bytes ''-''] @ only_if (f_zero s) [Bytes ''0''] @ only_if (f_i18n s) [Bytes ''I''] @
     only_if (f_width s \<noteq> 0) [dec_piece (f_width s)] @
     only_if (f_prec s \<noteq> -1) [Bytes ''.'', dec_piece (nat (f_prec s))] @ [Bytes [conv]]"

section \<open>Floating point\<close>

definition fp_digit :: "fp_dec \<Rightarrow> int \<Rightarrow> nat" where
  "fp_digit r e =
     (let i = dec_x r - e in
      if dec_d r = [] \<or> i < 0 \<or> i \<ge> int (length (dec_d r)) then 0 else dec_d r ! nat i)"

text \<open>The number of decimal digits of an exponent.\<close>

definition dec_digits :: "nat \<Rightarrow> nat" where
  "dec_digits v = length (digits_rev 10 v)"

definition emit_nonfinite :: "fspec \<Rightarrow> bool \<Rightarrow> bool \<Rightarrow> string \<Rightarrow> piece list" where
  "emit_nonfinite s upper is_nan sign =
     (let t = (if is_nan then (if upper then ''NAN'' else ''nan'') else (if upper then ''INF'' else ''inf''));
          total = length sign + 3;
          pad = (if f_width s > total then f_width s - total else 0)
      in only_if (\<not> f_left s) [Fill (CHR '' '') pad] @ only_if (sign \<noteq> []) [Bytes sign] @ [Bytes t] @
         only_if (f_left s) [Fill (CHR '' '') pad])"

fun hex_trim :: "nat \<Rightarrow> nat \<Rightarrow> nat" where
  "hex_trim fv 0 = 0"
| "hex_trim fv (Suc n) = (if (fv div 2 ^ (4 * (13 - Suc n))) mod 16 = 0 then hex_trim fv n else Suc n)"

text \<open>The leading digit, the fraction digits as a number, how many they are, and how many are printed.\<close>

definition hex_parts :: "int \<Rightarrow> nat \<Rightarrow> nat \<Rightarrow> nat \<times> nat \<times> nat \<times> nat" where
  "hex_parts prec M frac =
     (if prec < 0 then (M div 2 ^ 52, frac, 13, hex_trim frac 13)
      else if prec \<ge> 13 then (M div 2 ^ 52, frac, 13, nat prec)
      else let P = nat prec; shift = (13 - P) * 4; q0 = M div 2 ^ shift; rem = M mod 2 ^ shift; half = 2 ^ (shift - 1);
               q = (if rem > half \<or> (rem = half \<and> odd q0) then q0 + 1 else q0)
           in (q div 2 ^ (4 * P), if P \<noteq> 0 then q mod 2 ^ (4 * P) else 0, P, P))"

definition emit_hexfloat :: "fspec \<Rightarrow> bool \<Rightarrow> string \<Rightarrow> nat \<Rightarrow> piece list" where
  "emit_hexfloat s upper sign bits =
     (let bexp = (bits div 2 ^ 52) mod 2048; frac = bits mod 2 ^ 52;
          M = (if bexp = 0 then frac else frac + 2 ^ 52);
          e = (if bexp = 0 then (if frac \<noteq> 0 then -1022 else 0) else int bexp - 1023);
          (lead, fv, fvn, nd) = hex_parts (f_prec s) M frac;
          ae = nat (abs e); point = nd > 0 \<or> f_alt s;
          total = length sign + 2 + 1 + (if point then 1 else 0) + nd + 2 + dec_digits ae;
          pad = (if f_width s > total then f_width s - total else 0)
      in only_if (\<not> f_left s \<and> \<not> f_zero s) [Fill (CHR '' '') pad] @ only_if (sign \<noteq> []) [Bytes sign] @
         [Bytes ''0'', Bytes (if upper then ''X'' else ''x'')] @ only_if (\<not> f_left s \<and> f_zero s) [Fill (CHR ''0'') pad] @
         [Bytes [dec_char lead]] @ only_if point [Bytes ''.''] @
         map (\<lambda>j. Bytes [hex_digits upper ! (if j < fvn then (fv div 2 ^ (4 * (fvn - 1 - j))) mod 16 else 0)]) [0..<nd] @
         [Bytes (if upper then ''P'' else ''p''), Bytes (if e < 0 then ''-'' else ''+''), dec_piece ae] @
         only_if (f_left s) [Fill (CHR '' '') pad])"

fun drop_fraction :: "fp_dec \<Rightarrow> int \<Rightarrow> nat \<Rightarrow> nat" where
  "drop_fraction rr base 0 = 0"
| "drop_fraction rr base (Suc n) = (if fp_digit rr (base - int (Suc n)) \<noteq> 0 then Suc n else drop_fraction rr base n)"

text \<open>
  The style of a conversion: the rounded digits, whether an exponent is printed and which, the digits before the point and the
  digits after it.
\<close>

definition double_style :: "fspec \<Rightarrow> char \<Rightarrow> fp_dec \<Rightarrow> fp_dec \<times> bool \<times> int \<times> nat \<times> nat" where
  "double_style s lc dec =
     (let is_zero = dec_d dec = [];
          P = (if f_prec s < 0 then 6 else f_prec s);
          rounded = (\<lambda>k. if is_zero then \<lparr>dec_d = [], dec_x = 0\<rparr> else fp_round_digits dec k) in
      if lc = CHR ''f'' then
        (let rr = rounded (dec_x dec + 1 + P);
             int_len = (if dec_d rr \<noteq> [] \<and> dec_x rr \<ge> 0 then nat (dec_x rr) + 1 else 1)
         in (rr, False, 0, int_len, nat P))
      else if lc = CHR ''e'' then
        (let rr = rounded (P + 1) in (rr, True, if dec_d rr \<noteq> [] then dec_x rr else 0, 1, nat P))
      else
        (let P' = (if P = 0 then 1 else P); rr = rounded P';
             X = (if dec_d rr \<noteq> [] then dec_x rr else 0); Xpre = (if is_zero then 0 else dec_x dec);
             fixed = X \<ge> -4 \<and> X < P';
             frac_len = (if fixed then nat (P' - 1 - X) else if Xpre \<ge> -4 \<and> Xpre < P' then nat (P' - 1 - Xpre) else nat (P' - 1));
             exp10 = (if fixed then 0 else X)
         in (rr, \<not> fixed, exp10, if fixed \<and> X \<ge> 0 then nat X + 1 else 1,
             if f_alt s then frac_len else drop_fraction rr exp10 frac_len)))"

text \<open>The fraction digits, the zeros past the last digit in one call.\<close>

fun fraction_pieces :: "fp_dec \<Rightarrow> int \<Rightarrow> nat \<Rightarrow> nat \<Rightarrow> piece list" where
  "fraction_pieces rr base j 0 = []"
| "fraction_pieces rr base j (Suc n) =
     (let ee = base - 1 - int j in
      if dec_d rr = [] \<or> dec_x rr - ee \<ge> int (length (dec_d rr)) then [Fill (CHR ''0'') (Suc n)]
      else Bytes [dec_char (fp_digit rr ee)] # fraction_pieces rr base (j + 1) n)"

definition emit_double :: "fspec \<Rightarrow> char \<Rightarrow> nat \<Rightarrow> piece list" where
  "emit_double s conv bits =
     (let neg = bits div 2 ^ 63 = 1;
          upper = conv \<in> {CHR ''F'', CHR ''E'', CHR ''G'', CHR ''A''};
          lc = (if upper then char_of (ub conv + 32) else conv);
          bexp = (bits div 2 ^ 52) mod 2048; frac = bits mod 2 ^ 52;
          sign = sign_text s neg in
      if bexp = 2047 then emit_nonfinite s upper (frac \<noteq> 0) sign
      else if lc = CHR ''a'' then emit_hexfloat s upper sign bits
      else
        let m = (if bexp = 0 then frac else frac + 2 ^ 52); e2 = (if bexp = 0 then -1074 else int bexp - 1075);
            (rr, style_e, exp10, int_len, frac_len) = double_style s lc (fp_exact m e2);
            point = frac_len > 0 \<or> f_alt s; aexp = nat (abs exp10);
            explen = (if style_e then 2 + max 2 (dec_digits aexp) else 0);
            total = length sign + int_len + (if point then 1 else 0) + frac_len + explen;
            pad = (if f_width s > total then f_width s - total else 0)
        in only_if (\<not> f_left s \<and> \<not> f_zero s) [Fill (CHR '' '') pad] @ only_if (sign \<noteq> []) [Bytes sign] @
           only_if (\<not> f_left s \<and> f_zero s) [Fill (CHR ''0'') pad] @
           (if style_e then [Bytes [dec_char (fp_digit rr exp10)]]
            else map (\<lambda>t. Bytes [dec_char (fp_digit rr (int t))]) (rev [0..<int_len])) @
           only_if point [Bytes ''.''] @ fraction_pieces rr exp10 0 frac_len @
           only_if style_e ([Bytes (if upper then ''E'' else ''e''), Bytes (if exp10 < 0 then ''-'' else ''+'')] @
             only_if (aexp < 10) [Bytes ''0''] @ [dec_piece aexp]) @
           only_if (f_left s) [Fill (CHR '' '') pad])"

section \<open>Arguments\<close>

record va_list =
  gp :: "nat \<Rightarrow> int"
  gp_next :: nat
  fpr :: "nat \<Rightarrow> nat"
  fpr_next :: nat

definition next_gp :: "va_list \<Rightarrow> int \<times> va_list" where
  "next_gp ap = (gp ap (gp_next ap), ap\<lparr>gp_next := gp_next ap + 1\<rparr>)"

definition next_fp :: "va_list \<Rightarrow> nat \<times> va_list" where
  "next_fp ap = (fpr ap (fpr_next ap) mod 2 ^ 64, ap\<lparr>fpr_next := fpr_next ap + 1\<rparr>)"

definition to_i8 :: "int \<Rightarrow> int" where "to_i8 x = (x + 128) mod 256 - 128"
definition to_i16 :: "int \<Rightarrow> int" where "to_i16 x = (x + 32768) mod 65536 - 32768"

definition signed_arg :: "len_mod \<Rightarrow> int \<Rightarrow> int" where
  "signed_arg l x =
     (if l = LEN_HH then to_i8 (to_i32 x) else if l = LEN_H then to_i16 (to_i32 x)
      else if l = LEN_NONE then to_i32 x else to_i64 x)"

definition unsigned_arg :: "len_mod \<Rightarrow> int \<Rightarrow> nat" where
  "unsigned_arg l x =
     nat (if l = LEN_HH then to_u32 x mod 256 else if l = LEN_H then to_u32 x mod 65536
          else if l = LEN_NONE then to_u32 x else to_u64 x)"

text \<open>What the pointers among the arguments point to.\<close>

record fmt_env =
  strs :: "nat \<Rightarrow> string"
  wides :: "nat \<Rightarrow> int list"

definition upto_prec :: "int \<Rightarrow> 'a list \<Rightarrow> 'a list" where
  "upto_prec prec t = (if prec < 0 then t else take (nat prec) t)"

definition null_text :: "fspec \<Rightarrow> string" where
  "null_text s = (if f_prec s \<ge> 0 \<and> f_prec s < 6 then [] else ''(null)'')"

section \<open>Conversions\<close>

fun parse_fmt_flags :: "string \<Rightarrow> fspec \<Rightarrow> fspec \<times> string" where
  "parse_fmt_flags [] s = (s, [])"
| "parse_fmt_flags (c # f) s =
     (if c = CHR ''#'' then parse_fmt_flags f (s\<lparr>f_alt := True\<rparr>)
      else if c = CHR 0x27 then parse_fmt_flags f (s\<lparr>f_group := True\<rparr>)
      else if c = CHR ''+'' then parse_fmt_flags f (s\<lparr>f_plus := True\<rparr>)
      else if c = CHR '' '' then parse_fmt_flags f (s\<lparr>f_space := True\<rparr>)
      else if c = CHR ''I'' then parse_fmt_flags f (s\<lparr>f_i18n := True\<rparr>)
      else if c = CHR ''-'' then parse_fmt_flags f (s\<lparr>f_left := True, f_zero := False\<rparr>)
      else if c = CHR ''0'' then parse_fmt_flags f (if f_left s then s else s\<lparr>f_zero := True\<rparr>)
      else (s, c # f))"

text \<open>The width and the precision, with no result when the number does not fit an int.\<close>

definition parse_fmt_width :: "string \<Rightarrow> fspec \<Rightarrow> va_list \<Rightarrow> (fspec \<times> string \<times> va_list) option" where
  "parse_fmt_width f s ap =
     (if char_at f 0 = CHR ''*'' then
        (let (x, ap') = next_gp ap; w = to_i32 x
         in Some (if w < 0 then s\<lparr>f_left := True, f_width := nat (- w)\<rparr> else s\<lparr>f_width := nat w\<rparr>, tl f, ap'))
      else map_option (\<lambda>(w, f'). (s\<lparr>f_width := w\<rparr>, f', ap)) (parse_count f 0))"

definition parse_fmt_prec :: "string \<Rightarrow> fspec \<Rightarrow> va_list \<Rightarrow> (fspec \<times> string \<times> va_list) option" where
  "parse_fmt_prec f s ap =
     (if char_at f 0 \<noteq> CHR ''.'' then Some (s, f, ap)
      else if char_at f 1 = CHR ''*'' then
        (let (x, ap') = next_gp ap; p = to_i32 x in Some (s\<lparr>f_prec := (if p < 0 then -1 else p)\<rparr>, drop 2 f, ap'))
      else map_option (\<lambda>(p, f'). (s\<lparr>f_prec := int p\<rparr>, f', ap)) (parse_count (tl f) 0))"

definition parse_fmt_len :: "string \<Rightarrow> fspec \<Rightarrow> fspec \<times> string" where
  "parse_fmt_len f s =
     (let c = char_at f 0 in
      if c = CHR ''h'' then
        (if char_at f 1 = CHR ''h'' then (s\<lparr>f_len := LEN_HH\<rparr>, drop 2 f) else (s\<lparr>f_len := LEN_H\<rparr>, tl f))
      else if c = CHR ''l'' then
        (if char_at f 1 = CHR ''l'' then (s\<lparr>f_len := LEN_LL\<rparr>, drop 2 f) else (s\<lparr>f_len := LEN_L\<rparr>, tl f))
      else if c = CHR ''L'' then (s\<lparr>f_ldbl := True, f_len := LEN_OTHER\<rparr>, tl f)
      else if c \<in> {CHR ''q'', CHR ''z'', CHR ''Z'', CHR ''j'', CHR ''t''} then (s\<lparr>f_len := LEN_OTHER\<rparr>, tl f)
      else (s, f))"

text \<open>
  What a conversion does: the calls it makes, an errno value or zero, the integer it stores through a pointer (the address, the
  number of bytes and the value), and the arguments left.
\<close>

type_synonym fmt_effect = "piece list \<times> int \<times> (nat \<times> nat \<times> int) list \<times> va_list"

definition convert_wide :: "fmt_env \<Rightarrow> fspec \<Rightarrow> nat \<Rightarrow> piece list \<times> int" where
  "convert_wide e s p =
     (if p = 0 then (emit_text s (null_text s), 0)
      else let w = upto_prec (f_prec s) (wides e p) in
        if \<exists>c \<in> set w. c < 0 \<or> c > 127 then ([], EILSEQ) else (emit_wide s w, 0))"

definition fmt_convert :: "fmt_env \<Rightarrow> int \<Rightarrow> fspec \<Rightarrow> char \<Rightarrow> nat \<Rightarrow> va_list \<Rightarrow> fmt_effect" where
  "fmt_convert e errno s conv pos ap =
     (let (x, ap') = next_gp ap; ptr = nat (to_u64 x) in
      if conv \<in> {CHR ''d'', CHR ''i''} then
        (let v = signed_arg (f_len s) x in (emit_number s True (v < 0) (nat (abs v)) 10 False False, 0, [], ap'))
      else if conv \<in> {CHR ''u'', CHR ''o'', CHR ''x'', CHR ''X'', CHR ''b'', CHR ''B''} then
        (let v = unsigned_arg (f_len s) x;
             base = (if conv = CHR ''u'' then 10 else if conv = CHR ''o'' then 8 else if conv \<in> {CHR ''b'', CHR ''B''} then 2 else 16)
         in (emit_number s False False v base (conv \<in> {CHR ''X'', CHR ''B''}) (f_alt s), 0, [], ap'))
      else if conv \<in> {CHR ''c'', CHR ''C''} then
        (if conv = CHR ''C'' \<or> len_is_wide (f_len s)
         then (if to_u32 x > 127 then ([], EILSEQ, [], ap') else (emit_text s [char_of (to_u32 x)], 0, [], ap'))
         else (emit_text s [char_of (to_u32 x mod 256)], 0, [], ap'))
      else if conv \<in> {CHR ''s'', CHR ''S''} then
        (if conv = CHR ''S'' \<or> len_is_wide (f_len s) then (let (ps, er) = convert_wide e s ptr in (ps, er, [], ap'))
         else (emit_text s (if ptr = 0 then null_text s else upto_prec (f_prec s) (strs e ptr)), 0, [], ap'))
      else if conv = CHR ''p'' then
        ((if ptr = 0 then emit_text s ''(nil)'' else emit_number s True False ptr 16 False True), 0, [], ap')
      else if conv \<in> {CHR ''f'', CHR ''F'', CHR ''e'', CHR ''E'', CHR ''g'', CHR ''G'', CHR ''a'', CHR ''A''} then
        (if f_ldbl s then ([], 22, [], ap)
         else let (b, ap2) = next_fp ap in (emit_double s conv b, 0, [], ap2))
      else if conv = CHR ''n'' then
        ([], 0, [if f_len s = LEN_HH then (ptr, 1, to_i8 (int pos)) else if f_len s = LEN_H then (ptr, 2, to_i16 (int pos))
                 else if f_len s = LEN_NONE then (ptr, 4, to_i32 (int pos)) else (ptr, 8, int pos)], ap')
      else if conv = CHR ''m'' then (emit_text s (upto_prec (f_prec s) (strerror errno)), 0, [], ap)
      else if conv = CHR ''%'' then ([Bytes ''%''], 0, [], ap)
      else (echo_unknown s conv, 0, [], ap))"

text \<open>One round of the loop: a run of plain characters, or a conversion. The format left comes first.\<close>

definition fmt_step :: "fmt_env \<Rightarrow> int \<Rightarrow> string \<Rightarrow> nat \<Rightarrow> va_list \<Rightarrow> string \<times> fmt_effect" where
  "fmt_step e errno fmt pos ap =
     (if char_at fmt 0 \<noteq> CHR ''%'' then
        (dropWhile (\<lambda>c. c \<noteq> CHR ''%'') fmt, [Bytes (takeWhile (\<lambda>c. c \<noteq> CHR ''%'') fmt)], 0, [], ap)
      else let (s1, f1) = parse_fmt_flags (tl fmt) fspec0 in
        case parse_fmt_width f1 s1 ap of
          None \<Rightarrow> ([], [], EOVERFLOW, [], ap)
        | Some (s2, f2, ap2) \<Rightarrow>
            (case parse_fmt_prec f2 s2 ap2 of
               None \<Rightarrow> ([], [], EOVERFLOW, [], ap2)
             | Some (s3, f3, ap3) \<Rightarrow>
                 (let (s4, f4) = parse_fmt_len f3 s3 in
                  if f4 = [] then ([], [], 22, [], ap3)
                  else (tl f4, fmt_convert e errno s4 (hd f4) pos ap3))))"

lemma parse_fmt_flags_shorter: "length (snd (parse_fmt_flags f s)) \<le> length f"
  by (induction f arbitrary: s) (simp_all add: le_SucI)

lemma parse_fmt_flags_length: "parse_fmt_flags f s = (s', f') \<Longrightarrow> length f' \<le> length f"
  using parse_fmt_flags_shorter [of f s] by simp

lemma parse_count_length: "parse_count f v = Some (w, f') \<Longrightarrow> length f' \<le> length f"
proof (induction f arbitrary: v)
  case (Cons c f)
  then show ?case by (auto simp: Let_def split: if_splits intro: le_SucI)
qed simp

lemma parse_fmt_width_length: "parse_fmt_width f s ap = Some (s', f', ap') \<Longrightarrow> length f' \<le> length f"
  by (auto simp: parse_fmt_width_def Let_def split: if_splits prod.splits dest: parse_count_length)

lemma parse_fmt_prec_length: "parse_fmt_prec f s ap = Some (s', f', ap') \<Longrightarrow> length f' \<le> length f"
  by (auto simp: parse_fmt_prec_def Let_def split: if_splits prod.splits dest!: parse_count_length)

lemma parse_fmt_len_length: "parse_fmt_len f s = (s', f') \<Longrightarrow> length f' \<le> length f"
  by (auto simp: parse_fmt_len_def Let_def split: if_splits)

lemma fmt_step_shorter:
  assumes "fmt \<noteq> []"
  shows "length (fst (fmt_step e errno fmt pos ap)) < length fmt"
proof (cases "char_at fmt 0 = CHR ''%''")
  case False
  then show ?thesis using assms
    by (cases fmt) (auto simp: fmt_step_def char_at_def less_Suc_eq_le length_dropWhile_le)
next
  case True
  have l: "length (tl fmt) < length fmt" using assms by (cases fmt) simp_all
  obtain s1 f1 where 1: "parse_fmt_flags (tl fmt) fspec0 = (s1, f1)" by (rule prod.exhaust)
  show ?thesis
  proof (cases "parse_fmt_width f1 s1 ap")
    case None
    then show ?thesis using True assms 1 by (simp add: fmt_step_def)
  next
    case (Some r)
    obtain s2 f2 ap2 where 2: "r = (s2, f2, ap2)" by (rule prod_cases3)
    show ?thesis
    proof (cases "parse_fmt_prec f2 s2 ap2")
      case None
      then show ?thesis using True assms 1 2 Some by (simp add: fmt_step_def)
    next
      case (Some q)
      obtain s3 f3 ap3 where 3: "q = (s3, f3, ap3)" by (rule prod_cases3)
      obtain s4 f4 where 4: "parse_fmt_len f3 s3 = (s4, f4)" by (rule prod.exhaust)
      have "length f4 < length fmt"
        using l parse_fmt_flags_length [OF 1] parse_fmt_width_length [of f1 s1 ap s2 f2 ap2] parse_fmt_prec_length [of f2 s2 ap2 s3 f3 ap3]
          parse_fmt_len_length [OF 4] Some \<open>parse_fmt_width f1 s1 ap = Some r\<close> 2 3 by simp
      then show ?thesis using True assms 1 2 3 4 Some \<open>parse_fmt_width f1 s1 ap = Some r\<close>
        by (simp add: fmt_step_def less_imp_diff_less)
    qed
  qed
qed

section \<open>The engine\<close>

text \<open>
  The loop over the format, with the integers that %n stored, latest last. The errno that %m prints is read from the world the
  sink works on.
\<close>

function vformat_loop ::
  "fmt_env \<Rightarrow> ('w \<Rightarrow> int) \<Rightarrow> string \<Rightarrow> va_list \<Rightarrow> (nat \<times> nat \<times> int) list \<Rightarrow> 'w fmt_out \<Rightarrow> 'w fmt_out \<times> (nat \<times> nat \<times> int) list" where
  "vformat_loop e errno_of fmt ap st o' =
     (if fmt = [] \<or> o_err o' \<noteq> 0 \<or> o_hung o' then (o', st)
      else let (fmt', ps, er, ns, ap') = fmt_step e (errno_of (o_world o')) fmt (o_pos o') ap;
               o1 = out_pieces ps o'
           in vformat_loop e errno_of fmt' ap' (st @ ns) (if er \<noteq> 0 then o1\<lparr>o_err := er\<rparr> else o1))"
  by pat_completeness auto
termination
  by (relation "measure (\<lambda>(e, errno_of, fmt, ap, st, o'). length fmt)") (auto dest: fmt_step_shorter [where e = e for e] simp: prod_eq_iff)


declare vformat_loop.simps [simp del]

text \<open>
  What a call leaves: the returned int, the memory of the buffer, the world, the new errno if there is one, and the stores of
  %n. A run that does not end has no result.
\<close>

record 'w fmt_ret =
  r_ret :: int
  r_mem :: mem
  r_world :: 'w
  r_errno :: "int option"
  r_stores :: "(nat \<times> nat \<times> int) list"

definition fmt_start :: "mem \<Rightarrow> nat \<Rightarrow> nat \<Rightarrow> ('w \<Rightarrow> string \<Rightarrow> (int \<times> 'w) option) option \<Rightarrow> 'w \<Rightarrow> 'w fmt_out" where
  "fmt_start m buf n sink w =
     \<lparr>o_mem = m, o_buf = buf, o_cap = (if sink \<noteq> None then n else if n > 0 then n - 1 else 0), o_fill = 0, o_pos = 0,
      o_sink = sink, o_world = w, o_err = 0, o_hung = False\<rparr>"

definition moqi_vformat ::
  "fmt_env \<Rightarrow> ('w \<Rightarrow> int) \<Rightarrow> mem \<Rightarrow> nat \<Rightarrow> nat \<Rightarrow> ('w \<Rightarrow> string \<Rightarrow> (int \<times> 'w) option) option \<Rightarrow> 'w \<Rightarrow> string \<Rightarrow> va_list
   \<Rightarrow> 'w fmt_ret option" where
  "moqi_vformat e errno_of m buf n sink w fmt ap =
     (let (o1, st) = vformat_loop e errno_of fmt ap [] (fmt_start m buf n sink w);
          o2 = (if sink = None then (if n > 0 then o1\<lparr>o_mem := (o_mem o1)(buf + o_fill o1 := NUL)\<rparr> else o1)
                else if o_err o1 = 0 \<and> \<not> o_hung o1 then out_flush o1 else o1)
      in if o_hung o2 then None
         else Some \<lparr>r_ret = (if o_err o2 \<noteq> 0 then -1 else int (o_pos o2)), r_mem = o_mem o2, r_world = o_world o2,
                    r_errno = (if o_err o2 \<noteq> 0 then Some (o_err o2) else None), r_stores = st\<rparr>)"

text \<open>Without a sink the world is the value of errno.\<close>

definition vsnprintf :: "fmt_env \<Rightarrow> int \<Rightarrow> mem \<Rightarrow> nat \<Rightarrow> nat \<Rightarrow> string \<Rightarrow> va_list \<Rightarrow> int fmt_ret option" where
  "vsnprintf e errno m buf n fmt ap = moqi_vformat e (\<lambda>w. w) m buf n None errno fmt ap"

definition va_start :: "int list \<Rightarrow> nat list \<Rightarrow> va_list" where
  "va_start gs fs = \<lparr>gp = (\<lambda>i. if i < length gs then gs ! i else 0), gp_next = 0, fpr = (\<lambda>i. if i < length fs then fs ! i else 0), fpr_next = 0\<rparr>"

definition snprintf :: "fmt_env \<Rightarrow> int \<Rightarrow> mem \<Rightarrow> nat \<Rightarrow> nat \<Rightarrow> string \<Rightarrow> int list \<Rightarrow> nat list \<Rightarrow> int fmt_ret option" where
  "snprintf e errno m buf n fmt gs fs = vsnprintf e errno m buf n fmt (va_start gs fs)"

definition vsprintf :: "fmt_env \<Rightarrow> int \<Rightarrow> mem \<Rightarrow> nat \<Rightarrow> string \<Rightarrow> va_list \<Rightarrow> int fmt_ret option" where
  "vsprintf e errno m buf fmt ap = vsnprintf e errno m buf (SIZE_MOD - 1) fmt ap"

definition sprintf :: "fmt_env \<Rightarrow> int \<Rightarrow> mem \<Rightarrow> nat \<Rightarrow> string \<Rightarrow> int list \<Rightarrow> nat list \<Rightarrow> int fmt_ret option" where
  "sprintf e errno m buf fmt gs fs = vsprintf e errno m buf fmt (va_start gs fs)"

end
