(* ===== verification/Stdio.thy ===== *)
theory Stdio
  imports Printf Malloc
begin

text \<open>
  Output to a descriptor and allocated output: \<open>lib/moqi_libc/src/stdio.c\<close>. The write system call is a parameter that takes the
  world, the descriptor and the data and returns the count, or the negated errno value, with the new world. The chunk of
  \<open>vdprintf\<close> is a piece of the stack: a memory and an address.
\<close>

abbreviation EINTR :: int where "EINTR \<equiv> 4"
abbreviation EIO :: int where "EIO \<equiv> 5"
abbreviation STDOUT_FILENO :: int where "STDOUT_FILENO \<equiv> 1"

type_synonym 'w write_call = "'w \<Rightarrow> int \<Rightarrow> string \<Rightarrow> int \<times> 'w"

definition print_str :: "'w write_call \<Rightarrow> 'w \<Rightarrow> string \<Rightarrow> 'w" where
  "print_str sys_write w s = snd (sys_write w STDOUT_FILENO s)"

text \<open>A count past the data, which the system call does not return, would run the loop out of the data: no result.\<close>

partial_function (option) fd_sink :: "'w write_call \<Rightarrow> int \<Rightarrow> 'w \<Rightarrow> string \<Rightarrow> (int \<times> 'w) option" where
  "fd_sink sys_write fd w data =
     (if data = [] then Some (0, w)
      else let (r, w1) = sys_write w fd data in
        if r = - EINTR then fd_sink sys_write fd w1 data
        else if r < 0 then Some (to_i32 (- r), w1)
        else if r = 0 then Some (EIO, w1)
        else if nat r > length data then None
        else fd_sink sys_write fd w1 (drop (nat r) data))"

definition vdprintf ::
  "'w write_call \<Rightarrow> fmt_env \<Rightarrow> ('w \<Rightarrow> int) \<Rightarrow> mem \<Rightarrow> nat \<Rightarrow> 'w \<Rightarrow> int \<Rightarrow> string \<Rightarrow> va_list \<Rightarrow> 'w fmt_ret option" where
  "vdprintf sys_write e errno_of m chunk w fd fmt ap = moqi_vformat e errno_of m chunk 512 (Some (fd_sink sys_write fd)) w fmt ap"

definition dprintf ::
  "'w write_call \<Rightarrow> fmt_env \<Rightarrow> ('w \<Rightarrow> int) \<Rightarrow> mem \<Rightarrow> nat \<Rightarrow> 'w \<Rightarrow> int \<Rightarrow> string \<Rightarrow> int list \<Rightarrow> nat list \<Rightarrow> 'w fmt_ret option" where
  "dprintf sys_write e errno_of m chunk w fd fmt gs fs = vdprintf sys_write e errno_of m chunk w fd fmt (va_start gs fs)"

definition vprintf ::
  "'w write_call \<Rightarrow> fmt_env \<Rightarrow> ('w \<Rightarrow> int) \<Rightarrow> mem \<Rightarrow> nat \<Rightarrow> 'w \<Rightarrow> string \<Rightarrow> va_list \<Rightarrow> 'w fmt_ret option" where
  "vprintf sys_write e errno_of m chunk w fmt ap = vdprintf sys_write e errno_of m chunk w STDOUT_FILENO fmt ap"

definition printf ::
  "'w write_call \<Rightarrow> fmt_env \<Rightarrow> ('w \<Rightarrow> int) \<Rightarrow> mem \<Rightarrow> nat \<Rightarrow> 'w \<Rightarrow> string \<Rightarrow> int list \<Rightarrow> nat list \<Rightarrow> 'w fmt_ret option" where
  "printf sys_write e errno_of m chunk w fmt gs fs = vdprintf sys_write e errno_of m chunk w STDOUT_FILENO fmt (va_start gs fs)"

text \<open>The value returned, the errno value stored if there is one, and the world.\<close>

definition putchar :: "'w write_call \<Rightarrow> 'w \<Rightarrow> int \<Rightarrow> (int \<times> int option \<times> 'w) option" where
  "putchar sys_write w c =
     (let ch = c mod 256 in
      case fd_sink sys_write STDOUT_FILENO w [char_of ch] of
        None \<Rightarrow> None
      | Some (rc, w1) \<Rightarrow> Some (if rc \<noteq> 0 then (-1, Some rc, w1) else (ch, None, w1)))"

definition puts :: "'w write_call \<Rightarrow> fmt_env \<Rightarrow> ('w \<Rightarrow> int) \<Rightarrow> mem \<Rightarrow> nat \<Rightarrow> 'w \<Rightarrow> nat \<Rightarrow> 'w fmt_ret option" where
  "puts sys_write e errno_of m chunk w s = dprintf sys_write e errno_of m chunk w STDOUT_FILENO (''%s'' @ [CHR 10]) [int s] []"

text \<open>
  The length is measured by a call with no buffer, then the text is written into an allocation of that length and one byte. The
  result is the returned int, the pointer stored for the caller, the heap, and what %n stored, in both calls.
\<close>

definition vasprintf ::
  "(nat \<Rightarrow> nat \<Rightarrow> bool) \<Rightarrow> nat \<Rightarrow> fmt_env \<Rightarrow> heap \<Rightarrow> string \<Rightarrow> va_list \<Rightarrow> (int \<times> nat option \<times> heap \<times> (nat \<times> nat \<times> int) list) option" where
  "vasprintf ok self e h fmt ap =
     (case vsnprintf e (herrno h) (hmem h) 0 0 fmt ap of
        None \<Rightarrow> None
      | Some r \<Rightarrow>
          (let h0 = (case r_errno r of None \<Rightarrow> h | Some er \<Rightarrow> h\<lparr>herrno := er\<rparr>) in
           if r_ret r < 0 then Some (-1, None, h0, r_stores r)
           else case malloc ok self h0 (nat (r_ret r) + 1) of
               None \<Rightarrow> None
             | Some (None, h1) \<Rightarrow> Some (-1, None, h1\<lparr>herrno := ENOMEM\<rparr>, r_stores r)
             | Some (Some p, h1) \<Rightarrow>
                 (case vsnprintf e (herrno h1) (hmem h1) p (nat (r_ret r) + 1) fmt ap of
                    None \<Rightarrow> None
                  | Some r2 \<Rightarrow>
                      (let h2 = h1\<lparr>hmem := r_mem r2\<rparr>;
                           h3 = (case r_errno r2 of None \<Rightarrow> h2 | Some er \<Rightarrow> h2\<lparr>herrno := er\<rparr>)
                       in Some (r_ret r, Some p, h3, r_stores r @ r_stores r2)))))"

definition asprintf ::
  "(nat \<Rightarrow> nat \<Rightarrow> bool) \<Rightarrow> nat \<Rightarrow> fmt_env \<Rightarrow> heap \<Rightarrow> string \<Rightarrow> int list \<Rightarrow> nat list
   \<Rightarrow> (int \<times> nat option \<times> heap \<times> (nat \<times> nat \<times> int) list) option" where
  "asprintf ok self e h fmt gs fs = vasprintf ok self e h fmt (va_start gs fs)"

end
