(* ===== verification/Printf_Theorems.thy ===== *)
theory Printf_Theorems
  imports Printf Algo_Theorems Numconv_Theorems
begin

text \<open>
  What the printf engine promises. The text of a call is defined without a buffer: the calls of each conversion, in order, until
  the format ends or a conversion fails or the text would pass INT_MAX. An output device is anything that keeps a relation with the
  text produced so far; the engine is shown once, over the interface, to hand a device exactly that text. The two devices of the
  library are the buffer of \<open>snprintf\<close>, which keeps the front of the text, and the chunk buffer with a sink, which delivers all
  of it in order.
\<close>

section \<open>The text of a call\<close>

fun piece_text :: "piece \<Rightarrow> string" where
  "piece_text (Bytes p) = p"
| "piece_text (Fill c n) = replicate n c"

fun emit_piece :: "piece \<Rightarrow> string \<times> int \<Rightarrow> string \<times> int" where
  "emit_piece p (t, er) =
     (if er \<noteq> 0 then (t, er)
      else if length t + length (piece_text p) > FMT_INT_MAX then (t, EOVERFLOW)
      else (t @ piece_text p, 0))"

function fmt_text ::
  "fmt_env \<Rightarrow> int \<Rightarrow> string \<Rightarrow> va_list \<Rightarrow> (nat \<times> nat \<times> int) list \<Rightarrow> string \<times> int \<Rightarrow> (string \<times> int) \<times> (nat \<times> nat \<times> int) list" where
  "fmt_text e errno fmt ap st r =
     (if fmt = [] \<or> snd r \<noteq> 0 then (r, st)
      else let (fmt', ps, er, ns, ap') = fmt_step e errno fmt (length (fst r)) ap; r1 = fold emit_piece ps r
           in fmt_text e errno fmt' ap' (st @ ns) (if er \<noteq> 0 then (fst r1, er) else r1))"
  by pat_completeness auto
termination
  by (relation "measure (\<lambda>(e, errno, fmt, ap, st, r). length fmt)") (auto dest: fmt_step_shorter [where e = e for e] simp: prod_eq_iff)

declare fmt_text.simps [simp del]

lemma snd_emit_piece: "snd (emit_piece p (t, er)) = (if er \<noteq> 0 then er else if length t + length (piece_text p) > FMT_INT_MAX then EOVERFLOW else 0)"
  by simp

text \<open>A run of copies is written as the same bytes would be.\<close>

lemma fill_loop_bytes: "fill_loop o' c n = bytes_loop o' (replicate n c)"
proof (induction o' c n rule: fill_loop.induct)
  case (1 o' c n)
  show ?case
    apply (subst fill_loop.simps, subst bytes_loop.simps)
    using 1 by (simp add: Let_def min.absorb2 min.commute)
qed

lemma out_fill_bytes: "out_fill o' c n = out_bytes o' (replicate n c)"
  by (simp add: out_fill_def out_bytes_def fill_loop_bytes split: prod.split)

lemma out_piece_bytes: "out_piece p o' = out_bytes o' (piece_text p)"
  by (cases p) (simp_all add: out_fill_bytes)

section \<open>Output devices\<close>

locale out_device =
  fixes rel :: "'w fmt_out \<Rightarrow> string \<Rightarrow> bool"
    and errno_of :: "'w \<Rightarrow> int"
    and errno :: int
  assumes rel_pos: "rel o' t \<Longrightarrow> o_pos o' = length t"
    and rel_runs: "rel o' t \<Longrightarrow> \<not> o_hung o'"
    and rel_errno: "rel o' t \<Longrightarrow> errno_of (o_world o') = errno"
    and rel_err: "rel o' t \<Longrightarrow> rel (o'\<lparr>o_err := er\<rparr>) t"
    and rel_bytes: "rel o' t \<Longrightarrow> o_err o' = 0 \<Longrightarrow>
      rel (bytes_loop (o'\<lparr>o_pos := o_pos o' + length p\<rparr>) p) (t @ p) \<and>
      o_err (bytes_loop (o'\<lparr>o_pos := o_pos o' + length p\<rparr>) p) = 0"
begin

lemma device_piece:
  assumes "rel o' t"
  shows "rel (out_piece p o') (fst (emit_piece p (t, o_err o'))) \<and> o_err (out_piece p o') = snd (emit_piece p (t, o_err o'))"
  using assms rel_pos [OF assms] rel_runs [OF assms] rel_err [OF assms] rel_bytes [OF assms, of "piece_text p"]
  by (simp add: out_piece_bytes out_bytes_def out_room_def)

lemma device_pieces:
  "rel o' t \<Longrightarrow> rel (out_pieces ps o') (fst (fold emit_piece ps (t, o_err o'))) \<and>
     o_err (out_pieces ps o') = snd (fold emit_piece ps (t, o_err o'))"
proof (induction ps arbitrary: o' t)
  case (Cons p ps)
  obtain t1 er1 where e: "emit_piece p (t, o_err o') = (t1, er1)" by (rule prod.exhaust)
  from device_piece [OF Cons.prems, of p] have "rel (out_piece p o') t1" "o_err (out_piece p o') = er1"
    unfolding e by simp_all
  with Cons.IH [of "out_piece p o'" t1] show ?case by (simp add: out_pieces_def e del: emit_piece.simps)
qed (simp add: out_pieces_def)

lemma device_loop:
  "rel o' t \<Longrightarrow> fmt_text e errno fmt ap st (t, o_err o') = ((t', er'), st') \<Longrightarrow>
   \<exists>o1. vformat_loop e errno_of fmt ap st o' = (o1, st') \<and> rel o1 t' \<and> o_err o1 = er'"
proof (induction "length fmt" arbitrary: fmt ap st o' t rule: less_induct)
  case less
  note r = rel_runs [OF less.prems(1)] rel_pos [OF less.prems(1)] rel_errno [OF less.prems(1)]
  show ?case
  proof (cases "fmt = [] \<or> o_err o' \<noteq> 0")
    case True
    then show ?thesis using less.prems by (auto simp: vformat_loop.simps [of _ _ _ _ _ o'] fmt_text.simps)
  next
    case False
    obtain fmt1 ps er ns ap1 where s: "fmt_step e errno fmt (length t) ap = (fmt1, ps, er, ns, ap1)" by (rule prod_cases5)
    obtain t1 er1 where f: "fold emit_piece ps (t, o_err o') = (t1, er1)" by (rule prod.exhaust)
    define o1 where "o1 = (if er \<noteq> 0 then (out_pieces ps o')\<lparr>o_err := er\<rparr> else out_pieces ps o')"
    have o1: "rel o1 t1" "o_err o1 = (if er \<noteq> 0 then er else er1)"
      using device_pieces [OF less.prems(1), of ps] rel_err by (auto simp: o1_def f)
    have "length fmt1 < length fmt" using fmt_step_shorter [of fmt e errno "length t" ap] s False by simp
    moreover have "fmt_text e errno fmt1 ap1 (st @ ns) (t1, o_err o1) = ((t', er'), st')"
      using less.prems(2) False s f o1(2) by (subst (asm) fmt_text.simps) (auto split: if_splits)
    ultimately have "\<exists>o2. vformat_loop e errno_of fmt1 ap1 (st @ ns) o1 = (o2, st') \<and> rel o2 t' \<and> o_err o2 = er'"
      by (rule less.hyps [OF _ o1(1)])
    moreover have "vformat_loop e errno_of fmt ap st o' = vformat_loop e errno_of fmt1 ap1 (st @ ns) o1"
      using False r s by (subst vformat_loop.simps) (simp add: o1_def)
    ultimately show ?thesis by simp
  qed
qed

end

section \<open>The buffer of snprintf\<close>

definition buffer_rel :: "mem \<Rightarrow> nat \<Rightarrow> nat \<Rightarrow> int \<Rightarrow> int fmt_out \<Rightarrow> string \<Rightarrow> bool" where
  "buffer_rel m0 buf cap errno o' t \<longleftrightarrow>
     o_sink o' = None \<and> \<not> o_hung o' \<and> o_world o' = errno \<and> o_buf o' = buf \<and> o_cap o' = cap \<and> o_pos o' = length t \<and>
     o_fill o' = min cap (length t) \<and> o_mem o' = store m0 buf (take cap t)"

lemma bytes_loop_buffer:
  assumes "o_sink o' = None"
  shows "bytes_loop o' p =
    o'\<lparr>o_mem := store (o_mem o') (o_buf o' + o_fill o') (take (o_cap o' - o_fill o') p), o_fill := o_fill o' + min (length p) (o_cap o' - o_fill o')\<rparr>"
proof (cases "p = [] \<or> o_cap o' - o_fill o' = 0")
  case True
  then show ?thesis using assms by (subst bytes_loop.simps) auto
next
  case False
  then show ?thesis using assms
    by (subst bytes_loop.simps, simp add: Let_def) (subst bytes_loop.simps, simp add: min_def)
qed

interpretation buffer: out_device "buffer_rel m0 buf cap errno" "\<lambda>w. w" errno for m0 buf cap errno
proof unfold_locales
  fix o' :: "int fmt_out" and t p
  assume r: "buffer_rel m0 buf cap errno o' t" and e: "o_err o' = 0"
  have len: "min cap (length t) = length (take cap t)" by simp
  have st: "store (store m0 buf (take cap t)) (buf + min cap (length t)) (take (cap - min cap (length t)) p) = store m0 buf (take cap (t @ p))"
    unfolding len store_append by (simp add: min_def)
  show "buffer_rel m0 buf cap errno (bytes_loop (o'\<lparr>o_pos := o_pos o' + length p\<rparr>) p) (t @ p) \<and>
    o_err (bytes_loop (o'\<lparr>o_pos := o_pos o' + length p\<rparr>) p) = 0"
    using r e st by (auto simp: buffer_rel_def bytes_loop_buffer)
qed (auto simp: buffer_rel_def)

lemma vsnprintf_run:
  assumes "fmt_text e errno fmt ap [] ([], 0) = ((t, er), st)"
  shows "vsnprintf e errno m buf n fmt ap =
    Some \<lparr>r_ret = (if er \<noteq> 0 then -1 else int (length t)),
          r_mem = (if n > 0 then store m buf (take (n - 1) t @ [NUL]) else m),
          r_world = errno, r_errno = (if er \<noteq> 0 then Some er else None), r_stores = st\<rparr>"
proof -
  have "buffer_rel m buf (n - 1) errno (fmt_start m buf n None errno) []" by (auto simp: buffer_rel_def fmt_start_def)
  moreover have "fmt_text e errno fmt ap [] ([], o_err (fmt_start m buf n None errno)) = ((t, er), st)"
    using assms by (simp add: fmt_start_def)
  ultimately obtain o1 where o1: "vformat_loop e (\<lambda>w. w) fmt ap [] (fmt_start m buf n None errno) = (o1, st)"
    "buffer_rel m buf (n - 1) errno o1 t" "o_err o1 = er"
    using buffer.device_loop by blast
  have nul: "(store m buf (take (n - 1) t))(buf + min (n - 1) (length t) := NUL) = store m buf (take (n - 1) t @ [NUL])"
    using store_append [of m buf "take (n - 1) t" "[NUL]"] by (simp add: min.commute)
  show ?thesis using o1 nul
    by (cases "n = 0") (auto simp: vsnprintf_def moqi_vformat_def buffer_rel_def Let_def)
qed

lemma emit_piece_length: "length (fst r) \<le> FMT_INT_MAX \<Longrightarrow> length (fst (emit_piece p r)) \<le> FMT_INT_MAX"
  by (cases r) auto

lemma emit_pieces_length: "length (fst r) \<le> FMT_INT_MAX \<Longrightarrow> length (fst (fold emit_piece ps r)) \<le> FMT_INT_MAX"
  by (induction ps arbitrary: r) (simp_all add: emit_piece_length)

lemma fmt_text_length: "length (fst r) \<le> FMT_INT_MAX \<Longrightarrow> length (fst (fst (fmt_text e errno fmt ap st r))) \<le> FMT_INT_MAX"
proof (induction e errno fmt ap st r rule: fmt_text.induct)
  case (1 e errno fmt ap st r)
  show ?case
  proof (cases "fmt = [] \<or> snd r \<noteq> 0")
    case True
    then show ?thesis using 1(2) by (simp add: fmt_text.simps)
  next
    case False
    obtain fmt1 ps er ns ap1 where s: "fmt_step e errno fmt (length (fst r)) ap = (fmt1, ps, er, ns, ap1)" by (rule prod_cases5)
    have "length (fst (if er \<noteq> 0 then (fst (fold emit_piece ps r), er) else fold emit_piece ps r)) \<le> FMT_INT_MAX"
      using emit_pieces_length [OF 1(2), of ps] by simp
    from 1(1) [OF False s [symmetric] refl refl refl refl refl this] show ?thesis
      using False s by (subst fmt_text.simps) (simp add: Let_def)
  qed
qed

text \<open>C17. vsnprintf returns for every format and all arguments. With the text that the format and the arguments determine, the
  buffer receives its first \<open>size - 1\<close> bytes and a NUL (nothing at all when the size is 0), and no other byte of memory
  changes, in particular none outside the buffer. The result is the length of the whole text, whatever the size, or -1
  with errno set when a conversion failed or the text would not fit an int.\<close>

theorem vsnprintf_truncates:
  "case fmt_text e errno fmt ap [] ([], 0) of ((t, er), st) \<Rightarrow>
     (\<exists>r. vsnprintf e errno m buf n fmt ap = Some r \<and> r_ret r = (if er = 0 then int (length t) else -1) \<and> r_ret r \<le> 2147483647 \<and>
        r_errno r = (if er = 0 then None else Some er) \<and> r_stores r = st \<and>
        (n > 0 \<longrightarrow> bytes (r_mem r) buf (min n (length t + 1)) = take (n - 1) t @ [NUL]) \<and>
        (\<forall>a. a < buf \<or> a \<ge> buf + min n (length t + 1) \<longrightarrow> r_mem r a = m a))"
proof -
  obtain t er st where f: "fmt_text e errno fmt ap [] ([], 0) = ((t, er), st)" by (metis prod.exhaust)
  have len: "length t \<le> FMT_INT_MAX" using fmt_text_length [of "([], 0)" e errno fmt ap "[]"] f by simp
  have l: "min n (length t + 1) = length (take (n - 1) t @ [NUL])" if "n > 0" using that by auto
  note v = vsnprintf_run [OF f, of m buf n]
  show ?thesis
  proof (cases "n > 0")
    case True
    have "bytes (store m buf (take (n - 1) t @ [NUL])) buf (min n (length t + 1)) = take (n - 1) t @ [NUL]"
      unfolding l [OF True] by (rule bytes_store_same)
    moreover have "store m buf (take (n - 1) t @ [NUL]) a = m a" if "a < buf \<or> a \<ge> buf + min n (length t + 1)" for a
      using that unfolding l [OF True] store_at by auto
    ultimately show ?thesis using True len unfolding f v by (auto simp: FMT_INT_MAX_def)
  next
    case False
    then show ?thesis using len unfolding f v by (auto simp: FMT_INT_MAX_def)
  qed
qed

lemma fmt_text_unfold:
  "fmt_text e errno [] ap st r = (r, st)"
  "fmt_step e errno (c # fmt) (length t) ap = (fmt', ps, er, ns, ap') \<Longrightarrow>
   fmt_text e errno (c # fmt) ap st (t, 0) =
     fmt_text e errno fmt' ap' (st @ ns) (if er \<noteq> 0 then (fst (fold emit_piece ps (t, 0)), er) else fold emit_piece ps (t, 0))"
  by (simp_all add: fmt_text.simps [of e errno "[]"] fmt_text.simps [of e errno "c # fmt"])

lemmas parse_eval = parse_fmt_width_def parse_fmt_prec_def parse_fmt_len_def char_at_def fspec0_def FMT_INT_MAX_def

lemma demo_text:
  "fmt_text e errno ''n=%d'' (va_start [42] []) [] ([], 0) = ((''n=42'', 0), [])"
proof -
  have a: "fmt_step e errno ''n=%d'' (length []) (va_start [42] []) = (''%d'', [Bytes ''n=''], 0, [], va_start [42] [])"
    by (simp add: fmt_step_def char_at_def)
  have b: "fmt_step e errno ''%d'' (length ''n='') (va_start [42] []) =
    ([], [Fill (CHR '' '') 0, Bytes [], Fill (CHR ''0'') 0, Bytes ''4'', Bytes ''2''], 0, [], (va_start [42] [])\<lparr>gp_next := 1\<rparr>)"
    by (simp add: fmt_step_def parse_eval ub_def fmt_convert_def next_gp_def va_start_def signed_arg_def to_i32_def
        emit_number_def only_if_def sign_text_def digits_rev.simps hex_digits_def Let_def)
  show ?thesis
    using fmt_text_unfold(2) [OF a, of "[]"] fmt_text_unfold(2) [OF b, of "[]"] by (simp add: fmt_text_unfold(1) FMT_INT_MAX_def)
qed

definition no_strings :: fmt_env where
  "no_strings = \<lparr>strs = (\<lambda>_. []), wides = (\<lambda>_. [])\<rparr>"

theorem vsnprintf_truncates_witness:
  "\<exists>r. vsnprintf no_strings 0 (\<lambda>_. CHR ''z'') 100 4 ''n=%d'' (va_start [42] []) = Some r \<and> r_ret r = 4 \<and>
     bytes (r_mem r) 100 4 = ''n=4'' @ [NUL] \<and> r_mem r 104 = CHR ''z''"
proof -
  have l: "min (4::nat) (length ''n=42'' + 1) = 4" "take (4 - 1) ''n=42'' = ''n=4''" by simp_all
  from vsnprintf_truncates [where e = no_strings and errno = 0 and fmt = "''n=%d''" and ap = "va_start [42] []"
      and m = "\<lambda>_. CHR ''z''" and buf = 100 and n = 4, unfolded demo_text prod.case l]
  obtain r where r: "vsnprintf no_strings 0 (\<lambda>_. CHR ''z'') 100 4 ''n=%d'' (va_start [42] []) = Some r"
    "r_ret r = 4" "bytes (r_mem r) 100 4 = ''n=4'' @ [NUL]" "\<forall>a. a < 100 \<or> a \<ge> 100 + 4 \<longrightarrow> r_mem r a = CHR ''z''"
    by (elim exE conjE) simp
  from r(4) have "r_mem r 104 = CHR ''z''" by simp
  with r show ?thesis by blast
qed

section \<open>The chunk buffer and a sink\<close>

text \<open>A sink that accepts everything: the world records what it was given, in order, and errno stays.\<close>

definition reliable ::
  "('w \<Rightarrow> string \<Rightarrow> (int \<times> 'w) option) \<Rightarrow> ('w \<Rightarrow> int) \<Rightarrow> ('w \<Rightarrow> string) \<Rightarrow> ('w \<Rightarrow> bool) \<Rightarrow> bool" where
  "reliable sink errno_of got good \<longleftrightarrow>
     (\<forall>w s. good w \<and> s \<noteq> [] \<longrightarrow>
        (\<exists>w'. sink w s = Some (0, w') \<and> good w' \<and> got w' = got w @ s \<and> errno_of w' = errno_of w))"

definition stream_core ::
  "('w \<Rightarrow> string \<Rightarrow> (int \<times> 'w) option) \<Rightarrow> ('w \<Rightarrow> int) \<Rightarrow> ('w \<Rightarrow> string) \<Rightarrow> ('w \<Rightarrow> bool) \<Rightarrow> string \<Rightarrow> int \<Rightarrow> 'w fmt_out \<Rightarrow> string \<Rightarrow> bool" where
  "stream_core sink errno_of got good g0 errno o' t \<longleftrightarrow>
     reliable sink errno_of got good \<and> o_sink o' = Some sink \<and> \<not> o_hung o' \<and> good (o_world o') \<and> errno_of (o_world o') = errno \<and>
     0 < o_cap o' \<and> o_fill o' \<le> o_cap o' \<and> got (o_world o') @ bytes (o_mem o') (o_buf o') (o_fill o') = g0 @ t \<and>
     (\<exists>u. got (o_world o') = g0 @ u)"

definition stream_rel ::
  "('w \<Rightarrow> string \<Rightarrow> (int \<times> 'w) option) \<Rightarrow> ('w \<Rightarrow> int) \<Rightarrow> ('w \<Rightarrow> string) \<Rightarrow> ('w \<Rightarrow> bool) \<Rightarrow> string \<Rightarrow> int \<Rightarrow> 'w fmt_out \<Rightarrow> string \<Rightarrow> bool" where
  "stream_rel sink errno_of got good g0 errno o' t \<longleftrightarrow> stream_core sink errno_of got good g0 errno o' t \<and> o_pos o' = length t"

lemma stream_flush:
  assumes "stream_core sink errno_of got good g0 errno o' t" "o_err o' = 0"
  shows "stream_core sink errno_of got good g0 errno (out_flush o') t \<and> o_err (out_flush o') = 0 \<and> o_fill (out_flush o') = 0 \<and>
    o_pos (out_flush o') = o_pos o' \<and> got (o_world (out_flush o')) = g0 @ t"
proof (cases "o_fill o' = 0")
  case True
  then show ?thesis using assms by (simp add: out_flush_def stream_core_def bytes_def)
next
  case False
  then have "bytes (o_mem o') (o_buf o') (o_fill o') \<noteq> []" by (simp add: bytes_def)
  then obtain w' where "sink (o_world o') (bytes (o_mem o') (o_buf o') (o_fill o')) = Some (0, w')" "good w'"
    "got w' = got (o_world o') @ bytes (o_mem o') (o_buf o') (o_fill o')" "errno_of w' = errno_of (o_world o')"
    using assms(1) unfolding stream_core_def reliable_def by blast
  with False assms show ?thesis by (simp add: out_flush_def stream_core_def bytes_def)
qed

lemma stream_store:
  assumes "stream_core sink errno_of got good g0 errno o' t" "length q \<le> o_cap o' - o_fill o'"
  shows "stream_core sink errno_of got good g0 errno
    (o'\<lparr>o_mem := store (o_mem o') (o_buf o' + o_fill o') q, o_fill := o_fill o' + length q\<rparr>) (t @ q)"
proof -
  have "o_fill o' \<le> o_cap o'" using assms(1) by (simp add: stream_core_def)
  then have "o_fill o' + length q \<le> o_cap o'" using assms(2) by linarith
  then show ?thesis
    using assms bytes_store_same [of "o_mem o'" "o_buf o' + o_fill o'" q] bytes_store_other [of "o_buf o'" "o_fill o'" "o_buf o' + o_fill o'" q "o_mem o'"]
    by (simp add: stream_core_def bytes_append)
qed

lemma stream_bytes:
  "stream_core sink errno_of got good g0 errno o' t \<Longrightarrow> o_err o' = 0 \<Longrightarrow>
   stream_core sink errno_of got good g0 errno (bytes_loop o' p) (t @ p) \<and> o_err (bytes_loop o' p) = 0 \<and> o_pos (bytes_loop o' p) = o_pos o'"
proof (induction o' p arbitrary: t rule: bytes_loop.induct)
  case (1 o' p)
  have sk: "o_sink o' = Some sink" "0 < o_cap o'" "o_fill o' \<le> o_cap o'" using 1(3) by (simp_all add: stream_core_def)
  consider "p = []" | "p \<noteq> []" "o_cap o' - o_fill o' = 0" | "p \<noteq> []" "o_cap o' - o_fill o' \<noteq> 0" by blast
  then show ?case
  proof cases
    case 1
    then show ?thesis using \<open>stream_core sink errno_of got good g0 errno o' t\<close> \<open>o_err o' = 0\<close> by (simp add: bytes_loop.simps [of o'])
  next
    case 2
    note f = stream_flush [OF 1(3,4)]
    have h: "\<not> o_hung (out_flush o')" using f by (simp add: stream_core_def)
    have n: "o_fill o' \<noteq> 0" using 2 sk by simp
    have "bytes_loop o' p = bytes_loop (out_flush o') p"
      using 2 sk f h n by (subst bytes_loop.simps) simp
    moreover have "o_err (out_flush o') = 0" using f by blast
    ultimately show ?thesis using 1(1) [OF 2(1) refl 2(2), of t] sk f h n by simp
  next
    case 3
    define k where "k = min (length p) (o_cap o' - o_fill o')"
    have k: "length (take k p) = k" "k \<le> o_cap o' - o_fill o'" by (auto simp: k_def)
    let ?o = "o'\<lparr>o_mem := store (o_mem o') (o_buf o' + o_fill o') (take k p), o_fill := o_fill o' + k\<rparr>"
    have "stream_core sink errno_of got good g0 errno ?o (t @ take k p)"
      using stream_store [OF 1(3), of "take k p"] k by simp
    from 1(2) [OF 3(1) refl 3(2) k_def this] have
      "stream_core sink errno_of got good g0 errno (bytes_loop ?o (drop k p)) (t @ p) \<and> o_err (bytes_loop ?o (drop k p)) = 0 \<and>
       o_pos (bytes_loop ?o (drop k p)) = o_pos o'" using 1(4) by simp
    moreover have "bytes_loop o' p = bytes_loop ?o (drop k p)"
      using 3 by (subst bytes_loop.simps) (simp add: Let_def k_def)
    ultimately show ?thesis by simp
  qed
qed

interpretation stream: out_device "stream_rel sink errno_of got good g0 errno" errno_of errno for sink errno_of got good g0 errno
proof unfold_locales
  fix o' :: "'a fmt_out" and t p :: string
  assume r: "stream_rel sink errno_of got good g0 errno o' t" and e: "o_err o' = 0"
  have "stream_core sink errno_of got good g0 errno (o'\<lparr>o_pos := o_pos o' + length p\<rparr>) t"
    using r by (simp add: stream_rel_def stream_core_def)
  from stream_bytes [OF this, of p] r e
  show "stream_rel sink errno_of got good g0 errno (bytes_loop (o'\<lparr>o_pos := o_pos o' + length p\<rparr>) p) (t @ p) \<and>
    o_err (bytes_loop (o'\<lparr>o_pos := o_pos o' + length p\<rparr>) p) = 0"
    by (simp add: stream_rel_def)
qed (auto simp: stream_rel_def stream_core_def)

lemma vformat_stream:
  assumes "reliable sink errno_of got good" "good w" "n > 0"
    and "fmt_text e (errno_of w) fmt ap [] ([], 0) = ((t, er), st)"
  shows "\<exists>r. moqi_vformat e errno_of m buf n (Some sink) w fmt ap = Some r \<and> r_ret r = (if er = 0 then int (length t) else -1) \<and>
    r_errno r = (if er = 0 then None else Some er) \<and> r_stores r = st \<and> good (r_world r) \<and>
    (if er = 0 then got (r_world r) = got w @ t else \<exists>u v. t = u @ v \<and> got (r_world r) = got w @ u)"
proof -
  let ?o = "fmt_start m buf n (Some sink) w"
  have "stream_rel sink errno_of got good (got w) (errno_of w) ?o []"
    using assms(1-3) by (simp add: stream_rel_def stream_core_def fmt_start_def bytes_def)
  moreover have "fmt_text e (errno_of w) fmt ap [] ([], o_err ?o) = ((t, er), st)" using assms(4) by (simp add: fmt_start_def)
  ultimately obtain o1 where o1: "vformat_loop e errno_of fmt ap [] ?o = (o1, st)"
    "stream_rel sink errno_of got good (got w) (errno_of w) o1 t" "o_err o1 = er"
    using stream.device_loop by blast
  have c: "stream_core sink errno_of got good (got w) (errno_of w) o1 t" "o_pos o1 = length t" "\<not> o_hung o1"
    "got (o_world o1) @ bytes (o_mem o1) (o_buf o1) (o_fill o1) = got w @ t" "good (o_world o1)"
    using o1(2) by (simp_all add: stream_rel_def stream_core_def)
  show ?thesis
  proof (cases "er = 0")
    case True
    then show ?thesis using stream_flush [OF c(1)] o1 c(2,3)
      by (auto simp: moqi_vformat_def stream_core_def Let_def)
  next
    case False
    obtain u where u: "got (o_world o1) = got w @ u" using c(1) by (auto simp: stream_core_def)
    with c(4) have "t = u @ bytes (o_mem o1) (o_buf o1) (o_fill o1)" by simp
    then show ?thesis using o1(1,3) c(3,5) u False by (auto simp: moqi_vformat_def Let_def)
  qed
qed

section \<open>Integers\<close>

abbreviation pieces_text :: "piece list \<Rightarrow> string" where
  "pieces_text ps \<equiv> concat (map piece_text ps)"

lemma only_if_text [simp]: "pieces_text (only_if b ps) = (if b then pieces_text ps else [])"
  by (simp add: only_if_def)

lemma chars_text [simp]: "concat (map (piece_text \<circ> (\<lambda>c. Bytes [c])) cs) = cs"
  by (induction cs) simp_all

lemma sign_text_cases: "sign_text s neg \<in> {[], ''-'', ''+'', '' ''}" "sign_text s neg = ''-'' \<longleftrightarrow> neg"
  by (auto simp: sign_text_def)

lemma hex_digits_chars: "list_all (\<lambda>d. hex_digits False ! d = digit_char d) [0..<16]"
  by code_simp

lemma hex_digits_dec: "d < 16 \<Longrightarrow> hex_digits False ! d = digit_char d"
  using hex_digits_chars by (simp add: list_all_iff del: upt_conv_Cons)

lemma decimal_digits:
  "rev (map (\<lambda>d. hex_digits False ! d) (digits_rev 10 mag)) = base_text 10 mag"
proof -
  have "hex_digits False ! d = digit_char d" if "d \<in> set (digits_rev 10 mag)" for d
    using digits_rev_less [of 10 d mag] that by (simp add: hex_digits_dec)
  then show ?thesis by (simp add: base_text_def)
qed

text \<open>The shape of a decimal number: blanks, sign, zeros, digits, blanks; the blanks on one side only.\<close>

lemma emit_decimal_text:
  obtains a z b where "pieces_text (emit_number s True neg mag 10 False False) =
    replicate a (CHR '' '') @ sign_text s neg @ (replicate z (CHR ''0'') @ (if mag = 0 \<and> f_prec s = 0 then [] else base_text 10 mag)) @
    replicate b (CHR '' '')"
proof -
  define tmp where "tmp = (if mag = 0 \<and> f_prec s = 0 then [] else map (\<lambda>d. hex_digits False ! d) (digits_rev 10 mag))"
  have t: "rev tmp = (if mag = 0 \<and> f_prec s = 0 then [] else base_text 10 mag)"
    unfolding tmp_def using decimal_digits by simp
  have "\<exists>sp zz. emit_number s True neg mag 10 False False =
    only_if (\<not> f_left s) [Fill (CHR '' '') sp] @ only_if (sign_text s neg \<noteq> []) [Bytes (sign_text s neg)] @ [Bytes []] @
    [Fill (CHR ''0'') zz] @ map (\<lambda>c. Bytes [c]) (rev tmp) @ only_if (f_left s) [Fill (CHR '' '') sp]"
    unfolding emit_number_def tmp_def [symmetric] Let_def by (simp only: simp_thms if_True if_False) (intro exI, rule refl)
  then obtain sp zz where e: "emit_number s True neg mag 10 False False =
    only_if (\<not> f_left s) [Fill (CHR '' '') sp] @ only_if (sign_text s neg \<noteq> []) [Bytes (sign_text s neg)] @ [Bytes []] @
    [Fill (CHR ''0'') zz] @ map (\<lambda>c. Bytes [c]) (rev tmp) @ only_if (f_left s) [Fill (CHR '' '') sp]" by blast
  have "pieces_text (emit_number s True neg mag 10 False False) =
    replicate (if f_left s then 0 else sp) (CHR '' '') @ sign_text s neg @ (replicate zz (CHR ''0'') @ rev tmp) @
    replicate (if f_left s then sp else 0) (CHR '' '')"
    unfolding e by simp
  then show thesis using that unfolding t by blast
qed

lemma run_from_zeros: "run_value b (replicate z (CHR ''0'') @ ds) = run_value b ds"
  by (induction z) (simp_all add: digit_value_def ub_def)

lemma takeWhile_blanks: "takeWhile (\<lambda>c. is_space_c (ub c)) (replicate a (CHR '' '') @ r) = replicate a (CHR '' '') @ takeWhile (\<lambda>c. is_space_c (ub c)) r"
  by (induction a) (simp_all add: is_space_c_def ub_def)

lemma strtoll_padded:
  assumes sg: "sg \<in> {[], ''-'', ''+'', '' ''}" and ds: "\<forall>c \<in> set ds. digit_value (ub c) < 10" "ds \<noteq> []"
    and v: "v = (if sg = ''-'' then - run_value 10 ds else run_value 10 ds)" "in_i64 v"
  shows "strtoll (replicate a (CHR '' '') @ sg @ ds @ replicate b (CHR '' '')) 10 = (v, Some (a + length sg + length ds), None)"
proof -
  let ?s = "replicate a (CHR '' '') @ sg @ ds @ replicate b (CHR '' '')"
  obtain d ds' where d: "ds = d # ds'" using ds(2) by (cases ds) auto
  have nd: "\<not> is_space_c (ub d)" "d \<noteq> CHR ''-''" "d \<noteq> CHR ''+''" using digit_not_space [of d] ds(1) d by simp_all
  have "number_start ?s 10 = (sg = ''-'', a + length sg, 10)"
  proof -
    have sp: "is_space_c 32" "\<not> is_space_c 45" "\<not> is_space_c 43" by (simp_all add: is_space_c_def)
    have c: "ub (CHR '' '') = 32" "ub (CHR ''-'') = 45" "ub (CHR ''+'') = 43" by (simp_all add: ub_def)
    from sg consider "sg = []" | "sg = ''-''" | "sg = ''+''" | "sg = '' ''" by blast
    then show ?thesis
      by cases (use nd in \<open>simp_all add: d number_start_def Let_def takeWhile_blanks char_at_def nth_append sp c\<close>)
  qed
  moreover have r: "digit_run 10 (drop (a + length sg) ?s) = ds"
    using ds by (cases b) (simp_all add: digit_run_def takeWhile_append digit_value_def ub_def)
  moreover have "clamp_i64 v = v" using v(2) by (auto simp: clamp_i64_def in_i64_def)
  ultimately show ?thesis using strto_eq(1) [of ?s 10 "sg = ''-''" "a + length sg" 10] ds(2) v(2)
    unfolding r v(1) [symmetric] by (simp add: base_valid_def)
qed

lemma strtoll_blank:
  assumes "\<forall>c \<in> set s. \<not> digit_value (ub c) < 10"
  shows "strtoll s 10 = (0, Some 0, None)"
proof -
  obtain neg p b where n: "number_start s 10 = (neg, p, b)" by (rule prod_cases3)
  then have "b = 10" by (auto simp: number_start_def Let_def)
  moreover have "digit_run 10 (drop p s) = []" using assms set_drop_subset [of p s] by (cases "drop p s") (auto simp: digit_run_def)
  ultimately show ?thesis using strto_eq(1) [OF n] by (simp add: base_valid_def clamp_i64_def in_i64_def)
qed

lemma signed_arg_range: "in_i64 (signed_arg l x)"
  by (auto simp: signed_arg_def to_i8_def to_i16_def to_i32_def to_i64_def in_i64_def)

lemma pad_total:
  "(T :: nat) + ((if b then (if w > T then w - T else 0) else 0) + (if b then 0 else (if w > T then w - T else 0))) = max w T"
  by auto

lemma padded_length:
  "length (pieces_text (only_if (\<not> l) [Fill c sp] @ only_if (sg \<noteq> []) [Bytes sg] @ [Bytes pf] @ [Fill d (zf + z)] @
     map (\<lambda>c. Bytes [c]) ds @ only_if l [Fill c sp])) = length sg + length pf + z + length ds + (sp + zf)"
  by simp

lemma emit_number_width: "f_width s \<le> length (pieces_text (emit_number s sc neg mag base up alt))"
  unfolding emit_number_def Let_def padded_length length_rev pad_total by (rule max.cobounded1)

lemma digit_zero: "digit_value (ub (CHR ''0'')) < 10" "\<not> digit_value (ub (CHR '' '')) < 10" "\<not> digit_value (ub (CHR ''+'')) < 10"
  by (simp_all add: digit_value_def ub_def)

lemma decimal_roundtrip:
  assumes "in_i64 v"
  shows "fst (strtoll (pieces_text (emit_number s True (v < 0) (nat (abs v)) 10 False False)) 10) = v \<and>
    snd (snd (strtoll (pieces_text (emit_number s True (v < 0) (nat (abs v)) 10 False False)) 10)) = None"
proof -
  let ?t = "pieces_text (emit_number s True (v < 0) (nat (abs v)) 10 False False)"
  define sg where "sg = sign_text s (v < 0)"
  obtain a z b where t: "?t = replicate a (CHR '' '') @ sg @
    (replicate z (CHR ''0'') @ (if nat (abs v) = 0 \<and> f_prec s = 0 then [] else base_text 10 (nat (abs v)))) @ replicate b (CHR '' '')"
    unfolding sg_def by (rule emit_decimal_text)
  define ds where "ds = replicate z (CHR ''0'') @ (if nat (abs v) = 0 \<and> f_prec s = 0 then [] else base_text 10 (nat (abs v)))"
  have sg: "sg \<in> {[], ''-'', ''+'', '' ''}" "sg = ''-'' \<longleftrightarrow> v < 0" using sign_text_cases [of s "v < 0"] by (simp_all add: sg_def)
  note bt = base_text_props [of 10 "nat (abs v)"]
  have dig: "\<forall>c \<in> set ds. digit_value (ub c) < 10" using bt(3) digit_zero by (auto simp: ds_def)
  have "run_value 10 (replicate z (CHR ''0'') @ []) = 0" by (subst run_from_zeros) simp
  then have val: "run_value 10 ds = abs v" using bt(2) by (auto simp: ds_def run_from_zeros)
  show ?thesis
  proof (cases "ds = []")
    case True
    then have "v = 0" using val by simp
    then have "\<forall>c \<in> set ?t. \<not> digit_value (ub c) < 10"
      unfolding t ds_def [symmetric] using sg True digit_zero by auto
    from strtoll_blank [OF this] \<open>v = 0\<close> show ?thesis by simp
  next
    case False
    have "v = (if sg = ''-'' then - run_value 10 ds else run_value 10 ds)" using sg(2) val by auto
    from strtoll_padded [OF sg(1) dig False this assms, of a b] show ?thesis unfolding t ds_def [symmetric] by simp
  qed
qed

text \<open>C20. The %d and %i conversions with any flags, width, precision and length modifier: the text is at least as wide as the width
  asks, and strtoll reads the argument, at the width of the length modifier, back from it without an error. One argument is
  consumed and nothing fails. This holds for the most negative number and for a zero with precision 0, which prints no digit.\<close>

theorem printf_decimal_roundtrip:
  "let (ps, er, ns, ap') = fmt_convert e errno s (if b then CHR ''d'' else CHR ''i'') pos ap;
       t = concat (map piece_text ps); v = signed_arg (f_len s) (gp ap (gp_next ap))
   in er = 0 \<and> ns = [] \<and> ap' = ap\<lparr>gp_next := gp_next ap + 1\<rparr> \<and> f_width s \<le> length t \<and>
      fst (strtoll t 10) = v \<and> snd (snd (strtoll t 10)) = None"
proof -
  define v where "v = signed_arg (f_len s) (gp ap (gp_next ap))"
  have v: "in_i64 v" unfolding v_def by (rule signed_arg_range)
  have c: "fmt_convert e errno s (if b then CHR ''d'' else CHR ''i'') pos ap =
    (emit_number s True (v < 0) (nat (abs v)) 10 False False, 0, [], ap\<lparr>gp_next := gp_next ap + 1\<rparr>)"
    by (simp add: fmt_convert_def next_gp_def v_def Let_def)
  show ?thesis unfolding c Let_def prod.case using decimal_roundtrip [OF v, of s] emit_number_width by (simp add: v_def)
qed

end
