(* ===== verification/Stdio_Theorems.thy ===== *)
theory Stdio_Theorems
  imports Stdio Printf_Theorems
begin

text \<open>
  Output through the write system call, whatever short writes and interruptions it has, and \<open>vasprintf\<close>, which composes the
  engine with the allocator.
\<close>

section \<open>The descriptor sink\<close>

text \<open>
  What is relied on of the write system call, for the worlds that \<open>good\<close> describes: it takes a nonempty front of the data, or is
  interrupted and takes nothing, and interruptions do not go on forever. It leaves errno, which the library keeps.
\<close>

definition writes_through ::
  "'w write_call \<Rightarrow> int \<Rightarrow> ('w \<Rightarrow> int) \<Rightarrow> ('w \<Rightarrow> string) \<Rightarrow> ('w \<Rightarrow> nat) \<Rightarrow> ('w \<Rightarrow> bool) \<Rightarrow> bool" where
  "writes_through sys_write fd errno_of got interrupts good \<longleftrightarrow>
     (\<forall>w data. good w \<and> data \<noteq> [] \<longrightarrow>
        (let (r, w') = sys_write w fd data in
         good w' \<and> errno_of w' = errno_of w \<and>
         ((r = - EINTR \<and> got w' = got w \<and> interrupts w' < interrupts w) \<or>
          (0 < r \<and> r \<le> int (length data) \<and> got w' = got w @ take (nat r) data))))"

lemma fd_sink_delivers:
  assumes wt: "writes_through sys_write fd errno_of got interrupts good"
  shows "good w \<Longrightarrow> \<exists>w'. fd_sink sys_write fd w data = Some (0, w') \<and> good w' \<and> got w' = got w @ data \<and> errno_of w' = errno_of w"
proof (induction "(length data, interrupts w)" arbitrary: data w rule: wf_induct_rule [OF wf_lex_prod [OF wf_less wf_less]])
  case 1
  show ?case
  proof (cases "data = []")
    case True
    then show ?thesis using 1(2) by (subst fd_sink.simps) simp
  next
    case False
    obtain r w1 where w1: "sys_write w fd data = (r, w1)" by (rule prod.exhaust)
    then have c: "good w1" "errno_of w1 = errno_of w"
      "(r = - EINTR \<and> got w1 = got w \<and> interrupts w1 < interrupts w) \<or>
       (0 < r \<and> r \<le> int (length data) \<and> got w1 = got w @ take (nat r) data)"
      using wt False 1(2) unfolding writes_through_def by (fastforce simp: Let_def)+
    from c(3) show ?thesis
    proof
      assume i: "r = - EINTR \<and> got w1 = got w \<and> interrupts w1 < interrupts w"
      then obtain w' where "fd_sink sys_write fd w1 data = Some (0, w')" "good w'" "got w' = got w1 @ data" "errno_of w' = errno_of w1"
        using 1(1) [of data w1] c(1) by auto
      then show ?thesis using False w1 i c(2) by (subst fd_sink.simps) simp
    next
      assume s: "0 < r \<and> r \<le> int (length data) \<and> got w1 = got w @ take (nat r) data"
      then have "length (drop (nat r) data) < length data" using False by simp
      then obtain w' where "fd_sink sys_write fd w1 (drop (nat r) data) = Some (0, w')" "good w'"
        "got w' = got w1 @ drop (nat r) data" "errno_of w' = errno_of w1"
        using 1(1) [of "drop (nat r) data" w1] c(1) by auto
      then show ?thesis using False w1 s c(2) by (subst fd_sink.simps) auto
    qed
  qed
qed

lemma fd_sink_reliable:
  "writes_through sys_write fd errno_of got interrupts good \<Longrightarrow> reliable (fd_sink sys_write fd) errno_of got good"
  unfolding reliable_def using fd_sink_delivers by fast

text \<open>C18. vdprintf, and with it printf, dprintf, vprintf and puts, over a write system call with short writes and interruptions:
  the call returns; the descriptor receives the whole text of the format and the arguments, in order, nothing twice and
  nothing lost, and the result is its length; when a conversion fails the descriptor has received a front of the text, and the
  result is -1 with that errno.\<close>

theorem vdprintf_delivers:
  assumes "writes_through sys_write fd errno_of got interrupts good" "good w"
  shows "case fmt_text e (errno_of w) fmt ap [] ([], 0) of ((t, er), st) \<Rightarrow>
    (\<exists>r. vdprintf sys_write e errno_of m chunk w fd fmt ap = Some r \<and> r_stores r = st \<and>
       (if er = 0 then r_ret r = int (length t) \<and> r_errno r = None \<and> got (r_world r) = got w @ t
        else r_ret r = -1 \<and> r_errno r = Some er \<and> (\<exists>u v. t = u @ v \<and> got (r_world r) = got w @ u)))"
proof -
  obtain t er st where f: "fmt_text e (errno_of w) fmt ap [] ([], 0) = ((t, er), st)" by (metis prod.exhaust)
  have "(0::nat) < 512" by simp
  from vformat_stream [OF fd_sink_reliable [OF assms(1)] assms(2) this f, of m chunk]
  show ?thesis unfolding f vdprintf_def by (auto split: if_splits)
qed

text \<open>A write system call that takes one byte at a time and is interrupted every other time.\<close>

definition slow_write :: "(string \<times> nat) write_call" where
  "slow_write w fd data = (if snd w > 0 then (- EINTR, (fst w, 0)) else (1, (fst w @ take 1 data, 1)))"

theorem vdprintf_delivers_witness:
  "\<exists>r. vdprintf slow_write no_strings (\<lambda>_. 0) (\<lambda>_. NUL) 100 ('''', 1) 1 ''n=%d'' (va_start [42] []) = Some r \<and>
     r_ret r = 4 \<and> fst (r_world r) = ''n=42''"
proof -
  have "writes_through slow_write 1 (\<lambda>_. 0) fst snd (\<lambda>_. True)"
    by (auto simp: writes_through_def slow_write_def neq_Nil_conv)
  from vdprintf_delivers [OF this, where w = "('''', 1)" and e = no_strings and fmt = "''n=%d''" and ap = "va_start [42] []"
      and m = "\<lambda>_. NUL" and chunk = 100]
  show ?thesis unfolding demo_text by auto
qed

section \<open>Allocated output\<close>

lemma free_locked_errno: "herrno (free_locked p h) = herrno h"
  by (simp add: free_locked_def split: option.split)

lemma drain_slot_errno: "herrno (drain_slot i h) = herrno h"
  by (simp add: drain_slot_def Let_def free_locked_errno)

lemma drain_pass_errno: "herrno (drain_pass h) = herrno h"
proof -
  have "herrno (fold drain_slot is h) = herrno h" for "is"
    by (induction "is" arbitrary: h) (simp_all add: drain_slot_errno)
  then show ?thesis by (simp add: drain_pass_def)
qed

lemma drain_errno: "herrno (drain h) = herrno h"
proof (induction h rule: drain.induct)
  case (1 h)
  then show ?case by (subst drain.simps) (simp add: drain_pass_errno)
qed

text \<open>An allocation that succeeds leaves errno, so the second call formats the text that the first one measured.\<close>

lemma malloc_errno:
  assumes "malloc ok self h n = Some (Some p, h')"
  shows "herrno h' = herrno h"
proof -
  have a: "heap_acquire self h = Some (b, h1) \<Longrightarrow> herrno h1 = herrno h" for b h1
    by (auto simp: heap_acquire_def split: if_splits)
  have l: "malloc_locked ok want h1 = (q, h2) \<Longrightarrow> herrno h2 = herrno h1" for want h1 q h2
    by (auto simp: malloc_locked_def grow_def Let_def split: option.splits prod.splits)
  show ?thesis using assms a l
    by (auto simp: malloc_def Let_def heap_release_def drain_errno split: if_splits option.splits prod.splits bool.splits)
qed

lemma errno_keeps:
  "heap_quiet (h\<lparr>herrno := er\<rparr>) = heap_quiet h" "live_map (h\<lparr>herrno := er\<rparr>) = live_map h"
  by (simp_all add: heap_quiet_def live_map_def)

text \<open>What an allocated text is: a fresh allocation that holds the text and a NUL, with every byte of an older one unchanged.\<close>

definition printed_fresh :: "heap \<Rightarrow> string \<Rightarrow> nat \<Rightarrow> heap \<Rightarrow> bool" where
  "printed_fresh h t p h' \<longleftrightarrow> live_map h p = None \<and> (\<exists>k > length t. live_map h' = (live_map h)(p \<mapsto> k)) \<and>
     bytes (hmem h') p (length t + 1) = t @ [NUL] \<and>
     (\<forall>q n a. live_map h q = Some n \<and> q \<le> a \<and> a < q + n \<longrightarrow> hmem h' a = hmem h a)"

lemma stored_fresh:
  assumes "heap_quiet h" "length t + 1 \<le> REQUEST_MAX" "malloc ok (Suc t') h (length t + 1) = Some (Some p, h1)"
  shows "printed_fresh h t p (h1\<lparr>hmem := store (hmem h1) p (t @ [NUL])\<rparr>) \<and> heap_quiet (h1\<lparr>hmem := store (hmem h1) p (t @ [NUL])\<rparr>)"
proof -
  let ?h = "h1\<lparr>hmem := store (hmem h1) p (t @ [NUL])\<rparr>"
  obtain k where k: "heap_quiet h1" "live_map h p = None" "hmem h1 = hmem h" "length t + 1 \<le> k"
    "live_map h1 = (live_map h)(p \<mapsto> k)" using heap_alloc.alloc_some [OF assms] by blast
  have "hmem ?h a = hmem h a" if "live_map h q = Some n" "q \<le> a" "a < q + n" for q n a
    using heap_alloc.alloc_fresh [OF assms that(1)] that(2,3) k(3) by (auto simp: store_at)
  moreover have "bytes (hmem ?h) p (length t + 1) = t @ [NUL]" using bytes_store_same [of "hmem h1" p "t @ [NUL]"] by simp
  ultimately show ?thesis using k unfolding printed_fresh_def
    by (auto simp: heap_alloc.put_simps(1,2) intro!: exI [of _ k])
qed

text \<open>C19. vasprintf, and with it asprintf: the call returns. If the format fails the result is -1 with that errno and no pointer; if
  the allocation fails it is -1 with ENOMEM and no pointer; either way allocations and memory are as before. Otherwise the
  pointer is a fresh allocation that holds the whole text and its NUL, never a truncated one, no older allocation is
  touched, and the result is the length of the text.\<close>

theorem vasprintf_allocates:
  assumes "heap_quiet h" "fmt_text e (herrno h) fmt ap [] ([], 0) = ((t, er), st)"
  shows "case vasprintf ok (Suc t') e h fmt ap of
      None \<Rightarrow> False
    | Some (n, None, h', st') \<Rightarrow> n = -1 \<and> herrno h' = (if er \<noteq> 0 then er else ENOMEM) \<and> heap_quiet h' \<and> live_map h' = live_map h \<and> hmem h' = hmem h
    | Some (n, Some p, h', st') \<Rightarrow> er = 0 \<and> n = int (length t) \<and> st' = st @ st \<and> heap_quiet h' \<and> printed_fresh h t p h'"
proof -
  note first = vsnprintf_run [OF assms(2), of "hmem h" 0 0]
  show ?thesis
  proof (cases "er = 0")
    case False
    then show ?thesis using first assms(1) by (simp add: vasprintf_def errno_keeps)
  next
    case True
    have "length t \<le> FMT_INT_MAX" using fmt_text_length [of "([], 0)" e "herrno h" fmt ap "[]"] assms(2) by simp
    then have lim: "length t + 1 \<le> REQUEST_MAX" by (simp add: FMT_INT_MAX_def)
    obtain r h1 where m: "malloc ok (Suc t') h (length t + 1) = Some (r, h1)"
      using heap_alloc.alloc_returns [OF assms(1) lim, of ok t'] by auto
    show ?thesis
    proof (cases r)
      case None
      then show ?thesis using first True m heap_alloc.alloc_fail [OF assms(1) lim, of ok t' h1]
        by (simp add: vasprintf_def errno_keeps)
    next
      case (Some p)
      with m have m': "malloc ok (Suc t') h (length t + 1) = Some (Some p, h1)" by simp
      from assms(2) have "fmt_text e (herrno h1) fmt ap [] ([], 0) = ((t, er), st)" using malloc_errno [OF m'] by simp
      note second = vsnprintf_run [OF this, of "hmem h1" p "length t + 1"]
      show ?thesis using first second True m' stored_fresh [OF assms(1) lim m'] by (simp add: vasprintf_def)
    qed
  qed
qed

theorem vasprintf_allocates_witness:
  "\<exists>h' st'. vasprintf (\<lambda>_ _. True) (Suc 6) no_strings (heap_init demo_break) ''n=%d'' (va_start [42] []) = Some (4, Some 4128, h', st') \<and>
     printed_fresh (heap_init demo_break) ''n=42'' 4128 h'"
proof -
  have q: "heap_quiet (heap_init demo_break)" by simp
  have "fst (the (malloc (\<lambda>_ _. True) (Suc 6) (heap_init demo_break) 5)) = Some 4128" by (simp add: heap_eval Let_def)
  moreover have "malloc (\<lambda>_ _. True) (Suc 6) (heap_init demo_break) 5 \<noteq> None" by (rule heap_alloc.alloc_returns [OF q]) simp
  ultimately obtain h1 where m: "malloc (\<lambda>_ _. True) (Suc 6) (heap_init demo_break) 5 = Some (Some 4128, h1)" by auto
  have "\<exists>h' st'. vasprintf (\<lambda>_ _. True) (Suc 6) no_strings (heap_init demo_break) ''n=%d'' (va_start [42] []) = Some (4, Some 4128, h', st')"
    using m by (simp add: vasprintf_def vsnprintf_run [OF demo_text])
  then obtain h' st' where v: "vasprintf (\<lambda>_ _. True) (Suc 6) no_strings (heap_init demo_break) ''n=%d'' (va_start [42] []) = Some (4, Some 4128, h', st')"
    by blast
  from vasprintf_allocates [OF q demo_text, where ok = "\<lambda>_ _. True" and t' = 6 and e = no_strings] have
    "printed_fresh (heap_init demo_break) ''n=42'' 4128 h'" unfolding v by simp
  with v show ?thesis by blast
qed

end
